(* ===== verification/Prelude.thy ===== *)
theory Prelude
  imports Main "HOL-Library.Word" "HOL-Library.Monad_Syntax"
begin

unbundle bit_operations_syntax

text \<open>
  What every component shares.
  \<^item> Names for the C integer types as words.
  \<^item> The result of running a piece of C code: \<open>Some\<close> of what it returns, or \<open>None\<close> when it does not
    reach its return, because it accesses memory outside an object (undefined behaviour; the model
    stops there) or loops for ever. Error codes the C returns are values, not \<open>None\<close>.
  \<^item> C memory: a pointer into an array is the list of the bytes from the pointer to the end of the
    array object. Loads and stores are bounds-checked; multi-byte ones are little-endian, as on the
    target of the makefile (x86-64). Alignment and aliasing rules are not modelled.
  \<^item> Loops that stop at the first array slot with a property: \<open>first_index\<close>.
\<close>

section \<open>Integer types\<close>

type_synonym u8 = "8 word"
type_synonym u16 = "16 word"
type_synonym u32 = "32 word"
type_synonym u64 = "64 word"

lemma unat_u8_less: "unat (w :: u8) < 256"
  using unsigned_less [of w, where 'a = nat] by simp

lemma unat_u16_less: "unat (w :: u16) < 65536"
  using unsigned_less [of w, where 'a = nat] by simp

lemma unat_u32_less: "unat (w :: u32) < 4294967296"
  using unsigned_less [of w, where 'a = nat] by simp

lemma unat_u64_less: "unat (w :: u64) < 18446744073709551616"
  using unsigned_less [of w, where 'a = nat] by simp

lemma unat_of_nat_u8: "n < 256 \<Longrightarrow> unat (of_nat n :: u8) = n"
  by (simp add: unat_of_nat take_bit_nat_eq_self_iff)

lemma unat_of_nat_u16: "n < 65536 \<Longrightarrow> unat (of_nat n :: u16) = n"
  by (simp add: unat_of_nat take_bit_nat_eq_self_iff)

lemma unat_of_nat_u32: "n < 4294967296 \<Longrightarrow> unat (of_nat n :: u32) = n"
  by (simp add: unat_of_nat take_bit_nat_eq_self_iff)

text \<open>The two bytes of a 16-bit word.\<close>

lemma unat_low_byte: "unat (ucast x :: u8) = unat (x :: u16) mod 256"
  by (simp add: unsigned_ucast_eq take_bit_nat_def)

lemma unat_high_byte: "unat (ucast (drop_bit 8 x) :: u8) = unat (x :: u16) div 256"
proof -
  have "unat (drop_bit 8 x) = unat x div 256"
    using unat_drop_bit_eq [of 8 x] drop_bit_eq_div [of 8 "unat x"] by simp
  then have "unat (ucast (drop_bit 8 x) :: u8) = unat x div 256 mod 256"
    by (simp only: unat_low_byte)
  with unat_u16_less [of x] show ?thesis by simp
qed

lemma unat_of_bytes:
  "256 * unat (ucast (drop_bit 8 x) :: u8) + unat (ucast x :: u8) = unat (x :: u16)"
  unfolding unat_high_byte by (simp only: unat_low_byte mult_div_mod_eq)

text \<open>The lemma collections of the development.\<close>

named_theorems mem_simps "bounds-checked loads and stores"
named_theorems wire_simps "byte-order lemmas"
named_theorems frame_simps "state components an operation does not touch"

section \<open>Runs\<close>

text \<open>A run of \<open>do { x \<leftarrow> m; f x }\<close> that returns is a run of \<open>m\<close> followed by one of \<open>f\<close>.\<close>

lemma run_bindE:
  assumes "m \<bind> f = Some y"
  obtains x where "m = Some x" "f x = Some y"
  using assms by (auto simp: Option.bind_eq_Some_conv)

lemma run_bind_pairE:
  assumes "m \<bind> (\<lambda>(a, b). f a b) = Some y"
  obtains a b where "m = Some (a, b)" "f a b = Some y"
  using assms by (auto simp: Option.bind_eq_Some_conv)

lemma run_bind_tripleE:
  assumes "m \<bind> (\<lambda>((a, b), c). f a b c) = Some y"
  obtains a b c where "m = Some ((a, b), c)" "f a b c = Some y"
  using assms by (auto simp: Option.bind_eq_Some_conv)

lemma run_ifE:
  assumes "(if b then m else n) = Some y"
  obtains (yes) b "m = Some y" | (no) "\<not> b" "n = Some y"
  using assms by (auto split: if_splits)

lemma run_caseE:
  assumes "(case p of (a, b) \<Rightarrow> f a b) = Some y"
  obtains a b where "p = (a, b)" "f a b = Some y"
  using assms by (cases p) auto

lemma run_Some_unitE:
  assumes "Some ((), s) = Some ((), s')"
  obtains "s' = s"
  using assms by simp

lemmas run_elims = run_bind_tripleE run_bind_pairE run_bindE

section \<open>C memory\<close>

text \<open>\<open>rd p off n\<close> reads \<open>n\<close> bytes at \<open>p + off\<close>; \<open>wr off bs p\<close> writes \<open>bs\<close> at \<open>p + off\<close>.\<close>

definition rd :: "u8 list \<Rightarrow> nat \<Rightarrow> nat \<Rightarrow> u8 list option" where
  "rd p off n = (if off + n \<le> length p then Some (take n (drop off p)) else None)"

definition wr :: "nat \<Rightarrow> u8 list \<Rightarrow> u8 list \<Rightarrow> u8 list option" where
  "wr off bs p =
     (if off + length bs \<le> length p
      then Some (take off p @ bs @ drop (off + length bs) p) else None)"

text \<open>\<open>adv p n\<close> is the pointer \<open>p + n\<close>; one past the end is the last one C allows.\<close>

definition adv :: "u8 list \<Rightarrow> nat \<Rightarrow> u8 list option" where
  "adv p n = (if n \<le> length p then Some (drop n p) else None)"

definition ld8 :: "u8 list \<Rightarrow> nat \<Rightarrow> u8 option" where
  "ld8 p off = (if off < length p then Some (p ! off) else None)"

definition st8 :: "nat \<Rightarrow> u8 \<Rightarrow> u8 list \<Rightarrow> u8 list option" where
  "st8 off v p = wr off [v] p"

text \<open>A little-endian machine stores the least significant byte first.\<close>

definition le16 :: "u16 \<Rightarrow> u8 list" where
  "le16 v = [ucast v, ucast (drop_bit 8 v)]"

definition le32 :: "u32 \<Rightarrow> u8 list" where
  "le32 v = [ucast v, ucast (drop_bit 8 v), ucast (drop_bit 16 v), ucast (drop_bit 24 v)]"

definition of_le16 :: "u8 list \<Rightarrow> u16" where
  "of_le16 bs = ucast (bs ! 0) OR push_bit 8 (ucast (bs ! 1))"

definition of_le32 :: "u8 list \<Rightarrow> u32" where
  "of_le32 bs = ucast (bs ! 0) OR push_bit 8 (ucast (bs ! 1)) OR
     push_bit 16 (ucast (bs ! 2)) OR push_bit 24 (ucast (bs ! 3))"

definition ld16 :: "u8 list \<Rightarrow> nat \<Rightarrow> u16 option" where
  "ld16 p off = map_option of_le16 (rd p off 2)"

definition ld32 :: "u8 list \<Rightarrow> nat \<Rightarrow> u32 option" where
  "ld32 p off = map_option of_le32 (rd p off 4)"

definition st16 :: "nat \<Rightarrow> u16 \<Rightarrow> u8 list \<Rightarrow> u8 list option" where
  "st16 off v p = wr off (le16 v) p"

definition st32 :: "nat \<Rightarrow> u32 \<Rightarrow> u8 list \<Rightarrow> u8 list option" where
  "st32 off v p = wr off (le32 v) p"

text \<open>Big-endian (network order) readings and writings, to state what goes on the wire.\<close>

definition be16 :: "u16 \<Rightarrow> u8 list" where
  "be16 v = [ucast (drop_bit 8 v), ucast v]"

definition be32 :: "u32 \<Rightarrow> u8 list" where
  "be32 v = [ucast (drop_bit 24 v), ucast (drop_bit 16 v), ucast (drop_bit 8 v), ucast v]"

definition of_be16 :: "u8 list \<Rightarrow> u16" where
  "of_be16 bs = push_bit 8 (ucast (bs ! 0)) OR ucast (bs ! 1)"

definition of_be32 :: "u8 list \<Rightarrow> u32" where
  "of_be32 bs = push_bit 24 (ucast (bs ! 0)) OR push_bit 16 (ucast (bs ! 1)) OR
     push_bit 8 (ucast (bs ! 2)) OR ucast (bs ! 3)"

section \<open>Byte orders\<close>

lemma length_le [simp]: "length (le16 v) = 2" "length (le32 w) = 4"
  by (simp_all add: le16_def le32_def)

lemma length_be [simp]: "length (be16 v) = 2" "length (be32 w) = 4"
  by (simp_all add: be16_def be32_def)

text \<open>Case splits of a bit index by byte lane, which decide the bits of a byte-wise assembly.\<close>

lemma lane16_cases:
  assumes "n < (16::nat)"
  obtains "n < 8" | "8 \<le> n" "n < 16"
  using assms by fastforce

lemma lane32_cases:
  assumes "n < (32::nat)"
  obtains "n < 8" | "8 \<le> n" "n < 16" | "16 \<le> n" "n < 24" | "24 \<le> n" "n < 32"
  using assms by fastforce

lemma of_le16_le16 [simp]: "of_le16 (le16 v) = v"
proof (rule bit_word_eqI)
  fix n assume "n < LENGTH(16)"
  then have "n < 16" by simp
  then show "bit (of_le16 (le16 v)) n = bit v n"
    by (cases rule: lane16_cases) (auto simp: of_le16_def le16_def bit_simps)
qed

lemma of_le32_le32 [simp]: "of_le32 (le32 v) = v"
proof (rule bit_word_eqI)
  fix n assume "n < LENGTH(32)"
  then have "n < 32" by simp
  then show "bit (of_le32 (le32 v)) n = bit v n"
    by (cases rule: lane32_cases) (auto simp: of_le32_def le32_def bit_simps)
qed

lemma of_be16_be16 [simp]: "of_be16 (be16 v) = v"
proof (rule bit_word_eqI)
  fix n assume "n < LENGTH(16)"
  then have "n < 16" by simp
  then show "bit (of_be16 (be16 v)) n = bit v n"
    by (cases rule: lane16_cases) (auto simp: of_be16_def be16_def bit_simps)
qed

lemma of_be32_be32 [simp]: "of_be32 (be32 v) = v"
proof (rule bit_word_eqI)
  fix n assume "n < LENGTH(32)"
  then have "n < 32" by simp
  then show "bit (of_be32 (be32 v)) n = bit v n"
    by (cases rule: lane32_cases) (auto simp: of_be32_def be32_def bit_simps)
qed

section \<open>Loads and stores\<close>

lemma rd_Some [mem_simps]: "off + n \<le> length p \<Longrightarrow> rd p off n = Some (take n (drop off p))"
  by (simp add: rd_def)

lemma rd_None [mem_simps]: "length p < off + n \<Longrightarrow> rd p off n = None"
  by (simp add: rd_def)

lemma rd_eq_Some_iff: "rd p off n = Some bs \<longleftrightarrow> off + n \<le> length p \<and> bs = take n (drop off p)"
  by (auto simp: rd_def)

lemma rd_length: "rd p off n = Some bs \<Longrightarrow> length bs = n"
  by (auto simp: rd_def split: if_splits)

lemma wr_None [mem_simps]: "length p < off + length bs \<Longrightarrow> wr off bs p = None"
  by (simp add: wr_def)

lemma wr_eq_None_iff: "wr off bs p = None \<longleftrightarrow> length p < off + length bs"
  by (auto simp: wr_def)

lemma wr_length: "wr off bs p = Some p' \<Longrightarrow> length p' = length p"
  by (auto simp: wr_def split: if_splits)

lemma wr_in_bounds:
  assumes "off + length bs \<le> length p"
  obtains p' where "wr off bs p = Some p'" "length p' = length p"
  using assms by (auto simp: wr_def)

text \<open>A store right after a prefix already written: how the packet builders fill a buffer.\<close>

lemma wr_append [mem_simps]:
  "off = length pre \<Longrightarrow> length bs \<le> length rest \<Longrightarrow>
   wr off bs (pre @ rest) = Some ((pre @ bs) @ drop (length bs) rest)"
  by (simp add: wr_def)

lemma wr_zero [mem_simps]:
  "length bs \<le> length rest \<Longrightarrow> wr 0 bs rest = Some (bs @ drop (length bs) rest)"
  by (simp add: wr_def)

text \<open>
  \<open>filled pre rest\<close> is an array whose first bytes \<open>pre\<close> are written. A store at its end, or further on
  in a zeroed rest, extends the prefix.
\<close>

definition filled :: "u8 list \<Rightarrow> u8 list \<Rightarrow> u8 list" where
  "filled pre rest = pre @ rest"

lemma wr_filled [mem_simps]:
  "off = length pre \<Longrightarrow> length bs \<le> length rest \<Longrightarrow>
   wr off bs (filled pre rest) = Some (filled (pre @ bs) (drop (length bs) rest))"
  by (simp add: wr_def filled_def)

lemma wr_filled_gap [mem_simps]:
  "length pre \<le> off \<Longrightarrow> off - length pre + length bs \<le> n \<Longrightarrow>
   wr off bs (filled pre (replicate n 0)) =
     Some (filled (pre @ replicate (off - length pre) 0 @ bs) (replicate (n - (off - length pre + length bs)) 0))"
  by (simp add: wr_def filled_def)

lemma wr_filled_gap2 [mem_simps]:
  "length pre \<le> off \<Longrightarrow> off - length pre + length bs \<le> n \<Longrightarrow>
   wr off bs (filled pre (replicate n 0 @ rest)) =
     Some (filled (pre @ replicate (off - length pre) 0 @ bs)
             (replicate (n - (off - length pre + length bs)) 0 @ rest))"
  by (simp add: wr_def filled_def)

lemma wr_filled_inside [mem_simps]:
  "off + length bs \<le> length pre \<Longrightarrow>
   wr off bs (filled pre rest) = Some (filled (take off pre @ bs @ drop (off + length bs) pre) rest)"
  by (simp add: wr_def filled_def)

lemma adv_filled [mem_simps]: "n \<le> length pre \<Longrightarrow> adv (filled pre rest) n = Some (drop n pre @ rest)"
  by (simp add: adv_def filled_def)

text \<open>Clearing the bytes behind the prefix.\<close>

lemma wr_filled_clear:
  "off = length pre \<Longrightarrow> n \<le> length rest \<Longrightarrow>
   wr off (replicate n 0) (filled pre rest) = Some (filled pre (replicate n 0 @ drop n rest))"
  by (simp add: wr_def filled_def)

lemma length_filled [simp]: "length (filled pre rest) = length pre + length rest"
  by (simp add: filled_def)

lemma ld8_Some [mem_simps]: "off < length p \<Longrightarrow> ld8 p off = Some (p ! off)"
  by (simp add: ld8_def)

lemma ld8_None [mem_simps]: "length p \<le> off \<Longrightarrow> ld8 p off = None"
  by (simp add: ld8_def)

lemma adv_Some [mem_simps]: "n \<le> length p \<Longrightarrow> adv p n = Some (drop n p)"
  by (simp add: adv_def)

lemma adv_eq_Some_iff: "adv p n = Some q \<longleftrightarrow> n \<le> length p \<and> q = drop n p"
  by (auto simp: adv_def)

text \<open>Reading inside a zero-padded array is reading the data followed by zeros.\<close>

lemma rd_padded:
  assumes "length r \<le> N" "off + m \<le> N"
  shows "rd (r @ replicate (N - length r) z) off m = Some (take m (drop off (r @ replicate N z)))"
proof -
  have "take m (drop off (r @ replicate (N - length r) z)) = take m (drop off (r @ replicate N z))"
    using assms by (intro nth_equalityI) (auto simp: nth_append)
  with assms show ?thesis by (simp add: rd_def)
qed

text \<open>Reading a small word as a C \<open>int\<close>.\<close>

lemma sint_small:
  fixes w :: u32
  assumes "unat w < 2 ^ 31"
  shows "sint w = int (unat w)"
proof -
  have "uint w < 2 ^ 31"
    using assms by (simp only: unat_eq_nat_uint nat_less_iff uint_ge_0) simp
  then have "take_bit 31 (uint w) = uint w" "uint w div 2 ^ 31 = 0"
    by (simp_all add: take_bit_int_eq_self_iff)
  then have "take_bit 31 (uint w) = uint w" "\<not> bit (uint w) 31"
    by (simp_all only: bit_iff_odd) simp_all
  then show ?thesis
    by (simp add: sint_uint signed_take_bit_eq_if_positive)
qed

lemma minus_one_le_uint [simp]: "- 1 \<le> uint w"
  using uint_ge_0 [of w] by linarith

lemma minus_uint_less [simp]: "- uint w < 2" "- uint w < 1" "- 1 < uint w"
  using uint_ge_0 [of w] by linarith+

lemma take_two_drop:
  "Suc off < length p \<Longrightarrow> take 2 (drop off p) = [p ! off, p ! Suc off]"
  by (simp add: numeral_2_eq_2 take_Suc_conv_app_nth hd_drop_conv_nth flip: drop_Suc)

lemma take_four_drop:
  assumes "off + 3 < length p"
  shows "take 4 (drop off p) = [p ! off, p ! (off + 1), p ! (off + 2), p ! (off + 3)]"
  using assms by (simp add: list_eq_iff_nth_eq less_Suc_eq numeral_eq_Suc nth_Cons')

section \<open>Loops over array slots\<close>

text \<open>
  The loops \<open>for (i = 0; i < N; i++) if (P(a[i])) { ... return; }\<close> act on the first slot with
  \<open>P\<close>; \<open>first_index P a\<close> is its index, \<open>None\<close> when the loop runs to its end.
\<close>

fun first_index :: "('a \<Rightarrow> bool) \<Rightarrow> 'a list \<Rightarrow> nat option" where
  "first_index P [] = None"
| "first_index P (x # xs) = (if P x then Some 0 else map_option Suc (first_index P xs))"

lemma first_index_None: "first_index P xs = None \<longleftrightarrow> (\<forall>x\<in>set xs. \<not> P x)"
  by (induction xs) auto

lemma first_index_SomeD:
  "first_index P xs = Some i \<Longrightarrow> i < length xs \<and> P (xs ! i) \<and> (\<forall>j<i. \<not> P (xs ! j))"
proof (induction xs arbitrary: i)
  case Nil
  then show ?case by simp
next
  case (Cons x xs)
  then show ?case by (auto simp: less_Suc_eq_0_disj split: if_splits)
qed

lemma first_index_SomeI:
  "i < length xs \<Longrightarrow> P (xs ! i) \<Longrightarrow> (\<And>j. j < i \<Longrightarrow> \<not> P (xs ! j)) \<Longrightarrow> first_index P xs = Some i"
proof (induction xs arbitrary: i)
  case Nil
  then show ?case by simp
next
  case (Cons x xs)
  show ?case
  proof (cases i)
    case 0
    with Cons.prems show ?thesis by simp
  next
    case (Suc k)
    have nP: "\<not> P (xs ! j)" if "j < k" for j
      using Cons.prems(3) [of "Suc j"] Suc that by simp
    have "first_index P xs = Some k"
      using Cons.prems(1,2) Suc nP by (intro Cons.IH) auto
    with Suc Cons.prems(3) [of 0] show ?thesis by simp
  qed
qed

lemma first_index_unique:
  assumes i: "i < length xs" "P (xs ! i)"
    and only: "\<And>j. j < length xs \<Longrightarrow> P (xs ! j) \<Longrightarrow> j = i"
  shows "first_index P xs = Some i"
proof (rule first_index_SomeI)
  show "i < length xs" "P (xs ! i)" by (fact i)+
  fix j assume "j < i"
  with i(1) only [of j] show "\<not> P (xs ! j)" by auto
qed

end
