(* ===== verification/Netd_State.thy ===== *)
theory Netd_State
  imports Prelude
begin

text \<open>
  The header \<open>include/netd.h\<close>: byte-order helpers, protocol constants, the global state \<open>g_net\<close>
  with its ARP cache and UDP bindings, and the Internet checksum; and the system calls of
  \<open>include/libc.h\<close> the daemon makes.

  The kernel behind the system calls is not part of the repository: it is the parameter \<open>K\<close> of
  every operation that makes a call, a record of functions over a kernel state of any type. The C
  flags \<open>valid\<close>, \<open>used\<close> and \<open>ping_replied\<close>, which only ever hold 0 or 1, are booleans; \<open>link_up\<close>,
  copied from and to unsigned words, is its bit pattern.
\<close>

section \<open>Byte-order helpers\<close>

definition htons :: "u16 \<Rightarrow> u16" where
  "htons v = drop_bit 8 v OR push_bit 8 v"

definition ntohs :: "u16 \<Rightarrow> u16" where
  "ntohs v = htons v"

definition htonl :: "u32 \<Rightarrow> u32" where
  "htonl v = (drop_bit 24 v AND 0xFF) OR (drop_bit 8 v AND 0xFF00) OR
     (push_bit 8 v AND 0xFF0000) OR (push_bit 24 v AND 0xFF000000)"

definition ntohl :: "u32 \<Rightarrow> u32" where
  "ntohl v = htonl v"

text \<open>Storing a converted value puts it on the wire in network order, and reading converts back.\<close>

lemma masks32:
  "(0xFF :: u32) = mask 8" "(0xFF00 :: u32) = push_bit 8 (mask 8)"
  "(0xFF0000 :: u32) = push_bit 16 (mask 8)" "(0xFF000000 :: u32) = push_bit 24 (mask 8)"
  by (simp_all add: mask_eq_exp_minus_1)

lemma le16_htons [wire_simps]: "le16 (htons v) = be16 v"
  by (auto simp: le16_def be16_def htons_def intro!: bit_word_eqI simp: bit_simps)

lemma le32_htonl [wire_simps]: "le32 (htonl v) = be32 v"
  by (auto simp: le32_def be32_def htonl_def masks32 intro!: bit_word_eqI simp: bit_simps)

lemma htons_htons [simp]: "htons (htons v) = v"
proof (rule bit_word_eqI)
  fix n assume "n < LENGTH(16)"
  then have "n < 16" by simp
  then show "bit (htons (htons v)) n = bit v n"
    by (cases rule: lane16_cases) (auto simp: htons_def bit_simps)
qed

lemma ntohs_of_le16 [wire_simps]: "ntohs (of_le16 bs) = of_be16 bs"
proof (rule bit_word_eqI)
  fix n assume "n < LENGTH(16)"
  then have "n < 16" by simp
  then show "bit (ntohs (of_le16 bs)) n = bit (of_be16 bs) n"
    by (cases rule: lane16_cases)
      (auto simp: ntohs_def htons_def of_le16_def of_be16_def bit_simps dest: bit_imp_le_length)
qed

lemma ntohl_of_le32 [wire_simps]: "ntohl (of_le32 bs) = of_be32 bs"
proof (rule bit_word_eqI)
  fix n assume "n < LENGTH(32)"
  then have "n < 32" by simp
  then show "bit (ntohl (of_le32 bs)) n = bit (of_be32 bs) n"
    by (cases rule: lane32_cases)
      (auto simp: ntohl_def htonl_def of_le32_def of_be32_def masks32 bit_simps dest: bit_imp_le_length)
qed

section \<open>Protocol constants\<close>

definition ETHERTYPE_ARP :: u16 where [simp]: "ETHERTYPE_ARP = 0x0806"
definition ETHERTYPE_IP :: u16 where [simp]: "ETHERTYPE_IP = 0x0800"

definition IPPROTO_ICMP :: u8 where [simp]: "IPPROTO_ICMP = 1"
definition IPPROTO_UDP :: u8 where [simp]: "IPPROTO_UDP = 17"

definition ARP_OP_REQUEST :: u16 where [simp]: "ARP_OP_REQUEST = 1"
definition ARP_OP_REPLY :: u16 where [simp]: "ARP_OP_REPLY = 2"

definition ICMP_ECHO_REQ :: u8 where [simp]: "ICMP_ECHO_REQ = 8"
definition ICMP_ECHO_REP :: u8 where [simp]: "ICMP_ECHO_REP = 0"

definition DHCP_PORT_SERVER :: u16 where [simp]: "DHCP_PORT_SERVER = 67"
definition DHCP_PORT_CLIENT :: u16 where [simp]: "DHCP_PORT_CLIENT = 68"
definition DNS_PORT :: u16 where [simp]: "DNS_PORT = 53"

definition NET_CMD_GET_LINK_UP :: u32 where [simp]: "NET_CMD_GET_LINK_UP = 2"
definition NET_CMD_GET_MTU :: u32 where [simp]: "NET_CMD_GET_MTU = 3"
definition NET_CMD_GET_MAC :: u32 where [simp]: "NET_CMD_GET_MAC = 4"
definition NET_CMD_TX_FRAME :: u32 where [simp]: "NET_CMD_TX_FRAME = 5"
definition NET_CMD_RX_POLL :: u32 where [simp]: "NET_CMD_RX_POLL = 6"

definition MAKE_IP :: "u32 \<Rightarrow> u32 \<Rightarrow> u32 \<Rightarrow> u32 \<Rightarrow> u32" where
  "MAKE_IP a b c d = push_bit 24 a OR push_bit 16 b OR push_bit 8 c OR d"

definition IP_BCAST :: u32 where [simp]: "IP_BCAST = 0xFFFFFFFF"

definition ARP_CACHE_SIZE :: nat where [simp]: "ARP_CACHE_SIZE = 16"
definition ARP_TIMEOUT_MS :: u64 where [simp]: "ARP_TIMEOUT_MS = 30000"
definition UDP_MAX_BINDS :: nat where [simp]: "UDP_MAX_BINDS = 16"
definition UDP_RXBUF_SIZE :: nat where [simp]: "UDP_RXBUF_SIZE = 2048"

section \<open>The global state\<close>

record arp_entry_t =
  ae_ip :: u32
  ae_mac :: "u8 list"
  ae_ts :: u64
  ae_valid :: bool

record udp_bind_t =
  ub_port :: u16
  ub_buf :: "u8 list"
  ub_len :: int
  ub_src_ip :: u32
  ub_src_port :: u16
  ub_used :: bool

datatype dhcp_state_t =
  DHCP_IDLE | DHCP_DISCOVER | DHCP_OFFER | DHCP_REQUEST | DHCP_BOUND | DHCP_FAILED

text \<open>The order of the enumeration.\<close>

primrec state_code :: "dhcp_state_t \<Rightarrow> nat" where
  "state_code DHCP_IDLE = 0"
| "state_code DHCP_DISCOVER = 1"
| "state_code DHCP_OFFER = 2"
| "state_code DHCP_REQUEST = 3"
| "state_code DHCP_BOUND = 4"
| "state_code DHCP_FAILED = 5"

instantiation dhcp_state_t :: linorder
begin

definition less_eq_dhcp_state_t :: "dhcp_state_t \<Rightarrow> dhcp_state_t \<Rightarrow> bool" where
  "d \<le> d' \<longleftrightarrow> state_code d \<le> state_code d'"

definition less_dhcp_state_t :: "dhcp_state_t \<Rightarrow> dhcp_state_t \<Rightarrow> bool" where
  "d < d' \<longleftrightarrow> state_code d < state_code d'"

instance
proof
  fix d d' :: dhcp_state_t
  show "d = d'" if "d \<le> d'" "d' \<le> d"
    using that by (cases d; cases d') (simp_all add: less_eq_dhcp_state_t_def)
qed (auto simp: less_eq_dhcp_state_t_def less_dhcp_state_t_def)

end

lemma failed_is_last: "DHCP_FAILED \<le> d \<longleftrightarrow> d = DHCP_FAILED"
  by (cases d) (simp_all add: less_eq_dhcp_state_t_def)

record netd_state_t =
  n_fd :: int
  n_mac :: "u8 list"
  n_mtu :: u32
  n_link_up :: u32
  n_ip :: u32
  n_netmask :: u32
  n_gateway :: u32
  n_dns :: u32
  n_dhcp_state :: dhcp_state_t
  n_dhcp_xid :: u32
  n_dhcp_server :: u32
  n_dhcp_lease_ms :: u64
  n_arp_cache :: "arp_entry_t list"
  n_udp_binds :: "udp_bind_t list"
  n_ping_id :: u16
  n_ping_seq :: u16
  n_ping_reply_ip :: u32
  n_ping_replied :: bool
  n_dns_txid :: u16
  n_dns_name :: "u8 list"
  n_dns_result :: u32
  n_dns_done :: int

text \<open>Zeroed slots, as \<open>memset\<close> leaves them, and the zero-initialised global itself.\<close>

definition zero_arp_entry :: arp_entry_t where
  "zero_arp_entry = \<lparr>ae_ip = 0, ae_mac = replicate 6 0, ae_ts = 0, ae_valid = False\<rparr>"

definition zero_udp_bind :: udp_bind_t where
  "zero_udp_bind = \<lparr>ub_port = 0, ub_buf = replicate UDP_RXBUF_SIZE 0, ub_len = 0,
     ub_src_ip = 0, ub_src_port = 0, ub_used = False\<rparr>"

definition zero_net :: netd_state_t where
  "zero_net = \<lparr>n_fd = 0, n_mac = replicate 6 0, n_mtu = 0, n_link_up = 0,
     n_ip = 0, n_netmask = 0, n_gateway = 0, n_dns = 0,
     n_dhcp_state = DHCP_IDLE, n_dhcp_xid = 0, n_dhcp_server = 0, n_dhcp_lease_ms = 0,
     n_arp_cache = replicate ARP_CACHE_SIZE zero_arp_entry,
     n_udp_binds = replicate UDP_MAX_BINDS zero_udp_bind,
     n_ping_id = 0, n_ping_seq = 0, n_ping_reply_ip = 0, n_ping_replied = False,
     n_dns_txid = 0, n_dns_name = replicate 256 0, n_dns_result = 0, n_dns_done = 0\<rparr>"

section \<open>The kernel and the machine\<close>

text \<open>
  What a \<open>read\<close> system call returns: a negative value, or the bytes it stored in the buffer (their
  number is the return value; none means that nothing is ready).
\<close>

datatype read_result = ReadErr | ReadOk "u8 list"

text \<open>
  The kernel, over a kernel state \<open>'w\<close>: the clock, the NIC device behind a file descriptor, the
  scheduler, the registration of the API node; and the indeterminate contents \<open>k_junk\<close> of stack
  arrays that C leaves uninitialised.
\<close>

record 'w kernel =
  k_time :: "'w \<Rightarrow> u64 \<times> 'w"
  k_open :: "string \<Rightarrow> int \<Rightarrow> int \<Rightarrow> 'w \<Rightarrow> int \<times> 'w"
  k_close :: "int \<Rightarrow> 'w \<Rightarrow> int \<times> 'w"
  k_write :: "int \<Rightarrow> u8 list \<Rightarrow> 'w \<Rightarrow> int \<times> 'w"
  k_read :: "int \<Rightarrow> nat \<Rightarrow> 'w \<Rightarrow> read_result \<times> 'w"
  k_yield :: "'w \<Rightarrow> 'w"
  k_sleep :: "u32 \<Rightarrow> 'w \<Rightarrow> 'w"
  k_register :: "string \<Rightarrow> u32 \<Rightarrow> 'w \<Rightarrow> int \<times> 'w"
  k_junk :: "'w \<Rightarrow> nat \<Rightarrow> u8"

text \<open>The process: the statics \<open>g_net\<close> (driver.c) and \<open>g_ip_id\<close> (ip.c), and the kernel's state.\<close>

record 'w machine =
  g_net :: netd_state_t
  g_ip_id :: u16
  os :: 'w

definition set_net :: "netd_state_t \<Rightarrow> 'w machine \<Rightarrow> 'w machine" where
  "set_net n s = s\<lparr>g_net := n\<rparr>"

text \<open>The system-call wrappers of libc.h.\<close>

definition time_ms :: "'w kernel \<Rightarrow> 'w machine \<Rightarrow> u64 \<times> 'w machine" where
  "time_ms K s = (case k_time K (os s) of (t, w) \<Rightarrow> (t, s\<lparr>os := w\<rparr>))"

definition O_RDONLY :: int where [simp]: "O_RDONLY = 0"
definition O_RDWR :: int where [simp]: "O_RDWR = 2"
definition O_NONBLOCK :: int where [simp]: "O_NONBLOCK = 0x800"

definition sys_open :: "'w kernel \<Rightarrow> string \<Rightarrow> int \<Rightarrow> int \<Rightarrow> 'w machine \<Rightarrow> int \<times> 'w machine" where
  "sys_open K path flags mode s = (case k_open K path flags mode (os s) of (fd, w) \<Rightarrow> (fd, s\<lparr>os := w\<rparr>))"

definition sys_close :: "'w kernel \<Rightarrow> int \<Rightarrow> 'w machine \<Rightarrow> int \<times> 'w machine" where
  "sys_close K fd s = (case k_close K fd (os s) of (rc, w) \<Rightarrow> (rc, s\<lparr>os := w\<rparr>))"

definition sys_write :: "'w kernel \<Rightarrow> int \<Rightarrow> u8 list \<Rightarrow> 'w machine \<Rightarrow> int \<times> 'w machine" where
  "sys_write K fd bs s = (case k_write K fd bs (os s) of (n, w) \<Rightarrow> (n, s\<lparr>os := w\<rparr>))"

definition sys_read :: "'w kernel \<Rightarrow> int \<Rightarrow> nat \<Rightarrow> 'w machine \<Rightarrow> read_result \<times> 'w machine" where
  "sys_read K fd n s = (case k_read K fd n (os s) of (r, w) \<Rightarrow> (r, s\<lparr>os := w\<rparr>))"

definition yield :: "'w kernel \<Rightarrow> 'w machine \<Rightarrow> 'w machine" where
  "yield K s = s\<lparr>os := k_yield K (os s)\<rparr>"

definition sleep :: "'w kernel \<Rightarrow> u32 \<Rightarrow> 'w machine \<Rightarrow> 'w machine" where
  "sleep K sec s = s\<lparr>os := k_sleep K sec (os s)\<rparr>"

definition userfs_register :: "'w kernel \<Rightarrow> string \<Rightarrow> u32 \<Rightarrow> 'w machine \<Rightarrow> int \<times> 'w machine" where
  "userfs_register K path perms s =
     (case k_register K path perms (os s) of (rc, w) \<Rightarrow> (rc, s\<lparr>os := w\<rparr>))"

text \<open>An uninitialised array of \<open>n\<close> bytes.\<close>

definition junk :: "'w kernel \<Rightarrow> 'w machine \<Rightarrow> nat \<Rightarrow> u8 list" where
  "junk K s n = map (k_junk K (os s)) [0..<n]"

lemma length_junk [simp]: "length (junk K s n) = n"
  by (simp add: junk_def)

text \<open>System calls leave the statics alone.\<close>

definition same_statics :: "'w machine \<Rightarrow> 'w machine \<Rightarrow> bool" where
  "same_statics s t \<longleftrightarrow> g_net t = g_net s \<and> g_ip_id t = g_ip_id s"

lemma same_statics_refl [simp, intro]: "same_statics s s"
  by (simp add: same_statics_def)

lemma same_statics_trans [trans]: "same_statics s t \<Longrightarrow> same_statics t u \<Longrightarrow> same_statics s u"
  by (simp add: same_statics_def)

lemma time_ms_statics [frame_simps]: "time_ms K s = (t, s') \<Longrightarrow> same_statics s s'"
  by (auto simp: time_ms_def same_statics_def split: prod.splits)

lemma sys_close_statics [frame_simps]: "sys_close K fd s = (rc, s') \<Longrightarrow> same_statics s s'"
  by (auto simp: sys_close_def same_statics_def split: prod.splits)

lemma sys_open_statics [frame_simps]: "sys_open K path flags md s = (fd, s') \<Longrightarrow> same_statics s s'"
  by (auto simp: sys_open_def same_statics_def split: prod.splits)

lemma sys_write_statics [frame_simps]: "sys_write K fd bs s = (n, s') \<Longrightarrow> same_statics s s'"
  by (auto simp: sys_write_def same_statics_def split: prod.splits)

lemma sys_read_statics [frame_simps]: "sys_read K fd n s = (r, s') \<Longrightarrow> same_statics s s'"
  by (auto simp: sys_read_def same_statics_def split: prod.splits)

lemma yield_statics [simp]: "same_statics s (yield K s)"
  by (simp add: yield_def same_statics_def)

lemma sleep_statics [simp]: "same_statics s (sleep K n s)"
  by (simp add: sleep_def same_statics_def)

end
