(* ===== verification/Driver.thy ===== *)
theory Driver
  imports Netd_State
begin

text \<open>
  \<open>src/driver.c\<close>: the request/reply protocol on the NIC's device file. A request is a command word, a
  length word and a payload; a reply is read in chunks until a chunk ends with a zero byte.

  The busy wait of \<open>driver_transact\<close> (a read of nothing is retried after a yield) may never end, so
  the loop is a \<open>partial_function\<close>; \<open>live\<close> is the condition on the kernel under which it ends.
\<close>

section \<open>Model\<close>

definition driver_open :: "'w kernel \<Rightarrow> string \<Rightarrow> 'w machine \<Rightarrow> int \<times> 'w machine" where
  "driver_open K path s =
     (let (fd, s) = sys_open K path O_RDWR 0 s
      in (fd, set_net (g_net s\<lparr>n_fd := fd\<rparr>) s))"

text \<open>
  The request packet, in a stack array of 8 + 1500 bytes: its first 8 bytes are cleared, then the
  command, the length and the payload (\<open>None\<close> for a null pointer) are stored.
\<close>

definition transact_pkt ::
  "'w kernel \<Rightarrow> u32 \<Rightarrow> u8 list option \<Rightarrow> u32 \<Rightarrow> 'w machine \<Rightarrow> u8 list option" where
  "transact_pkt K cmd payload plen s = do {
     pkt \<leftarrow> wr 0 (replicate 8 0) (junk K s (8 + 1500));
     pkt \<leftarrow> st32 0 cmd pkt;
     pkt \<leftarrow> st32 4 plen pkt;
     (case payload of
        Some p \<Rightarrow> if plen \<noteq> 0 then do { bs \<leftarrow> rd p 0 (unat plen); wr 8 bs pkt } else Some pkt
      | None \<Rightarrow> Some pkt)
   }"

text \<open>
  The reply loop over the array \<open>rep\<close> of 1520 bytes with \<open>got\<close> of them received: \<open>Inl\<close> is an early
  return with an error code, \<open>Inr\<close> the state after the loop.
\<close>

partial_function (option) transact_read ::
  "'w kernel \<Rightarrow> u8 list \<Rightarrow> nat \<Rightarrow> 'w machine \<Rightarrow> ((int + u8 list \<times> nat) \<times> 'w machine) option" where
  "transact_read K rep got s =
     (if got < 1520 - 1 then
        (case sys_read K (n_fd (g_net s)) (1520 - 1 - got) s of (r, s) \<Rightarrow>
           (case r of
              ReadErr \<Rightarrow> Some (Inl (-2), s)
            | ReadOk bs \<Rightarrow>
                if bs = [] then transact_read K rep got (yield K s)
                else do {
                  rep \<leftarrow> wr got bs rep;
                  last \<leftarrow> ld8 rep (got + length bs - 1);
                  if last = 0 then Some (Inr (rep, got + length bs), s)
                  else transact_read K rep (got + length bs) s
                }))
      else Some (Inr (rep, got), s))"

text \<open>
  \<open>driver_transact\<close> returns the status and the bytes it copies to \<open>rep_data\<close> (their number is the
  new \<open>*rep_len\<close>). \<open>rep_len\<close> is \<open>None\<close> where the caller passes null pointers.
\<close>

definition driver_transact ::
  "'w kernel \<Rightarrow> u32 \<Rightarrow> u8 list option \<Rightarrow> u32 \<Rightarrow> u32 option \<Rightarrow> 'w machine
     \<Rightarrow> ((int \<times> u8 list) \<times> 'w machine) option" where
  "driver_transact K cmd payload plen rep_len s = do {
     pkt \<leftarrow> transact_pkt K cmd payload plen s;
     out \<leftarrow> rd pkt 0 (unat (8 + plen));
     let (n, s) = sys_write K (n_fd (g_net s)) out s;
     if n < 0 then Some ((-1, []), s)
     else do {
       (r, s) \<leftarrow> transact_read K (replicate 1520 0) 0 s;
       (case r of
          Inl e \<Rightarrow> Some ((e, []), s)
        | Inr (rep, got) \<Rightarrow>
            if got < 12 then Some ((-3, []), s)
            else do {
              status \<leftarrow> ld32 rep 4;
              len \<leftarrow> ld32 rep 8;
              (case rep_len of
                 Some rl \<Rightarrow> do {
                   copied \<leftarrow> rd rep 12 (unat (if len < rl then len else rl));
                   Some ((sint status, copied), s)
                 }
               | None \<Rightarrow> Some ((sint status, []), s))
            })
     }
   }"

definition driver_tx ::
  "'w kernel \<Rightarrow> u8 list \<Rightarrow> u32 \<Rightarrow> 'w machine \<Rightarrow> (int \<times> 'w machine) option" where
  "driver_tx K frame len s = do {
     ((status, _), s) \<leftarrow> driver_transact K NET_CMD_TX_FRAME (Some frame) len None s;
     Some (status, s)
   }"

text \<open>The receive poll: here a read of nothing means that no frame is ready.\<close>

datatype rx_reply = RxErr | RxNothing | RxReply "u8 list" nat

function rx_read ::
  "'w kernel \<Rightarrow> u8 list \<Rightarrow> nat \<Rightarrow> 'w machine \<Rightarrow> (rx_reply \<times> 'w machine) option" where
  "rx_read K rep got s =
     (if got < 1520 - 1 then
        (case sys_read K (n_fd (g_net s)) (1520 - 1 - got) s of (r, s) \<Rightarrow>
           (case r of
              ReadErr \<Rightarrow> Some (RxErr, s)
            | ReadOk bs \<Rightarrow>
                if bs = [] then Some (RxNothing, s)
                else do {
                  rep \<leftarrow> wr got bs rep;
                  last \<leftarrow> ld8 rep (got + length bs - 1);
                  if last = 0 then Some (RxReply rep (got + length bs), s)
                  else rx_read K rep (got + length bs) s
                }))
      else Some (RxReply rep got, s))"
  by pat_completeness auto
termination
  by (relation "measure (\<lambda>(K, rep, got, s). 1520 - got)") (auto simp: diff_less_mono2)

declare rx_read.simps [simp del]

text \<open>\<open>driver_rx\<close> returns its value, the caller's frame array and the new \<open>*len\<close>.\<close>

definition driver_rx ::
  "'w kernel \<Rightarrow> u8 list \<Rightarrow> u32 \<Rightarrow> 'w machine \<Rightarrow> ((int \<times> u8 list \<times> u32) \<times> 'w machine) option" where
  "driver_rx K frame len s = do {
     pkt \<leftarrow> st32 0 NET_CMD_RX_POLL (replicate 8 0);
     let (n, s) = sys_write K (n_fd (g_net s)) pkt s;
     if n < 0 then Some ((-1, frame, len), s)
     else do {
       (r, s) \<leftarrow> rx_read K (replicate 1520 0) 0 s;
       (case r of
          RxErr \<Rightarrow> Some ((-1, frame, len), s)
        | RxNothing \<Rightarrow> Some ((0, frame, 0), s)
        | RxReply rep got \<Rightarrow>
            if got < 12 then Some ((-1, frame, len), s)
            else do {
              flen \<leftarrow> ld32 rep 8;
              if flen = 0 then Some ((0, frame, 0), s)
              else do {
                let copy = (if flen < len then flen else len);
                bs \<leftarrow> rd rep 12 (unat copy);
                frame \<leftarrow> wr 0 bs frame;
                Some ((sint copy, frame, copy), s)
              }
            })
     }
   }"

section \<open>The request packet\<close>

lemma transact_pkt_eq:
  "transact_pkt K cmd payload plen s =
     (let hdr = le32 cmd @ le32 plen @ drop 8 (junk K s 1508)
      in case payload of
           Some p \<Rightarrow> if plen \<noteq> 0 then do { bs \<leftarrow> rd p 0 (unat plen); wr 8 bs hdr } else Some hdr
         | None \<Rightarrow> Some hdr)"
proof -
  have "wr 0 (replicate 8 0) (junk K s 1508) = Some (replicate 8 0 @ drop 8 (junk K s 1508))"
    by (simp add: mem_simps)
  moreover have "st32 0 cmd (replicate 8 0 @ drop 8 (junk K s 1508)) =
      Some (le32 cmd @ replicate 4 0 @ drop 8 (junk K s 1508))"
    by (simp add: st32_def wr_def)
  moreover have "st32 4 plen (le32 cmd @ replicate 4 0 @ drop 8 (junk K s 1508)) =
      Some (le32 cmd @ le32 plen @ drop 8 (junk K s 1508))"
    by (simp add: st32_def wr_def)
  ultimately show ?thesis by (auto simp: transact_pkt_def Let_def split: option.split)
qed

lemma transact_pkt_Some:
  assumes "plen \<noteq> 0" "unat plen \<le> length p" "unat plen \<le> 1500"
  shows "transact_pkt K cmd (Some p) plen s =
    Some (le32 cmd @ le32 plen @ take (unat plen) p @ drop (8 + unat plen) (junk K s 1508))"
  using assms by (simp add: transact_pkt_eq rd_Some wr_def add.commute)

lemma transact_pkt_overflow:
  assumes "1500 < unat plen"
  shows "transact_pkt K cmd (Some p) plen s = None"
proof -
  have "plen \<noteq> 0" using assms by auto
  with assms show ?thesis
    by (auto simp: transact_pkt_eq rd_def wr_def)
qed

text \<open>What goes to the device is the command, the length and the payload, whatever the stack held.\<close>

lemma request_bytes:
  assumes "plen \<noteq> 0" "unat plen \<le> length p" "unat plen \<le> 1500"
  shows "do { pkt \<leftarrow> transact_pkt K cmd (Some p) plen s; rd pkt 0 (unat (8 + plen)) } =
    Some (le32 cmd @ le32 plen @ take (unat plen) p)"
proof -
  have "unat (8 + plen) = 8 + unat plen"
    using assms(3) by (simp add: unat_word_ariths)
  with assms show ?thesis by (simp add: transact_pkt_Some rd_def)
qed

section \<open>The reply loops\<close>

text \<open>
  \<open>live K \<mu>\<close>: a read never stores more than it was asked for, and only finitely many reads in a row
  come back empty, with \<open>\<mu>\<close> bounding how many.
\<close>

definition live :: "'w kernel \<Rightarrow> ('w \<Rightarrow> nat) \<Rightarrow> bool" where
  "live K \<mu> \<longleftrightarrow> (\<forall>fd n w bs w'. k_read K fd n w = (ReadOk bs, w') \<longrightarrow>
     length bs \<le> n \<and> (bs = [] \<longrightarrow> \<mu> (k_yield K w') < \<mu> w))"

lemma liveD:
  "live K \<mu> \<Longrightarrow> sys_read K fd n s = (ReadOk bs, s') \<Longrightarrow>
   length bs \<le> n \<and> (bs = [] \<longrightarrow> \<mu> (os (yield K s')) < \<mu> (os s))"
  by (auto simp: live_def sys_read_def yield_def split: prod.splits)

definition read_post :: "u8 list \<Rightarrow> 'w machine \<Rightarrow> (int + u8 list \<times> nat) \<times> 'w machine \<Rightarrow> bool" where
  "read_post rep s y \<longleftrightarrow> same_statics s (snd y) \<and>
     (\<forall>rep' got'. fst y = Inr (rep', got') \<longrightarrow> length rep' = length rep)"

lemma read_postI [intro]:
  "same_statics s s' \<Longrightarrow> read_post rep s (Inl e, s')"
  "same_statics s s' \<Longrightarrow> length rep' = length rep \<Longrightarrow> read_post rep s (Inr (rep', got), s')"
  by (simp_all add: read_post_def)

lemma read_post_step:
  "read_post rep' s1 y \<Longrightarrow> same_statics s s1 \<Longrightarrow> length rep' = length rep \<Longrightarrow> read_post rep s y"
  by (auto simp: read_post_def intro: same_statics_trans)

lemma transact_read_post:
  assumes ret: "transact_read K rep got s = Some y"
  shows "read_post rep s y"
proof (rule transact_read.raw_induct [where P = "\<lambda>K rep got s. read_post rep s", OF _ ret])
  fix f :: "'b kernel \<Rightarrow> u8 list \<Rightarrow> nat \<Rightarrow> 'b machine
      \<Rightarrow> ((int + u8 list \<times> nat) \<times> 'b machine) option"
    and K rep got s y
  assume IH: "\<And>K rep got s y. f K rep got s = Some y \<Longrightarrow> read_post rep s y"
    and eq: "(if got < 1520 - 1 then
        (case sys_read K (n_fd (g_net s)) (1520 - 1 - got) s of (r, s) \<Rightarrow>
           (case r of
              ReadErr \<Rightarrow> Some (Inl (-2), s)
            | ReadOk bs \<Rightarrow>
                if bs = [] then f K rep got (yield K s)
                else do {
                  rep \<leftarrow> wr got bs rep;
                  last \<leftarrow> ld8 rep (got + length bs - 1);
                  if last = 0 then Some (Inr (rep, got + length bs), s)
                  else f K rep (got + length bs) s
                }))
      else Some (Inr (rep, got), s)) = Some y"
  obtain r s1 where rd: "sys_read K (n_fd (g_net s)) (1520 - 1 - got) s = (r, s1)"
    by fastforce
  have s1: "same_statics s s1" "same_statics s (yield K s1)"
    using rd by (auto intro: sys_read_statics same_statics_trans)
  show "read_post rep s y"
  proof (cases "got < 1520 - 1")
    case False
    with eq show ?thesis by auto
  next
    case True
    show ?thesis
    proof (cases r)
      case ReadErr
      with eq rd s1 True show ?thesis by auto
    next
      case (ReadOk bs)
      with eq rd s1 True show ?thesis
        by (cases "bs = []")
          (auto simp: Option.bind_eq_Some_conv wr_length split: if_splits
            dest!: IH elim!: read_post_step)
    qed
  qed
qed

lemma transact_read_returns:
  assumes live: "live K \<mu>"
  shows "length rep = 1520 \<Longrightarrow> \<exists>y. transact_read K rep got s = Some y"
proof (induction "1520 - got" arbitrary: rep got s rule: less_induct)
  case outer: less
  from outer.prems show ?case
  proof (induction "\<mu> (os s)" arbitrary: s rule: less_induct)
    case inner: less
    obtain r s1 where rd: "sys_read K (n_fd (g_net s)) (1520 - 1 - got) s = (r, s1)"
      by fastforce
    show ?case
    proof (cases "got < 1520 - 1 \<and> r \<noteq> ReadErr")
      case False
      with rd show ?thesis by (auto simp: transact_read.simps [of K rep got s])
    next
      case True
      then obtain bs where r: "r = ReadOk bs" and got: "got < 1519" by (cases r) auto
      with liveD [OF live] rd have bs: "length bs \<le> 1519 - got"
        "bs = [] \<longrightarrow> \<mu> (os (yield K s1)) < \<mu> (os s)" by auto
      show ?thesis
      proof (cases "bs = []")
        case True
        with inner.hyps [of "yield K s1"] bs inner.prems
        obtain y where "transact_read K rep got (yield K s1) = Some y" by auto
        with True r rd got show ?thesis by (simp add: transact_read.simps [of K rep got s])
      next
        case False
        then have pos: "0 < length bs" by simp
        obtain rep' where rep': "wr got bs rep = Some rep'" "length rep' = 1520"
          using bs got inner.prems by (auto intro: wr_in_bounds [of got bs rep])
        have "1520 - (got + length bs) < 1520 - got" using pos got by linarith
        then have "\<exists>y. transact_read K rep' (got + length bs) s1 = Some y"
          using rep'(2) by (rule outer.hyps)
        with False r rd got rep' bs pos show ?thesis
          by (auto simp: transact_read.simps [of K rep got s] ld8_def)
      qed
    qed
  qed
qed

lemma rx_read_post:
  "rx_read K rep got s = Some (y, s') \<Longrightarrow>
   same_statics s s' \<and> (\<forall>rep' got'. y = RxReply rep' got' \<longrightarrow> length rep' = length rep)"
proof (induction K rep got s arbitrary: y s' rule: rx_read.induct)
  case (1 K rep got s)
  obtain r s1 where rd: "sys_read K (n_fd (g_net s)) (1520 - 1 - got) s = (r, s1)"
    by fastforce
  then have s1: "same_statics s s1" by (rule sys_read_statics)
  show ?case
  proof (cases "got < 1520 - 1 \<and> r \<noteq> ReadErr \<and> r \<noteq> ReadOk []")
    case False
    with "1.prems" rd s1 show ?thesis
      by (cases r) (auto simp: rx_read.simps [of K rep got s] split: if_splits)
  next
    case True
    then obtain bs where r: "r = ReadOk bs" "bs \<noteq> []" by (cases r) auto
    with "1.prems" True rd obtain rep' lst where rep': "wr got bs rep = Some rep'"
      and lst: "ld8 rep' (got + length bs - 1) = Some lst"
      and y: "(if lst = 0 then Some (RxReply rep' (got + length bs), s1)
               else rx_read K rep' (got + length bs) s1) = Some (y, s')"
      by (auto simp: rx_read.simps [of K rep got s] Option.bind_eq_Some_conv)
    show ?thesis
    proof (cases "lst = 0")
      case True
      with y s1 rep' show ?thesis by (auto dest: wr_length)
    next
      case False
      with y have "rx_read K rep' (got + length bs) s1 = Some (y, s')" by simp
      with "1.IH" [OF _ rd [symmetric] r rep' lst False] True
      have "same_statics s1 s' \<and> (\<forall>rep'' got'. y = RxReply rep'' got' \<longrightarrow> length rep'' = length rep')"
        by simp
      with s1 rep' show ?thesis by (auto intro: same_statics_trans dest: wr_length)
    qed
  qed
qed

lemma rx_read_returns:
  assumes live: "live K \<mu>"
  shows "length rep = 1520 \<Longrightarrow> \<exists>y. rx_read K rep got s = Some y"
proof (induction "1520 - got" arbitrary: rep got s rule: less_induct)
  case less
  obtain r s1 where rd: "sys_read K (n_fd (g_net s)) (1520 - 1 - got) s = (r, s1)"
    by fastforce
  show ?case
  proof (cases "got < 1520 - 1 \<and> r \<noteq> ReadErr \<and> r \<noteq> ReadOk []")
    case False
    with rd show ?thesis
      by (cases r) (auto simp: rx_read.simps [of K rep got s])
  next
    case True
    then obtain bs where r: "r = ReadOk bs" "bs \<noteq> []" by (cases r) auto
    with liveD [OF live] rd have bs: "length bs \<le> 1519 - got" by auto
    then obtain rep' where rep': "wr got bs rep = Some rep'" "length rep' = 1520"
      using True less.prems by (auto intro: wr_in_bounds [of got bs rep])
    have "0 < length bs" using r by simp
    then have "1520 - (got + length bs) < 1520 - got" using True by linarith
    then have "\<exists>y. rx_read K rep' (got + length bs) s1 = Some y"
      using rep'(2) by (rule less.hyps)
    with True r rd rep' bs \<open>0 < length bs\<close> show ?thesis
      by (auto simp: rx_read.simps [of K rep got s] ld8_def)
  qed
qed

section \<open>Sending a frame\<close>

text \<open>
  \<open>send_frame\<close> is what \<open>driver_tx\<close> amounts to for a frame that fits the packet array: the bytes of
  the frame behind their header, in one write. Everything the stack held stays out of it.
\<close>

definition tx_request :: "u8 list \<Rightarrow> u8 list" where
  "tx_request f = le32 NET_CMD_TX_FRAME @ le32 (of_nat (length f)) @ f"

definition send_frame :: "'w kernel \<Rightarrow> u8 list \<Rightarrow> 'w machine \<Rightarrow> (int \<times> 'w machine) option" where
  "send_frame K f s =
     (let (n, s) = sys_write K (n_fd (g_net s)) (tx_request f) s in
      if n < 0 then Some (-1, s)
      else do {
        (r, s) \<leftarrow> transact_read K (replicate 1520 0) 0 s;
        (case r of
           Inl e \<Rightarrow> Some (e, s)
         | Inr (rep, got) \<Rightarrow>
             Some (if got < 12 then -3 else sint (of_le32 (take 4 (drop 4 rep))), s))
      })"

lemma driver_tx_eq:
  assumes "unat len \<le> length frame" "unat len \<le> 1500"
  shows "driver_tx K frame len s = send_frame K (take (unat len) frame) s"
proof -
  have len8: "unat (8 + len) = 8 + unat len"
    using assms(2) by (simp add: unat_word_ariths)
  have pkt: "transact_pkt K 5 (Some frame) len s \<bind> (\<lambda>pkt. rd pkt 0 (unat (8 + len)) \<bind> f) =
      f (tx_request (take (unat len) frame))" for f :: "u8 list \<Rightarrow> ((int \<times> u8 list) \<times> 'a machine) option"
  proof (cases "len = 0")
    case True
    then show ?thesis
      by (simp add: transact_pkt_eq rd_def tx_request_def)
  next
    case False
    with assms len8 show ?thesis
      by (simp add: transact_pkt_Some rd_def tx_request_def)
  qed
  show ?thesis
    unfolding driver_tx_def driver_transact_def send_frame_def NET_CMD_TX_FRAME_def pkt
    by (auto simp: ld32_def rd_def split: prod.splits sum.splits option.splits
        dest!: transact_read_post simp: read_post_def
        intro!: Option.bind_cong [OF refl])
qed

lemma send_frame_statics [frame_simps]:
  assumes "send_frame K f s = Some (st, s')"
  shows "same_statics s s'"
proof -
  obtain n s1 where w: "sys_write K (n_fd (g_net s)) (tx_request f) s = (n, s1)" by fastforce
  then have s1: "same_statics s s1" by (rule sys_write_statics)
  show ?thesis
  proof (cases "n < 0")
    case True
    with assms w s1 show ?thesis by (simp add: send_frame_def)
  next
    case False
    with assms w obtain r s2 where "transact_read K (replicate 1520 0) 0 s1 = Some (r, s2)"
      and "s' = s2"
      by (auto simp: send_frame_def elim!: run_elims split: prod.splits sum.splits)
    then show ?thesis
      using s1 by (auto dest!: transact_read_post simp: read_post_def intro: same_statics_trans)
  qed
qed

lemma send_frame_returns:
  assumes "live K \<mu>"
  obtains st s' where "send_frame K f s = Some (st, s')" "same_statics s s'"
proof -
  obtain n s1 where w: "sys_write K (n_fd (g_net s)) (tx_request f) s = (n, s1)" by fastforce
  obtain r s2 where r: "transact_read K (replicate 1520 0) 0 s1 = Some (r, s2)"
    using transact_read_returns [OF assms, of "replicate 1520 0" 0 s1] by auto
  have "\<exists>st s'. send_frame K f s = Some (st, s')"
    using w r by (auto simp: send_frame_def split: sum.splits)
  then show ?thesis using that send_frame_statics by blast
qed

lemma driver_transact_statics [frame_simps]:
  assumes "driver_transact K cmd payload plen rl s = Some ((st, bs), s')"
  shows "same_statics s s'"
proof -
  from assms obtain pkt out where out: "transact_pkt K cmd payload plen s = Some pkt"
    "rd pkt 0 (unat (8 + plen)) = Some out"
    unfolding driver_transact_def by (elim run_bindE)
  obtain n s1 where w: "sys_write K (n_fd (g_net s)) out s = (n, s1)" by fastforce
  then have s1: "same_statics s s1" by (rule sys_write_statics)
  show ?thesis
  proof (cases "n < 0")
    case True
    with assms out w s1 show ?thesis by (simp add: driver_transact_def)
  next
    case False
    with assms out w obtain r s2 where r: "transact_read K (replicate 1520 0) 0 s1 = Some (r, s2)"
      and "s' = s2"
      by (auto simp: driver_transact_def elim!: run_elims split: sum.splits if_splits option.splits)
    with s1 show ?thesis
      by (auto dest!: transact_read_post simp: read_post_def intro: same_statics_trans)
  qed
qed

lemma driver_tx_statics [frame_simps]:
  "driver_tx K frame len s = Some (st, s') \<Longrightarrow> same_statics s s'"
  by (auto simp: driver_tx_def elim!: run_elims dest: driver_transact_statics)

text \<open>Every frame of at most 1500 bytes is sent, and the call returns once the device answers.\<close>

lemma driver_tx_returns:
  assumes "live K \<mu>" "unat len \<le> length frame" "unat len \<le> 1500"
  shows "\<exists>st s'. driver_tx K frame len s = Some (st, s') \<and> same_statics s s'"
  using send_frame_returns [OF assms(1)] driver_tx_eq [OF assms(2,3)] by metis

text \<open>
  A longer frame overruns the packet array, which has room for 1500 bytes of payload: an Ethernet
  frame with a full 1500-byte IP packet has 1514.
\<close>

lemma driver_tx_overflow:
  assumes "1500 < unat len"
  shows "driver_tx K frame len s = None"
proof -
  have "transact_pkt K NET_CMD_TX_FRAME (Some frame) len s = None"
    using assms by (rule transact_pkt_overflow)
  then show ?thesis unfolding driver_tx_def driver_transact_def by simp
qed

section \<open>Receiving a frame\<close>

text \<open>
  \<open>delivers K fd got cs w w'\<close>: reading on \<open>fd\<close> with \<open>got\<close> bytes in the buffer returns the chunks \<open>cs\<close>
  one after the other, of which only the last ends with a zero byte.
\<close>

fun delivers :: "'w kernel \<Rightarrow> int \<Rightarrow> nat \<Rightarrow> u8 list list \<Rightarrow> 'w \<Rightarrow> 'w \<Rightarrow> bool" where
  "delivers K fd got [] w w' \<longleftrightarrow> False"
| "delivers K fd got [c] w w' \<longleftrightarrow>
     k_read K fd (1519 - got) w = (ReadOk c, w') \<and> c \<noteq> [] \<and> last c = 0 \<and> got + length c \<le> 1519"
| "delivers K fd got (c # d # cs) w w' \<longleftrightarrow>
     (case k_read K fd (1519 - got) w of
        (ReadOk b, w1) \<Rightarrow> b = c \<and> c \<noteq> [] \<and> last c \<noteq> 0 \<and> got + length c < 1519 \<and>
          delivers K fd (got + length c) (d # cs) w1 w'
      | _ \<Rightarrow> False)"

lemma delivers_length: "delivers K fd got cs w w' \<Longrightarrow> got + length (concat cs) \<le> 1519"
  by (induction K fd got cs w w' rule: delivers.induct)
    (auto split: prod.splits read_result.splits)

lemma ld8_last_chunk:
  assumes "c \<noteq> []" "got \<le> length rep"
  shows "ld8 (take got rep @ c @ rest) (got + length c - Suc 0) = Some (last c)"
proof -
  have "0 < length c" using assms by simp
  then have "got + length c - Suc 0 = got + (length c - Suc 0)" by linarith
  with assms \<open>0 < length c\<close> show ?thesis
    by (simp add: ld8_def nth_append last_conv_nth trans_less_add1)
qed

lemma rx_read_delivers:
  "delivers K (n_fd (g_net s)) got cs (os s) w' \<Longrightarrow> length rep = 1520 \<Longrightarrow>
   rx_read K rep got s =
     Some (RxReply (take got rep @ concat cs @ drop (got + length (concat cs)) rep)
             (got + length (concat cs)), s\<lparr>os := w'\<rparr>)"
proof (induction K "n_fd (g_net s)" got cs "os s" w' arbitrary: s rep rule: delivers.induct)
  case (1 K got w')
  then show ?case by simp
next
  case (2 K got c w')
  then have "got < 1519" by (cases c) auto
  with 2 show ?case
    by (simp add: rx_read.simps [of K rep got s] sys_read_def wr_def ld8_last_chunk)
next
  case (3 K got c d cs w')
  then obtain w1 where rd: "k_read K (n_fd (g_net s)) (1519 - got) (os s) = (ReadOk c, w1)"
    and c: "c \<noteq> []" "last c \<noteq> 0" "got + length c < 1519"
    and rest: "delivers K (n_fd (g_net s)) (got + length c) (d # cs) w1 w'"
    by (auto split: prod.splits read_result.splits)
  let ?s1 = "s\<lparr>os := w1\<rparr>" and ?rep1 = "take got rep @ c @ drop (got + length c) rep"
  have "rx_read K ?rep1 (got + length c) ?s1 =
     Some (RxReply (take (got + length c) ?rep1 @ concat (d # cs) @
        drop (got + length c + length (concat (d # cs))) ?rep1)
        (got + length c + length (concat (d # cs))), ?s1\<lparr>os := w'\<rparr>)"
    using rest 3 c by (intro "3.hyps"(1)) (auto simp: rd)
  moreover have "take (got + length c) ?rep1 = take got rep @ c"
    using 3 c by simp
  moreover have "drop (got + length c + length (concat (d # cs))) ?rep1 =
      drop (got + length c + length (concat (d # cs))) rep"
    using 3 c by (simp add: ac_simps)
  moreover have "rx_read K rep got s = rx_read K ?rep1 (got + length c) ?s1"
    using rd c 3(3) by (simp add: rx_read.simps [of K rep got s] sys_read_def wr_def ld8_last_chunk)
  ultimately show ?case by (simp add: add.assoc)
qed

text \<open>The reply whose bytes are \<open>r\<close>: its length field, and the frame that follows the header.\<close>

definition reply_len :: "u8 list \<Rightarrow> nat" where
  "reply_len r = unat (of_le32 (take 4 (drop 8 r)))"

text \<open>
  A delivered reply is unpacked into the caller's array: the frame's bytes are those after the
  12-byte header, up to the length the device states and the room the caller has.
\<close>

lemma driver_rx_delivers:
  assumes wr: "k_write K (n_fd (g_net s)) (le32 NET_CMD_RX_POLL @ replicate 4 0) (os s) = (n, w1)"
    and n: "0 \<le> n"
    and del: "delivers K (n_fd (g_net s)) 0 cs w1 w2"
    and r: "r = concat cs" "12 \<le> length r"
    and L: "0 < reply_len r" "reply_len r \<le> 1508"
    and len: "unat len = length frame" "length frame < 2 ^ 31"
  shows "driver_rx K frame len s =
    (let k = min (reply_len r) (length frame)
     in Some ((int k, take k (drop 12 (r @ replicate 1520 0)) @ drop k frame, of_nat k),
              s\<lparr>os := w2\<rparr>))"
proof -
  let ?rep = "r @ replicate (1520 - length r) 0"
  have lr: "length r \<le> 1519"
    using delivers_length [OF del] r by simp
  have poll: "st32 0 NET_CMD_RX_POLL (replicate 8 0) = Some (le32 NET_CMD_RX_POLL @ replicate 4 0)"
    by (simp add: st32_def wr_def)
  have rx: "rx_read K (replicate 1520 0) 0 (s\<lparr>os := w1\<rparr>) = Some (RxReply ?rep (length r), s\<lparr>os := w2\<rparr>)"
    using rx_read_delivers [of K "s\<lparr>os := w1\<rparr>" 0 cs w2 "replicate 1520 0"] del r lr
    by (simp add: drop_replicate)
  define flen where "flen = of_le32 (take 4 (drop 8 r))"
  have flen: "ld32 ?rep 8 = Some flen" "unat flen = reply_len r" "flen \<noteq> 0"
    using r L lr by (auto simp: ld32_def rd_def flen_def reply_len_def)
  define copy where "copy = (if flen < len then flen else len)"
  have copy: "unat copy = min (reply_len r) (length frame)"
    using flen len by (auto simp: copy_def word_less_nat_alt)
  have rd: "rd ?rep 12 (unat copy) = Some (take (unat copy) (drop 12 (r @ replicate 1520 0)))"
    using lr copy L by (intro rd_padded) auto
  have sint: "sint copy = int (unat copy)"
    using copy len(2) by (intro sint_small) auto
  have wr0: "wr 0 (take (unat copy) (drop 12 (r @ replicate 1520 0))) frame =
     Some (take (unat copy) (drop 12 (r @ replicate 1520 0)) @ drop (unat copy) frame)"
    using rd_length [OF rd] copy by (simp add: wr_def del: length_take)
  show ?thesis
    using wr n poll rx flen(1,3) r(2) rd wr0 sint
    by (simp add: driver_rx_def sys_write_def Let_def copy_def [symmetric] flip: copy)
qed

text \<open>
  The reply array holds at most 1508 bytes after the header, but callers offer room for 1518: a
  device that announces a longer frame makes \<open>driver_rx\<close> copy from beyond its array.
\<close>

lemma driver_rx_overread:
  assumes wr: "k_write K (n_fd (g_net s)) (le32 NET_CMD_RX_POLL @ replicate 4 0) (os s) = (n, w1)"
    and n: "0 \<le> n"
    and del: "delivers K (n_fd (g_net s)) 0 cs w1 w2"
    and r: "r = concat cs" "12 \<le> length r"
    and L: "1508 < reply_len r" and len: "1508 < unat len"
  shows "driver_rx K frame len s = None"
proof -
  let ?rep = "r @ replicate (1520 - length r) 0"
  have lr: "length r \<le> 1519"
    using delivers_length [OF del] r by simp
  have poll: "st32 0 NET_CMD_RX_POLL (replicate 8 0) = Some (le32 NET_CMD_RX_POLL @ replicate 4 0)"
    by (simp add: st32_def wr_def)
  have rx: "rx_read K (replicate 1520 0) 0 (s\<lparr>os := w1\<rparr>) = Some (RxReply ?rep (length r), s\<lparr>os := w2\<rparr>)"
    using rx_read_delivers [of K "s\<lparr>os := w1\<rparr>" 0 cs w2 "replicate 1520 0"] del r lr
    by (simp add: drop_replicate)
  define flen where "flen = of_le32 (take 4 (drop 8 r))"
  have flen: "ld32 ?rep 8 = Some flen" "1508 < unat flen"
    using r L lr by (auto simp: ld32_def rd_def flen_def reply_len_def)
  then have "flen \<noteq> 0" by auto
  have "rd ?rep 12 (unat (if flen < len then flen else len)) = None"
    using lr len flen(2) by (simp add: rd_def)
  then show ?thesis
    using wr n poll rx flen(1) \<open>flen \<noteq> 0\<close> r(2)
    by (simp add: driver_rx_def sys_write_def Let_def)
qed

text \<open>
  A reply whose last chunk does not end with a zero byte is thrown away when nothing more is ready,
  however complete it is.
\<close>

lemma driver_rx_unterminated:
  assumes "k_write K (n_fd (g_net s)) (le32 NET_CMD_RX_POLL @ replicate 4 0) (os s) = (n, w1)"
    and "0 \<le> n"
    and "k_read K (n_fd (g_net s)) 1519 w1 = (ReadOk c, w2)" "c \<noteq> []" "length c < 1519" "last c \<noteq> 0"
    and "k_read K (n_fd (g_net s)) (1519 - length c) w2 = (ReadOk [], w3)"
  shows "driver_rx K frame len s = Some ((0, frame, 0), s\<lparr>os := w3\<rparr>)"
proof -
  have poll: "st32 0 NET_CMD_RX_POLL (replicate 8 0) = Some (le32 NET_CMD_RX_POLL @ replicate 4 0)"
    by (simp add: st32_def wr_def)
  have last: "ld8 (c @ drop (length c) (replicate 1520 0)) (length c - Suc 0) = Some (last c)"
    using ld8_last_chunk [of c 0 "[]"] assms(4) by simp
  have "rx_read K (replicate 1520 0) 0 (s\<lparr>os := w1\<rparr>) = Some (RxNothing, s\<lparr>os := w3\<rparr>)"
    using assms(3-7) last
    by (simp add: rx_read.simps [of K "replicate 1520 0"] sys_read_def wr_def)
      (simp add: rx_read.simps sys_read_def)
  with assms(1,2) poll show ?thesis
    by (simp add: driver_rx_def sys_write_def Let_def)
qed

text \<open>Whatever the device does, a call that returns stays within the caller's array and length.\<close>

lemma driver_rx_post:
  assumes run: "driver_rx K frame len s = Some ((n, frame', len'), s')"
    and len: "unat len < 2 ^ 31"
  shows "same_statics s s' \<and> length frame' = length frame \<and> n \<le> int (unat len) \<and>
    (0 < n \<longrightarrow> n = int (unat len'))"
proof -
  obtain m s1 pkt where pkt: "st32 0 NET_CMD_RX_POLL (replicate 8 0) = Some pkt"
    and w: "sys_write K (n_fd (g_net s)) pkt s = (m, s1)"
    by (fastforce simp: st32_def wr_def)
  have s1: "same_statics s s1" using w by (rule sys_write_statics)
  show ?thesis
  proof (cases "m < 0")
    case True
    with run pkt w s1 show ?thesis by (auto simp: driver_rx_def)
  next
    case False
    with run pkt w obtain r s2 where rx: "rx_read K (replicate 1520 0) 0 s1 = Some (r, s2)"
      and s': "s' = s2"
      by (auto simp: driver_rx_def elim!: run_elims split: rx_reply.splits if_splits)
    with s1 have s2: "same_statics s s'" by (auto dest!: rx_read_post intro: same_statics_trans)
    have small: "sint flen = uint flen \<and> uint flen \<le> uint len" if "flen < len \<or> flen = len" for flen
    proof -
      from that have "uint flen \<le> uint len" by (auto simp: word_less_def)
      moreover from that len have "unat flen < 2 ^ 31" by (auto simp: word_less_nat_alt)
      then have "sint flen = uint flen" using sint_small [of flen] by simp
      ultimately show ?thesis by simp
    qed
    from run pkt w False rx s' len show ?thesis
      using s2 by (auto simp: driver_rx_def small Let_def elim!: run_elims
          split: rx_reply.splits if_splits dest!: wr_length)
  qed
qed

end
