(* ===== verification/Arp.thy ===== *)
theory Arp
  imports Driver
begin

text \<open>
  \<open>src/arp.c\<close>: the cache of 16 address mappings with time stamps, and ARP requests, replies and
  announcements. The state is \<open>n_arp_cache\<close> of the global; \<open>arp_learn\<close> and \<open>arp_lookup\<close> read the
  clock.
\<close>

section \<open>Model\<close>

definition bcast :: "u8 list" where
  "bcast = replicate 6 0xff"

definition set_arp :: "arp_entry_t list \<Rightarrow> 'w machine \<Rightarrow> 'w machine" where
  "set_arp c s = set_net (g_net s\<lparr>n_arp_cache := c\<rparr>) s"

definition arp_init :: "'w machine \<Rightarrow> 'w machine" where
  "arp_init s = set_arp (replicate ARP_CACHE_SIZE zero_arp_entry) s"

text \<open>
  The scan for a slot: the first invalid one, else the last one that lowered \<open>oldest\<close>, which starts
  at the greatest time stamp.
\<close>

fun arp_slot_loop :: "arp_entry_t list \<Rightarrow> nat \<Rightarrow> nat \<Rightarrow> u64 \<Rightarrow> nat" where
  "arp_slot_loop [] i slot oldest = slot"
| "arp_slot_loop (e # es) i slot oldest =
     (if \<not> ae_valid e then i
      else if ae_ts e < oldest then arp_slot_loop es (Suc i) i (ae_ts e)
      else arp_slot_loop es (Suc i) slot oldest)"

definition arp_slot :: "arp_entry_t list \<Rightarrow> nat" where
  "arp_slot c = arp_slot_loop c 0 0 0xFFFFFFFFFFFFFFFF"

text \<open>\<open>arp_store ip m t c\<close>: what \<open>arp_learn\<close> makes of the cache when the clock says \<open>t\<close>.\<close>

definition arp_store :: "u32 \<Rightarrow> u8 list \<Rightarrow> u64 \<Rightarrow> arp_entry_t list \<Rightarrow> arp_entry_t list" where
  "arp_store ip m t c =
     (case first_index (\<lambda>e. ae_valid e \<and> ae_ip e = ip) c of
        Some i \<Rightarrow> c[i := (c ! i)\<lparr>ae_mac := m, ae_ts := t\<rparr>]
      | None \<Rightarrow>
          let slot = arp_slot c
          in c[slot := (c ! slot)\<lparr>ae_ip := ip, ae_ts := t, ae_valid := True, ae_mac := m\<rparr>])"

definition arp_learn ::
  "'w kernel \<Rightarrow> u32 \<Rightarrow> u8 list \<Rightarrow> 'w machine \<Rightarrow> (unit \<times> 'w machine) option" where
  "arp_learn K ip mac s = do {
     m \<leftarrow> rd mac 0 6;
     let (t, s) = time_ms K s;
     Some ((), set_arp (arp_store ip m t (n_arp_cache (g_net s))) s)
   }"

text \<open>
  The lookup loop over the slot numbers: an expired entry is invalidated and the scan goes on.
  \<open>Some m\<close> is the return value 0 with \<open>m\<close> copied out, \<open>None\<close> is -1.
\<close>

fun arp_lookup_loop ::
  "'w kernel \<Rightarrow> u32 \<Rightarrow> nat list \<Rightarrow> 'w machine \<Rightarrow> u8 list option \<times> 'w machine" where
  "arp_lookup_loop K ip [] s = (None, s)"
| "arp_lookup_loop K ip (i # is) s =
     (let e = n_arp_cache (g_net s) ! i in
      if ae_valid e \<and> ae_ip e = ip then
        (let (t, s) = time_ms K s in
         if t - ae_ts e < ARP_TIMEOUT_MS then (Some (ae_mac e), s)
         else arp_lookup_loop K ip is
                (set_arp ((n_arp_cache (g_net s))[i := e\<lparr>ae_valid := False\<rparr>]) s))
      else arp_lookup_loop K ip is s)"

definition arp_lookup :: "'w kernel \<Rightarrow> u32 \<Rightarrow> 'w machine \<Rightarrow> u8 list option \<times> 'w machine" where
  "arp_lookup K ip s = arp_lookup_loop K ip [0..<ARP_CACHE_SIZE] s"

definition arp_send ::
  "'w kernel \<Rightarrow> u16 \<Rightarrow> u8 list \<Rightarrow> u32 \<Rightarrow> u32 \<Rightarrow> 'w machine \<Rightarrow> (unit \<times> 'w machine) option" where
  "arp_send K op dst_mac src_ip dst_ip s = do {
     let frame = replicate 42 0;
     dst \<leftarrow> rd dst_mac 0 6;
     mac \<leftarrow> rd (n_mac (g_net s)) 0 6;
     frame \<leftarrow> wr 0 dst frame;
     frame \<leftarrow> wr 6 mac frame;
     frame \<leftarrow> st16 12 (htons ETHERTYPE_ARP) frame;
     frame \<leftarrow> st16 14 (htons 1) frame;
     frame \<leftarrow> st16 16 (htons 0x0800) frame;
     frame \<leftarrow> st8 18 6 frame;
     frame \<leftarrow> st8 19 4 frame;
     frame \<leftarrow> st16 20 (htons op) frame;
     frame \<leftarrow> wr 22 mac frame;
     frame \<leftarrow> st32 28 (htonl src_ip) frame;
     frame \<leftarrow> wr 32 dst frame;
     frame \<leftarrow> st32 38 (htonl dst_ip) frame;
     (_, s) \<leftarrow> driver_tx K frame 42 s;
     Some ((), s)
   }"

definition arp_announce :: "'w kernel \<Rightarrow> 'w machine \<Rightarrow> (unit \<times> 'w machine) option" where
  "arp_announce K s = arp_send K ARP_OP_REQUEST bcast (n_ip (g_net s)) (n_ip (g_net s)) s"

definition arp_request :: "'w kernel \<Rightarrow> u32 \<Rightarrow> 'w machine \<Rightarrow> (unit \<times> 'w machine) option" where
  "arp_request K ip s = arp_send K ARP_OP_REQUEST bcast (n_ip (g_net s)) ip s"

definition arp_rx ::
  "'w kernel \<Rightarrow> u8 list \<Rightarrow> int \<Rightarrow> 'w machine \<Rightarrow> (unit \<times> 'w machine) option" where
  "arp_rx K frame len s =
     (if len < 42 then Some ((), s)
      else do {
        arp \<leftarrow> adv frame 14;
        op \<leftarrow> ld16 arp 6;
        src_ip \<leftarrow> ld32 arp 14;
        dst_ip \<leftarrow> ld32 arp 24;
        src_mac \<leftarrow> adv arp 8;
        let op = ntohs op;
        let src_ip = ntohl src_ip;
        let dst_ip = ntohl dst_ip;
        (_, s) \<leftarrow> (if src_ip \<noteq> 0 then arp_learn K src_ip src_mac s else Some ((), s));
        if op = ARP_OP_REQUEST \<and> dst_ip = n_ip (g_net s) \<and> n_ip (g_net s) \<noteq> 0
        then arp_send K ARP_OP_REPLY src_mac (n_ip (g_net s)) src_ip s
        else Some ((), s)
      })"

section \<open>The cache as a table\<close>

text \<open>
  The contract of a cache with bounded room: a stored mapping is found; other keys keep their value
  or lose it, but never get another one.
\<close>

locale bounded_cache =
  fixes inv :: "'s \<Rightarrow> bool"
    and view :: "'s \<Rightarrow> 'k \<Rightarrow> 'v option"
    and store :: "'k \<Rightarrow> 'v \<Rightarrow> 's \<Rightarrow> 's"
  assumes store_inv: "inv s \<Longrightarrow> inv (store k v s)"
    and store_same: "inv s \<Longrightarrow> view (store k v s) k = Some v"
    and store_other: "inv s \<Longrightarrow> k' \<noteq> k \<Longrightarrow> view (store k v s) k' = view s k' \<or> view (store k v s) k' = None"
begin

abbreviation store_all :: "('k \<times> 'v) list \<Rightarrow> 's \<Rightarrow> 's" where
  "store_all \<equiv> fold (\<lambda>(k, v). store k v)"

lemma store_all_inv: "inv s \<Longrightarrow> inv (store_all kvs s)"
  by (induction kvs arbitrary: s) (auto intro: store_inv)

text \<open>The cache never invents a mapping, and the latest value of a key is the only one it can give.\<close>

lemma store_all_sound:
  "inv s \<Longrightarrow> view (store_all kvs s) k = Some v \<Longrightarrow>
   map_of (rev kvs) k = Some v \<or> (k \<notin> fst ` set kvs \<and> view s k = Some v)"
proof (induction kvs rule: rev_induct)
  case Nil
  then show ?case by simp
next
  case (snoc kv kvs)
  obtain k' v' where kv: "kv = (k', v')" by fastforce
  have inv: "inv (store_all kvs s)" using snoc.prems(1) by (rule store_all_inv)
  have v: "view (store k' v' (store_all kvs s)) k = Some v" using snoc.prems(2) kv by simp
  show ?case
  proof (cases "k = k'")
    case True
    with v store_same [OF inv] kv show ?thesis by simp
  next
    case False
    with v store_other [OF inv, of k k' v'] have "view (store_all kvs s) k = Some v" by auto
    with snoc.IH [OF snoc.prems(1)] kv False show ?thesis by auto
  qed
qed

end


definition arp_hit :: "u32 \<Rightarrow> arp_entry_t \<Rightarrow> bool" where
  "arp_hit ip e \<longleftrightarrow> ae_valid e \<and> ae_ip e = ip"

text \<open>\<open>arp_ok\<close>: 16 slots, and no two valid ones for the same address.\<close>

definition arp_ok :: "arp_entry_t list \<Rightarrow> bool" where
  "arp_ok c \<longleftrightarrow> length c = ARP_CACHE_SIZE \<and>
     (\<forall>i<length c. \<forall>j<length c. ae_valid (c ! i) \<longrightarrow> ae_valid (c ! j) \<longrightarrow>
        ae_ip (c ! i) = ae_ip (c ! j) \<longrightarrow> i = j)"

definition arp_view :: "arp_entry_t list \<Rightarrow> u32 \<Rightarrow> (u8 list \<times> u64) option" where
  "arp_view c ip = map_option (\<lambda>i. (ae_mac (c ! i), ae_ts (c ! i))) (first_index (arp_hit ip) c)"

lemma arp_ok_length: "arp_ok c \<Longrightarrow> length c = 16"
  by (simp add: arp_ok_def)

lemma arp_hit_unique:
  assumes "arp_ok c" "i < 16" "arp_hit ip (c ! i)"
  shows "first_index (arp_hit ip) c = Some i"
  using assms by (intro first_index_unique) (auto simp: arp_ok_def arp_hit_def)

lemma arp_view_hit:
  "arp_ok c \<Longrightarrow> i < 16 \<Longrightarrow> arp_hit ip (c ! i) \<Longrightarrow> arp_view c ip = Some (ae_mac (c ! i), ae_ts (c ! i))"
  by (simp add: arp_view_def arp_hit_unique)

lemma arp_view_None: "arp_view c ip = None \<longleftrightarrow> (\<forall>e\<in>set c. \<not> arp_hit ip e)"
  by (simp add: arp_view_def first_index_None)

lemma arp_store_eq:
  "arp_store ip m t c =
     (case first_index (arp_hit ip) c of
        Some i \<Rightarrow> c[i := (c ! i)\<lparr>ae_mac := m, ae_ts := t\<rparr>]
      | None \<Rightarrow> c[arp_slot c := \<lparr>ae_ip = ip, ae_mac = m, ae_ts = t, ae_valid = True\<rparr>])"
proof -
  have hit: "(\<lambda>e. ae_valid e \<and> ae_ip e = ip) = arp_hit ip" by (auto simp: arp_hit_def)
  have all: "e\<lparr>ae_ip := ip, ae_ts := t, ae_valid := True, ae_mac := m\<rparr> =
    \<lparr>ae_ip = ip, ae_mac = m, ae_ts = t, ae_valid = True\<rparr>" for e :: arp_entry_t
    by (cases e) simp
  show ?thesis
    by (simp only: arp_store_def hit Let_def all)
qed

text \<open>The slot a new mapping takes: the first free one; in a full cache, one with the oldest stamp.\<close>

lemma arp_slot_loop_free:
  "i < length c \<Longrightarrow> \<not> ae_valid (c ! i) \<Longrightarrow> (\<And>j. j < i \<Longrightarrow> ae_valid (c ! j)) \<Longrightarrow>
   arp_slot_loop c k slot oldest = k + i"
proof (induction c arbitrary: i k slot oldest)
  case Nil
  then show ?case by simp
next
  case (Cons e c)
  show ?case
  proof (cases i)
    case 0
    with Cons.prems show ?thesis by simp
  next
    case (Suc i')
    have "ae_valid (c ! j)" if "j < i'" for j
      using Cons.prems(3) [of "Suc j"] that Suc by simp
    then have "arp_slot_loop c (Suc k) slot' oldest' = Suc k + i'" for slot' oldest'
      using Cons.prems Suc by (intro Cons.IH) auto
    with Suc Cons.prems(3) [of 0] show ?thesis by simp
  qed
qed

lemma arp_slot_free:
  "first_index (\<lambda>e. \<not> ae_valid e) c = Some i \<Longrightarrow> arp_slot c = i"
  using first_index_SomeD [of "\<lambda>e. \<not> ae_valid e" c i]
  by (simp add: arp_slot_def arp_slot_loop_free [where i = i])

lemma arp_slot_loop_full:
  assumes "\<forall>e\<in>set c. ae_valid e"
  shows "(arp_slot_loop c k slot oldest = slot \<and> (\<forall>e\<in>set c. oldest \<le> ae_ts e)) \<or>
    (\<exists>i<length c. arp_slot_loop c k slot oldest = k + i \<and> ae_ts (c ! i) < oldest \<and>
       (\<forall>e\<in>set c. ae_ts (c ! i) \<le> ae_ts e))"
  using assms
proof (induction c arbitrary: k slot oldest)
  case Nil
  then show ?case by simp
next
  case (Cons e c)
  show ?case
  proof (cases "ae_ts e < oldest")
    case True
    consider "arp_slot_loop c (Suc k) k (ae_ts e) = k" "\<forall>e'\<in>set c. ae_ts e \<le> ae_ts e'"
      | i where "i < length c" "arp_slot_loop c (Suc k) k (ae_ts e) = Suc k + i"
        "ae_ts (c ! i) < ae_ts e" "\<forall>e'\<in>set c. ae_ts (c ! i) \<le> ae_ts e'"
      using Cons.IH [of "Suc k" k "ae_ts e"] Cons.prems by auto
    then show ?thesis
    proof cases
      case 1
      with True Cons.prems show ?thesis by (intro disjI2 exI [of _ 0]) simp
    next
      case 2
      with True Cons.prems show ?thesis by (intro disjI2 exI [of _ "Suc i"]) auto
    qed
  next
    case False
    consider "arp_slot_loop c (Suc k) slot oldest = slot" "\<forall>e'\<in>set c. oldest \<le> ae_ts e'"
      | i where "i < length c" "arp_slot_loop c (Suc k) slot oldest = Suc k + i"
        "ae_ts (c ! i) < oldest" "\<forall>e'\<in>set c. ae_ts (c ! i) \<le> ae_ts e'"
      using Cons.IH [of "Suc k" slot oldest] Cons.prems by auto
    then show ?thesis
    proof cases
      case 1
      with False Cons.prems show ?thesis by (intro disjI1) simp
    next
      case 2
      with False Cons.prems show ?thesis by (intro disjI2 exI [of _ "Suc i"]) auto
    qed
  qed
qed

lemma arp_slot_full:
  assumes "\<forall>e\<in>set c. ae_valid e" "c \<noteq> []"
  shows "arp_slot c < length c \<and> (\<forall>e\<in>set c. ae_ts (c ! arp_slot c) \<le> ae_ts e)"
proof -
  have max: "ts \<le> 0xFFFFFFFFFFFFFFFF" for ts :: u64
    using unat_u64_less [of ts] by (simp add: word_le_nat_alt)
  from arp_slot_loop_full [OF assms(1), of 0 0 "0xFFFFFFFFFFFFFFFF"] show ?thesis
  proof (elim disjE)
    assume a: "arp_slot_loop c 0 0 0xFFFFFFFFFFFFFFFF = 0 \<and> (\<forall>e\<in>set c. 0xFFFFFFFFFFFFFFFF \<le> ae_ts e)"
    then have "\<forall>e\<in>set c. ae_ts e = 0xFFFFFFFFFFFFFFFF" using max by (auto intro: order.antisym)
    with a assms(2) show ?thesis by (simp add: arp_slot_def)
  qed (auto simp: arp_slot_def)
qed

lemma arp_slot_bound:
  assumes "c \<noteq> []"
  shows "arp_slot c < length c"
proof (cases "first_index (\<lambda>e. \<not> ae_valid e) c")
  case None
  with arp_slot_full [OF _ assms] show ?thesis by (auto simp: first_index_None)
next
  case (Some i)
  with arp_slot_free first_index_SomeD [OF Some] show ?thesis by metis
qed

lemma arp_ok_update:
  assumes "arp_ok c" "i < 16" "ae_valid e \<longrightarrow> (\<forall>j<16. j \<noteq> i \<longrightarrow> \<not> arp_hit (ae_ip e) (c ! j))"
  shows "arp_ok (c[i := e])"
  using assms by (auto simp: arp_ok_def arp_hit_def nth_list_update)

lemma arp_store_cases:
  assumes ok: "arp_ok c"
  obtains i where "i < 16" "arp_store ip m t c = c[i := \<lparr>ae_ip = ip, ae_mac = m, ae_ts = t, ae_valid = True\<rparr>]"
    "\<And>j. j < 16 \<Longrightarrow> j \<noteq> i \<Longrightarrow> \<not> arp_hit ip (c ! j)"
    "arp_hit ip (c ! i) \<or> (arp_view c ip = None \<and> i = arp_slot c)"
proof (cases "first_index (arp_hit ip) c")
  case None
  then have no: "\<not> arp_hit ip e" if "e \<in> set c" for e using that by (simp add: first_index_None)
  have "arp_slot c < 16"
    using arp_slot_bound [of c] arp_ok_length [OF ok] by (cases c) auto
  moreover have "arp_store ip m t c =
      c[arp_slot c := \<lparr>ae_ip = ip, ae_mac = m, ae_ts = t, ae_valid = True\<rparr>]"
    by (simp only: arp_store_eq None option.case)
  ultimately show ?thesis
    using no arp_ok_length [OF ok] by (intro that [of "arp_slot c"]) (auto simp: arp_view_None)
next
  case (Some i)
  then have i: "i < 16" "arp_hit ip (c ! i)"
    using first_index_SomeD [OF Some] arp_ok_length [OF ok] by auto
  have e: "(c ! i)\<lparr>ae_mac := m, ae_ts := t\<rparr> = \<lparr>ae_ip = ip, ae_mac = m, ae_ts = t, ae_valid = True\<rparr>"
    using i(2) by (cases "c ! i") (simp add: arp_hit_def)
  show ?thesis
  proof (rule that [OF i(1)])
    show "arp_store ip m t c = c[i := \<lparr>ae_ip = ip, ae_mac = m, ae_ts = t, ae_valid = True\<rparr>]"
      by (simp only: arp_store_eq Some option.case e)
    show "\<not> arp_hit ip (c ! j)" if "j < 16" "j \<noteq> i" for j
      using arp_hit_unique [OF ok that(1), of ip] Some that(2) by auto
    show "arp_hit ip (c ! i) \<or> (arp_view c ip = None \<and> i = arp_slot c)" using i by simp
  qed
qed

interpretation ac: bounded_cache arp_ok arp_view "\<lambda>ip (m, t). arp_store ip m t"
proof
  fix c ip and v :: "u8 list \<times> u64" and ip'
  assume ok: "arp_ok c"
  obtain m t where v: "v = (m, t)" by fastforce
  let ?e = "\<lparr>ae_ip = ip, ae_mac = m, ae_ts = t, ae_valid = True\<rparr>"
  obtain i where i: "i < 16" and st: "arp_store ip m t c = c[i := ?e]"
    and no: "\<And>j. j < 16 \<Longrightarrow> j \<noteq> i \<Longrightarrow> \<not> arp_hit ip (c ! j)"
    using arp_store_cases [OF ok] by metis
  have ok': "arp_ok (c[i := ?e])"
    using ok no i by (intro arp_ok_update) auto
  show "arp_ok ((case v of (m, t) \<Rightarrow> arp_store ip m t) c)" using ok' v st by simp
  have "arp_view (c[i := ?e]) ip = Some (m, t)"
    using arp_view_hit [OF ok' i, of ip] i arp_ok_length [OF ok] by (simp add: arp_hit_def)
  then show "arp_view ((case v of (m, t) \<Rightarrow> arp_store ip m t) c) ip = Some v" using v st by simp
  assume ne: "ip' \<noteq> ip"
  show "arp_view ((case v of (m, t) \<Rightarrow> arp_store ip m t) c) ip' = arp_view c ip' \<or>
    arp_view ((case v of (m, t) \<Rightarrow> arp_store ip m t) c) ip' = None"
  proof (cases "arp_view (c[i := ?e]) ip'")
    case None
    with v st show ?thesis by simp
  next
    case (Some x)
    then have "\<exists>e\<in>set (c[i := ?e]). arp_hit ip' e" by (metis arp_view_None option.distinct(1))
    then obtain j where j: "j < 16" "arp_hit ip' (c[i := ?e] ! j)"
      using arp_ok_length [OF ok] by (auto simp: in_set_conv_nth)
    moreover have "j \<noteq> i" using j ne i arp_ok_length [OF ok] by (auto simp: arp_hit_def)
    ultimately have "arp_hit ip' (c ! j)" "c[i := ?e] ! j = c ! j" by auto
    with arp_view_hit [OF ok j(1), of ip'] arp_view_hit [OF ok' j] show ?thesis using v st by simp
  qed
qed

text \<open>A mapping is only lost to make room: the cache is full and the victim has the oldest stamp.\<close>

lemma arp_store_evicts:
  assumes ok: "arp_ok c" and had: "arp_view c ip' = Some (m', t')" and ne: "ip' \<noteq> ip"
    and lost: "arp_view (arp_store ip m t c) ip' = None"
  shows "arp_view c ip = None \<and> (\<forall>e\<in>set c. ae_valid e \<and> t' \<le> ae_ts e)"
proof -
  let ?e = "\<lparr>ae_ip = ip, ae_mac = m, ae_ts = t, ae_valid = True\<rparr>"
  obtain i where i: "i < 16" and st: "arp_store ip m t c = c[i := ?e]"
    and no: "\<And>j. j < 16 \<Longrightarrow> j \<noteq> i \<Longrightarrow> \<not> arp_hit ip (c ! j)"
    and vic: "arp_hit ip (c ! i) \<or> (arp_view c ip = None \<and> i = arp_slot c)"
    by (rule arp_store_cases [OF ok, of ip m t]) (rule that)
  obtain k where k: "first_index (arp_hit ip') c = Some k" "t' = ae_ts (c ! k)"
    using had by (auto simp: arp_view_def)
  then have k': "k < 16" "arp_hit ip' (c ! k)"
    using first_index_SomeD [OF k(1)] arp_ok_length [OF ok] by auto
  have "k = i"
  proof (rule ccontr)
    assume "k \<noteq> i"
    then have "c[i := ?e] ! k = c ! k" by simp
    moreover have "c[i := ?e] ! k \<in> set (c[i := ?e])"
      using k' arp_ok_length [OF ok] by (intro nth_mem) simp
    ultimately show False using lost k' st by (auto simp: arp_view_None)
  qed
  then have slot: "arp_view c ip = None" "k = arp_slot c"
    using vic k' ne by (auto simp: arp_hit_def)
  have full: "\<forall>e\<in>set c. ae_valid e"
  proof (rule ccontr)
    assume "\<not> (\<forall>e\<in>set c. ae_valid e)"
    then obtain x where x: "first_index (\<lambda>e. \<not> ae_valid e) c = Some x"
      by (cases "first_index (\<lambda>e. \<not> ae_valid e) c") (auto simp: first_index_None)
    then have "arp_slot c = x" "\<not> ae_valid (c ! x)"
      using arp_slot_free first_index_SomeD [OF x] by auto
    with slot k' show False by (simp add: arp_hit_def)
  qed
  moreover have "c \<noteq> []" using arp_ok_length [OF ok] by auto
  ultimately show ?thesis using arp_slot_full [of c] slot k by auto
qed

section \<open>Learning and looking up\<close>

lemma set_arp_simps [simp]:
  "n_arp_cache (g_net (set_arp c s)) = c" "os (set_arp c s) = os s" "g_ip_id (set_arp c s) = g_ip_id s"
  "set_arp c' (set_arp c s) = set_arp c' s"
  by (simp_all add: set_arp_def set_net_def)

lemma time_ms_net: "time_ms K s = (t, s') \<Longrightarrow> g_net s' = g_net s \<and> g_ip_id s' = g_ip_id s"
  using time_ms_statics by (auto simp: same_statics_def)

lemma arp_lookup_loop_skip:
  "\<forall>i\<in>set is. \<not> arp_hit ip (n_arp_cache (g_net s) ! i) \<Longrightarrow>
   arp_lookup_loop K ip (is @ js) s = arp_lookup_loop K ip js s"
  by (induction "is") (auto simp: arp_hit_def Let_def)

lemma arp_lookup_loop_miss:
  "\<forall>i\<in>set is. \<not> arp_hit ip (n_arp_cache (g_net s) ! i) \<Longrightarrow> arp_lookup_loop K ip is s = (None, s)"
  using arp_lookup_loop_skip [of "is" ip s K "[]"] by simp

text \<open>
  In a cache without duplicates a lookup reads the clock once if the address is there, and either
  copies the mapping or invalidates it.
\<close>

lemma arp_lookup_eq:
  assumes ok: "arp_ok (n_arp_cache (g_net s))"
  shows "arp_lookup K ip s =
    (case first_index (arp_hit ip) (n_arp_cache (g_net s)) of
       None \<Rightarrow> (None, s)
     | Some i \<Rightarrow>
         let e = n_arp_cache (g_net s) ! i; (t, s') = time_ms K s
         in if t - ae_ts e < ARP_TIMEOUT_MS then (Some (ae_mac e), s')
            else (None, set_arp ((n_arp_cache (g_net s))[i := e\<lparr>ae_valid := False\<rparr>]) s'))"
proof -
  let ?c = "n_arp_cache (g_net s)"
  note len = arp_ok_length [OF ok]
  show ?thesis
  proof (cases "first_index (arp_hit ip) ?c")
    case None
    then have "\<forall>i\<in>set [0..<ARP_CACHE_SIZE]. \<not> arp_hit ip (?c ! i)" using len by (auto simp: first_index_None)
    then have "arp_lookup K ip s = (None, s)"
      unfolding arp_lookup_def by (rule arp_lookup_loop_miss)
    with None show ?thesis by (simp)
  next
    case (Some i)
    then have i: "i < 16" "arp_hit ip (?c ! i)" "\<And>j. j < i \<Longrightarrow> \<not> arp_hit ip (?c ! j)"
      using first_index_SomeD [OF Some] len by auto
    have only: "\<not> arp_hit ip (?c ! j)" if "j < 16" "j \<noteq> i" for j
      using arp_hit_unique [OF ok that(1), of ip] Some that(2) by auto
    have "[0..<ARP_CACHE_SIZE] = [0..<i] @ i # [Suc i..<16]"
      using upt_add_eq_append [of 0 i "16 - i"] upt_conv_Cons [of i 16] i(1) by simp
    then have lk: "arp_lookup K ip s = arp_lookup_loop K ip (i # [Suc i..<16]) s"
      unfolding arp_lookup_def using i(3) by (simp only:) (rule arp_lookup_loop_skip, simp)
    obtain t s' where t: "time_ms K s = (t, s')" by fastforce
    note s' = time_ms_net [OF t]
    have "arp_lookup_loop K ip [Suc i..<16]
        (set_arp (?c[i := (?c ! i)\<lparr>ae_valid := False\<rparr>]) s') =
        (None, set_arp (?c[i := (?c ! i)\<lparr>ae_valid := False\<rparr>]) s')"
      using only i(1) by (intro arp_lookup_loop_miss) auto
    with lk t s' i(2) Some show ?thesis
      by (simp add: arp_hit_def Let_def)
  qed
qed

text \<open>The lookup in terms of the table: the stored mapping if it is younger than 30 seconds.\<close>

lemma arp_lookup_result:
  assumes "arp_ok (n_arp_cache (g_net s))"
  shows "fst (arp_lookup K ip s) =
    (case arp_view (n_arp_cache (g_net s)) ip of
       None \<Rightarrow> None
     | Some (m, ts) \<Rightarrow> if fst (time_ms K s) - ts < ARP_TIMEOUT_MS then Some m else None)"
  using arp_lookup_eq [OF assms, of K ip]
  by (auto simp: arp_view_def Let_def split: option.splits prod.splits)

text \<open>What a lookup leaves: the statics but for, at most, one expired entry that is dropped.\<close>

lemma arp_lookup_state:
  assumes "arp_ok (n_arp_cache (g_net s))" "arp_lookup K ip s = (r, s')"
  shows "\<exists>c. g_net s' = g_net s\<lparr>n_arp_cache := c\<rparr> \<and> g_ip_id s' = g_ip_id s \<and> arp_ok c \<and>
    (r \<noteq> None \<longrightarrow> c = n_arp_cache (g_net s)) \<and>
    (c = n_arp_cache (g_net s) \<or>
     (\<exists>i<16. c = (n_arp_cache (g_net s))[i := (n_arp_cache (g_net s) ! i)\<lparr>ae_valid := False\<rparr>]))"
proof (cases "first_index (arp_hit ip) (n_arp_cache (g_net s))")
  case None
  with assms arp_lookup_eq [OF assms(1), of K ip] show ?thesis
    by (intro exI [of _ "n_arp_cache (g_net s)"]) auto
next
  case (Some i)
  let ?c = "n_arp_cache (g_net s)"
  obtain t s1 where t: "time_ms K s = (t, s1)" by fastforce
  note s1 = time_ms_net [OF t]
  have i: "i < 16" using first_index_SomeD [OF Some] arp_ok_length [OF assms(1)] by simp
  show ?thesis
  proof (cases "t - ae_ts (?c ! i) < ARP_TIMEOUT_MS")
    case True
    with assms t s1 Some arp_lookup_eq [OF assms(1), of K ip] show ?thesis
      by (intro exI [of _ ?c]) (auto simp: Let_def)
  next
    case False
    have "arp_ok (?c[i := (?c ! i)\<lparr>ae_valid := False\<rparr>])"
      using assms(1) i by (rule arp_ok_update) simp
    with False assms t s1 Some i arp_lookup_eq [OF assms(1), of K ip] show ?thesis
      by (intro exI [of _ "?c[i := (?c ! i)\<lparr>ae_valid := False\<rparr>]"])
        (auto simp: Let_def set_arp_def set_net_def)
  qed
qed

text \<open>On the map, the lookup of an expired entry removes just that entry.\<close>

lemma arp_expire_view:
  assumes ok: "arp_ok c" and i: "i < 16" "arp_hit ip (c ! i)"
  shows "arp_view (c[i := (c ! i)\<lparr>ae_valid := False\<rparr>]) ip' = (if ip' = ip then None else arp_view c ip')"
proof -
  let ?c = "c[i := (c ! i)\<lparr>ae_valid := False\<rparr>]"
  have len: "length c = 16" using ok by (rule arp_ok_length)
  have at: "?c ! j = (if j = i then (c ! i)\<lparr>ae_valid := False\<rparr> else c ! j)" if "j < 16" for j
    using that i(1) len by (simp add: nth_list_update)
  have ok': "arp_ok ?c" using arp_ok_update [OF ok i(1)] by simp
  have hits: "arp_hit ip' (?c ! j) \<longleftrightarrow> ip' \<noteq> ip \<and> arp_hit ip' (c ! j)" if j: "j < 16" for j
    using at [OF j] i(2) arp_hit_unique [OF ok j, of ip] arp_hit_unique [OF ok i(1,2)]
    by (cases "j = i") (auto simp: arp_hit_def)
  show ?thesis
  proof (cases "ip' \<noteq> ip \<and> (\<exists>j<16. arp_hit ip' (c ! j))")
    case True
    then obtain j where j: "j < 16" "arp_hit ip' (c ! j)" by blast
    then have "j \<noteq> i" using i True by (auto simp: arp_hit_def)
    then show ?thesis
      using True j at [OF j(1)] hits [OF j(1)] arp_view_hit [OF ok' j(1), of ip'] arp_view_hit [OF ok j] by simp
  next
    case False
    then have "arp_view ?c ip' = None" using hits len by (auto simp: arp_view_None in_set_conv_nth)
    moreover have "ip' \<noteq> ip \<Longrightarrow> arp_view c ip' = None"
      using False len by (auto simp: arp_view_None in_set_conv_nth)
    ultimately show ?thesis by simp
  qed
qed

lemma arp_lookup_view:
  assumes ok: "arp_ok (n_arp_cache (g_net s))" and run: "arp_lookup K ip s = (r, s')"
  shows "arp_view (n_arp_cache (g_net s')) ip' =
    (if ip' = ip \<and> r = None then None else arp_view (n_arp_cache (g_net s)) ip')"
proof (cases "first_index (arp_hit ip) (n_arp_cache (g_net s))")
  case None
  with run arp_lookup_eq [OF ok, of K ip] show ?thesis by (auto simp: arp_view_def)
next
  case (Some i)
  let ?c = "n_arp_cache (g_net s)"
  obtain t s1 where t: "time_ms K s = (t, s1)" by fastforce
  have i: "i < 16" "arp_hit ip (?c ! i)"
    using first_index_SomeD [OF Some] arp_ok_length [OF ok] by auto
  have "(r, s') = (if t - ae_ts (?c ! i) < ARP_TIMEOUT_MS then (Some (ae_mac (?c ! i)), s1)
      else (None, set_arp (?c[i := (?c ! i)\<lparr>ae_valid := False\<rparr>]) s1))"
    using run arp_lookup_eq [OF ok, of K ip] Some t by (simp add: Let_def)
  then show ?thesis
    using arp_expire_view [OF ok i, of ip'] time_ms_net [OF t]
    by (auto simp: set_arp_def set_net_def split: if_splits)
qed

lemma arp_learn_eq:
  assumes "6 \<le> length mac"
  shows "arp_learn K ip mac s =
    (case time_ms K s of (t, s') \<Rightarrow>
       Some ((), set_arp (arp_store ip (take 6 mac) t (n_arp_cache (g_net s))) s'))"
proof -
  obtain t s' where t: "time_ms K s = (t, s')" by fastforce
  with assms time_ms_net [OF t] show ?thesis by (simp add: arp_learn_def rd_def)
qed

section \<open>ARP packets\<close>

text \<open>
  The 42 bytes of an ARP packet in its Ethernet frame. (The target hardware address of a request is
  the broadcast address, as for the frame.)
\<close>

definition arp_frame :: "u16 \<Rightarrow> u8 list \<Rightarrow> u8 list \<Rightarrow> u32 \<Rightarrow> u32 \<Rightarrow> u8 list" where
  "arp_frame op mac dst src_ip dst_ip =
     dst @ mac @ be16 ETHERTYPE_ARP @ be16 1 @ be16 0x0800 @ [6, 4] @ be16 op @
     mac @ be32 src_ip @ dst @ be32 dst_ip"

lemma arp_frame_length: "length mac = 6 \<Longrightarrow> length dst = 6 \<Longrightarrow> length (arp_frame op mac dst a b) = 42"
  by (simp add: arp_frame_def)

lemma arp_send_eq:
  assumes mac: "length (n_mac (g_net s)) = 6" and dst: "6 \<le> length dst_mac"
  shows "arp_send K op dst_mac src_ip dst_ip s =
    map_option (\<lambda>(_, s). ((), s))
      (send_frame K (arp_frame op (n_mac (g_net s)) (take 6 dst_mac) src_ip dst_ip) s)"
proof -
  let ?d = "take 6 dst_mac" and ?m = "n_mac (g_net s)"
  have rds: "rd dst_mac 0 6 = Some ?d" "rd ?m 0 6 = Some ?m"
    using mac dst by (simp_all add: rd_def)
  have ld: "length ?d = 6" using dst by simp
  let ?f = "arp_frame op ?m ?d src_ip dst_ip"
  have lf: "length ?f = 42" using arp_frame_length [OF mac ld] .
  have tx: "driver_tx K ?f 42 s = send_frame K ?f s"
    using driver_tx_eq [of 42 ?f K s] lf by simp
  have empty: "replicate 42 0 = filled [] (replicate 42 0)" by (simp add: filled_def)
  have build: "arp_send K op dst_mac src_ip dst_ip s =
      do { (_, s) \<leftarrow> driver_tx K ?f 42 s; Some ((), s) }"
    unfolding arp_send_def Let_def using mac ld
    by (subst empty) (simp add: rds st8_def st16_def st32_def mem_simps wire_simps,
      simp add: filled_def arp_frame_def)
  show ?thesis
    unfolding build tx by (cases "send_frame K ?f s") auto
qed

lemma arp_send_statics:
  "arp_send K op dst_mac a b s = Some ((), s') \<Longrightarrow> same_statics s s'"
  unfolding arp_send_def Let_def
  by (elim run_elims) (auto dest: driver_tx_statics)

lemma arp_send_returns:
  assumes "live K \<mu>" "length (n_mac (g_net s)) = 6" "6 \<le> length dst_mac"
  obtains s' where "arp_send K op dst_mac a b s = Some ((), s')" "same_statics s s'"
proof -
  obtain st s' where "send_frame K (arp_frame op (n_mac (g_net s)) (take 6 dst_mac) a b) s = Some (st, s')"
    "same_statics s s'"
    using send_frame_returns [OF assms(1)] by metis
  with that arp_send_eq [OF assms(2,3), of K op a b] show ?thesis by simp
qed

text \<open>The fields of a received ARP packet.\<close>

definition arp_op :: "u8 list \<Rightarrow> u16" where
  "arp_op f = of_be16 (take 2 (drop 20 f))"

definition arp_sender :: "u8 list \<Rightarrow> u32" where
  "arp_sender f = of_be32 (take 4 (drop 28 f))"

definition arp_target :: "u8 list \<Rightarrow> u32" where
  "arp_target f = of_be32 (take 4 (drop 38 f))"

definition arp_sender_mac :: "u8 list \<Rightarrow> u8 list" where
  "arp_sender_mac f = take 6 (drop 22 f)"

lemma arp_frame_fields:
  assumes "length mac = 6" "length dst = 6"
  shows "arp_op (arp_frame op mac dst a b @ pad) = op"
    and "arp_sender (arp_frame op mac dst a b @ pad) = a"
    and "arp_target (arp_frame op mac dst a b @ pad) = b"
    and "arp_sender_mac (arp_frame op mac dst a b @ pad) = mac"
  using assms by (simp_all add: arp_op_def arp_sender_def arp_target_def arp_sender_mac_def arp_frame_def)

lemma arp_rx_eq:
  assumes "42 \<le> len" "42 \<le> length frame"
  shows "arp_rx K frame len s = do {
    (_, s) \<leftarrow> (if arp_sender frame \<noteq> 0
              then arp_learn K (arp_sender frame) (drop 22 frame) s else Some ((), s));
    if arp_op frame = ARP_OP_REQUEST \<and> arp_target frame = n_ip (g_net s) \<and> n_ip (g_net s) \<noteq> 0
    then arp_send K ARP_OP_REPLY (drop 22 frame) (n_ip (g_net s)) (arp_sender frame) s
    else Some ((), s)
  }"
proof -
  have "adv frame 14 = Some (drop 14 frame)" "adv (drop 14 frame) 8 = Some (drop 22 frame)"
    "ld16 (drop 14 frame) 6 = Some (of_le16 (take 2 (drop 20 frame)))"
    "ld32 (drop 14 frame) 14 = Some (of_le32 (take 4 (drop 28 frame)))"
    "ld32 (drop 14 frame) 24 = Some (of_le32 (take 4 (drop 38 frame)))"
    using assms(2) by (simp_all add: adv_def ld16_def ld32_def rd_def)
  with assms(1) show ?thesis
    by (simp add: arp_rx_def wire_simps Let_def cong: if_cong
        flip: arp_op_def arp_sender_def arp_target_def)
qed

text \<open>
  \<open>arp_wf\<close>: the cache invariant. \<open>arp_only s s'\<close>: of the statics only the cache has changed, and it
  is still well formed if it was.
\<close>

definition arp_wf :: "arp_entry_t list \<Rightarrow> bool" where
  "arp_wf c \<longleftrightarrow> arp_ok c \<and> (\<forall>e\<in>set c. length (ae_mac e) = 6)"

definition arp_only :: "'w machine \<Rightarrow> 'w machine \<Rightarrow> bool" where
  "arp_only s s' \<longleftrightarrow> g_ip_id s' = g_ip_id s \<and> (\<exists>c. g_net s' = g_net s\<lparr>n_arp_cache := c\<rparr> \<and>
     (arp_wf (n_arp_cache (g_net s)) \<longrightarrow> arp_wf c))"

lemma arp_onlyI:
  "g_net s' = g_net s\<lparr>n_arp_cache := c\<rparr> \<Longrightarrow> g_ip_id s' = g_ip_id s \<Longrightarrow>
   (arp_wf (n_arp_cache (g_net s)) \<Longrightarrow> arp_wf c) \<Longrightarrow> arp_only s s'"
  by (auto simp: arp_only_def)

lemma arp_onlyE:
  assumes "arp_only s s'"
  obtains c where "g_net s' = g_net s\<lparr>n_arp_cache := c\<rparr>" "g_ip_id s' = g_ip_id s"
    "arp_wf (n_arp_cache (g_net s)) \<Longrightarrow> arp_wf c"
  using assms by (auto simp: arp_only_def)

lemma arp_only_refl [simp, intro]: "arp_only s s"
  by (rule arp_onlyI [where c = "n_arp_cache (g_net s)"]) simp_all

lemma arp_only_statics [intro]: "same_statics s s' \<Longrightarrow> arp_only s s'"
  by (rule arp_onlyI [where c = "n_arp_cache (g_net s)"]) (simp_all add: same_statics_def)

lemma arp_only_trans [trans]: "arp_only s t \<Longrightarrow> arp_only t u \<Longrightarrow> arp_only s u"
  by (elim arp_onlyE, rule arp_onlyI) simp_all

lemma arp_wf_update: "arp_wf c \<Longrightarrow> arp_ok (c[i := e]) \<Longrightarrow> length (ae_mac e) = 6 \<Longrightarrow> arp_wf (c[i := e])"
  using set_update_subset_insert [of c i e] by (auto simp: arp_wf_def)

lemma arp_store_wf:
  assumes "arp_wf c" "length m = 6"
  shows "arp_wf (arp_store ip m t c)"
proof -
  have ok: "arp_ok c" using assms(1) by (simp add: arp_wf_def)
  obtain i where i: "arp_store ip m t c = c[i := \<lparr>ae_ip = ip, ae_mac = m, ae_ts = t, ae_valid = True\<rparr>]"
    by (rule arp_store_cases [OF ok, of ip m t])
  have "arp_ok (arp_store ip m t c)" using ac.store_inv [OF ok, of ip "(m, t)"] by simp
  with i assms arp_wf_update show ?thesis by simp
qed

lemma arp_init_wf: "arp_wf (n_arp_cache (g_net (arp_init s)))"
proof -
  have "arp_wf (replicate n e)" if "n = ARP_CACHE_SIZE" "\<not> ae_valid e" "length (ae_mac e) = 6" for n e
    using that by (auto simp: arp_wf_def arp_ok_def)
  then show ?thesis by (simp add: arp_init_def zero_arp_entry_def)
qed

lemma arp_learn_only:
  assumes "arp_learn K ip mac s = Some ((), s')"
  shows "arp_only s s'"
proof -
  obtain t s1 where t: "time_ms K s = (t, s1)" by fastforce
  from assms t obtain m where m: "length m = 6"
    and s': "s' = set_arp (arp_store ip m t (n_arp_cache (g_net s1))) s1"
    by (auto simp: arp_learn_def dest!: rd_length elim!: run_elims)
  with time_ms_net [OF t] show ?thesis
    by (intro arp_onlyI [where c = "arp_store ip m t (n_arp_cache (g_net s))"] arp_store_wf)
      (simp_all add: set_arp_def set_net_def)
qed

lemma arp_lookup_only:
  assumes "arp_wf (n_arp_cache (g_net s))" "arp_lookup K ip s = (r, s')"
  shows "arp_only s s'" "r = Some m \<Longrightarrow> length m = 6"
proof -
  have ok: "arp_ok (n_arp_cache (g_net s))" and macs: "\<forall>e\<in>set (n_arp_cache (g_net s)). length (ae_mac e) = 6"
    using assms(1) by (simp_all add: arp_wf_def)
  have upd: "arp_wf c" if "arp_ok c" "c = n_arp_cache (g_net s) \<or>
     (\<exists>i<16. c = (n_arp_cache (g_net s))[i := (n_arp_cache (g_net s) ! i)\<lparr>ae_valid := False\<rparr>])" for c
    using that macs arp_ok_length [OF ok]
    by (auto simp: arp_wf_def dest!: subsetD [OF set_update_subset_insert])
  from arp_lookup_state [OF ok assms(2)] upd show "arp_only s s'"
    by (auto intro: arp_onlyI)
  assume "r = Some m"
  then have "fst (arp_lookup K ip s) = Some m" using assms(2) by simp
  then obtain ts where "arp_view (n_arp_cache (g_net s)) ip = Some (m, ts)"
    by (auto simp: arp_lookup_result [OF ok] split: option.splits if_splits)
  then obtain i where i: "first_index (arp_hit ip) (n_arp_cache (g_net s)) = Some i"
    "m = ae_mac (n_arp_cache (g_net s) ! i)"
    by (auto simp: arp_view_def)
  with macs first_index_SomeD [OF i(1)] show "length m = 6" by auto
qed

lemma arp_rx_only:
  assumes "arp_rx K frame len s = Some ((), s')"
  shows "arp_only s s'"
proof (cases "len < 42")
  case True
  with assms show ?thesis by (simp add: arp_rx_def)
next
  case False
  with assms obtain src_ip src_mac op dst_ip s1 where
    l: "(if src_ip \<noteq> 0 then arp_learn K src_ip src_mac s else Some ((), s)) = Some ((), s1)"
    and r: "(if op = ARP_OP_REQUEST \<and> dst_ip = n_ip (g_net s1) \<and> n_ip (g_net s1) \<noteq> 0
       then arp_send K ARP_OP_REPLY src_mac (n_ip (g_net s1)) src_ip s1 else Some ((), s1)) = Some ((), s')"
    unfolding arp_rx_def Let_def by (auto elim!: run_elims split del: if_split)
  have "arp_only s s1" using l by (auto split: if_splits intro: arp_learn_only)
  also have "arp_only s1 s'" using r by (auto split: if_splits dest: arp_send_statics)
  finally show ?thesis .
qed

section \<open>Resolving an address\<close>

text \<open>
  Learning then looking up: the address learned at time \<open>t\<close> is found, with the address bytes copied,
  exactly while the clock is less than 30 seconds after \<open>t\<close>.
\<close>

lemma arp_learn_then_lookup:
  assumes ok: "arp_ok (n_arp_cache (g_net s))" and mac: "6 \<le> length mac"
    and t: "time_ms K s = (t, s1)"
    and learn: "arp_learn K ip mac s = Some ((), s2)"
  shows "fst (arp_lookup K ip s2) =
    (if fst (time_ms K s2) - t < ARP_TIMEOUT_MS then Some (take 6 mac) else None)"
proof -
  have s2: "s2 = set_arp (arp_store ip (take 6 mac) t (n_arp_cache (g_net s))) s1"
    using learn t by (simp add: arp_learn_eq [OF mac])
  have "arp_view (n_arp_cache (g_net s2)) ip = Some (take 6 mac, t)"
    using ac.store_same [OF ok, of ip "(take 6 mac, t)"] s2 by simp
  moreover have "arp_ok (n_arp_cache (g_net s2))"
    using ac.store_inv [OF ok, of ip "(take 6 mac, t)"] s2 by simp
  ultimately show ?thesis by (simp add: arp_lookup_result)
qed

text \<open>
  A host with an address that receives a request for it learns the sender and answers it with its own
  hardware address.
\<close>

lemma arp_answers:
  assumes mac: "length (n_mac (g_net s)) = 6" "length mac = 6" "length dst = 6"
    and len: "42 \<le> len"
    and ip: "src_ip \<noteq> 0" "n_ip (g_net s) \<noteq> 0" "n_ip (g_net s) = dst_ip"
    and t: "time_ms K s = (t, s1)"
  shows "arp_rx K (arp_frame ARP_OP_REQUEST mac dst src_ip dst_ip @ pad) len s =
    map_option (\<lambda>(_, s). ((), s))
      (send_frame K (arp_frame ARP_OP_REPLY (n_mac (g_net s)) mac dst_ip src_ip)
        (set_arp (arp_store src_ip mac t (n_arp_cache (g_net s))) s1))"
proof -
  let ?f = "arp_frame ARP_OP_REQUEST mac dst src_ip dst_ip @ pad"
  let ?s2 = "set_arp (arp_store src_ip mac t (n_arp_cache (g_net s))) s1"
  have lf: "42 \<le> length ?f" using arp_frame_length [OF mac(2,3)] by simp
  note fields = arp_frame_fields [OF mac(2,3)]
  have smac: "take 6 (drop 22 ?f) = mac" using fields(4) by (simp add: arp_sender_mac_def)
  have learn: "arp_learn K src_ip (drop 22 ?f) s = Some ((), ?s2)"
    using lf t by (simp only: arp_learn_eq length_drop) (simp only: smac prod.case)
  have net: "n_ip (g_net ?s2) = n_ip (g_net s)" "n_mac (g_net ?s2) = n_mac (g_net s)"
    using time_ms_net [OF t] by (simp_all add: set_arp_def set_net_def)
  have "6 \<le> length (drop 22 ?f)" using lf by simp
  then have send: "arp_send K ARP_OP_REPLY (drop 22 ?f) dst_ip src_ip ?s2 =
    map_option (\<lambda>(_, s). ((), s))
      (send_frame K (arp_frame ARP_OP_REPLY (n_mac (g_net s)) mac dst_ip src_ip) ?s2)"
    using mac net by (subst arp_send_eq) (simp_all only: smac net)
  show ?thesis
    using ip net learn send
    by (simp only: arp_rx_eq [OF len lf] fields) simp
qed

text \<open>A host that receives a reply learns the mapping, whoever asked for it, and sends nothing.\<close>

lemma arp_reply_learned:
  assumes mac: "length mac = 6" "length dst = 6" and len: "42 \<le> len" and ip: "src_ip \<noteq> 0"
    and t: "time_ms K s = (t, s1)"
  shows "arp_rx K (arp_frame ARP_OP_REPLY mac dst src_ip dst_ip @ pad) len s =
    Some ((), set_arp (arp_store src_ip mac t (n_arp_cache (g_net s))) s1)"
proof -
  let ?f = "arp_frame ARP_OP_REPLY mac dst src_ip dst_ip @ pad"
  have lf: "42 \<le> length ?f" using arp_frame_length [OF mac] by simp
  note fields = arp_frame_fields [OF mac]
  have smac: "take 6 (drop 22 ?f) = mac" using fields(4) by (simp add: arp_sender_mac_def)
  have learn: "arp_learn K src_ip (drop 22 ?f) s =
      Some ((), set_arp (arp_store src_ip mac t (n_arp_cache (g_net s))) s1)"
    using lf t by (simp only: arp_learn_eq length_drop) (simp only: smac prod.case)
  show ?thesis
    using ip learn by (simp only: arp_rx_eq [OF len lf] fields) simp
qed

end
