(* ===== verification/Checksum.thy ===== *)
theory Checksum
  imports Netd_State
begin

text \<open>
  The Internet checksum \<open>inet_cksum\<close> of \<open>include/netd.h\<close>: the sum of the 16-bit words modulo
  \<open>2 ^ 32\<close>, folded to 16 bits and complemented. The lemmas relate it to one's-complement arithmetic
  (accs modulo 65535) and show that storing it makes the checksum of the packet zero.
\<close>

section \<open>Model\<close>

text \<open>The summing loop takes the bytes in pairs; an odd last byte is the high half of a word.\<close>

fun cksum_sum :: "u8 list \<Rightarrow> u32 \<Rightarrow> u32" where
  "cksum_sum (a # b # rest) acc = cksum_sum rest (acc + (push_bit 8 (ucast a) OR ucast b))"
| "cksum_sum [a] acc = acc + push_bit 8 (ucast a)"
| "cksum_sum [] acc = acc"

text \<open>\<open>while (sum >> 16) sum = (sum & 0xFFFF) + (sum >> 16);\<close>\<close>

lemma unat_drop_bit_16: "unat (drop_bit 16 (acc :: u32)) = unat acc div 65536"
  using unat_drop_bit_eq [of 16 acc] drop_bit_eq_div [of 16 "unat acc"] by simp

lemma unat_low_half: "unat (acc AND 0xFFFF :: u32) = unat acc mod 65536"
proof -
  have "acc AND 0xFFFF = take_bit 16 acc"
    by (simp add: take_bit_eq_mask mask_eq_exp_minus_1)
  then show ?thesis
    by (simp only: unsigned_take_bit_eq) (simp add: take_bit_eq_mod)
qed

lemma fold_step:
  fixes acc :: u32
  shows "unat ((acc AND 0xFFFF) + drop_bit 16 acc) = unat acc mod 65536 + unat acc div 65536"
proof -
  have "unat acc < 2 ^ 32" using unat_u32_less [of acc] by simp
  then have "unat acc mod 65536 + unat acc div 65536 < 2 ^ 32" by simp
  then show ?thesis
    by (simp only: unat_word_ariths unat_drop_bit_16 unat_low_half) simp
qed

lemma fold_decreases:
  fixes acc :: u32
  assumes "drop_bit 16 acc \<noteq> 0"
  shows "unat ((acc AND 0xFFFF) + drop_bit 16 acc) < unat acc"
proof -
  have "unat (drop_bit 16 acc) \<noteq> 0" using assms by (simp only: unat_eq_0 not_False_eq_True)
  then have "0 < unat acc div 65536" by (simp only: unat_drop_bit_16 neq0_conv)
  moreover have "unat acc = 65536 * (unat acc div 65536) + unat acc mod 65536" by simp
  ultimately show ?thesis unfolding fold_step by linarith
qed

function cksum_fold :: "u32 \<Rightarrow> u32" where
  "cksum_fold acc =
     (if drop_bit 16 acc \<noteq> 0 then cksum_fold ((acc AND 0xFFFF) + drop_bit 16 acc) else acc)"
  by pat_completeness auto
termination
  by (relation "measure unat") (auto simp: fold_decreases)

declare cksum_fold.simps [simp del]

definition inet_cksum :: "u8 list \<Rightarrow> nat \<Rightarrow> u16 option" where
  "inet_cksum data len = do {
     bs \<leftarrow> rd data 0 len;
     Some (ucast (NOT (cksum_fold (cksum_sum bs 0))))
   }"

section \<open>One's-complement arithmetic\<close>

text \<open>The sum of the big-endian 16-bit words of a byte string, as a number.\<close>

fun be_sum :: "u8 list \<Rightarrow> nat" where
  "be_sum (a # b # rest) = 256 * unat a + unat b + be_sum rest"
| "be_sum [a] = 256 * unat a"
| "be_sum [] = 0"

lemma unat_be_word:
  "unat (push_bit 8 (ucast (a :: u8)) OR ucast (b :: u8) :: u32) = 256 * unat a + unat b"
proof -
  have "push_bit 8 (ucast a) OR (ucast b :: u32) = push_bit 8 (ucast a) + ucast b"
    by (rule disjunctive_add [symmetric]) (auto simp: bit_simps dest: bit_imp_le_length)
  moreover have "unat (push_bit 8 (ucast a :: u32)) = 256 * unat a"
    using unat_u8_less [of a] by (simp add: push_bit_eq_mult unat_word_ariths unsigned_ucast_eq take_bit_nat_def)
  moreover have "unat (ucast b :: u32) = unat b"
    using unat_u8_less [of b] by (simp add: unsigned_ucast_eq take_bit_nat_def)
  ultimately show ?thesis
    using unat_u8_less [of a] unat_u8_less [of b] by (simp add: unat_word_ariths)
qed

lemma be_sum_append: "even (length xs) \<Longrightarrow> be_sum (xs @ ys) = be_sum xs + be_sum ys"
  by (induction xs rule: be_sum.induct) auto

lemma be_sum_le: "2 * be_sum bs \<le> 65535 * (length bs + 1)"
proof (induction bs rule: be_sum.induct)
  case (1 a b rest)
  moreover have "unat a < 256" "unat b < 256" using unat_u8_less [of a] unat_u8_less [of b] by simp_all
  ultimately show ?case by simp
next
  case (2 a)
  have "unat a < 256" using unat_u8_less [of a] by simp
  then show ?case by simp
qed simp

lemma unat_cksum_sum:
  "unat acc + be_sum bs < 2 ^ 32 \<Longrightarrow> unat (cksum_sum bs acc) = unat acc + be_sum bs"
proof (induction bs acc rule: cksum_sum.induct)
  case (1 a b rest acc)
  let ?w = "push_bit 8 (ucast a) OR ucast b :: u32"
  have "unat (acc + ?w) = unat acc + (256 * unat a + unat b)"
    using "1.prems" by (simp add: unat_word_ariths unat_be_word)
  with 1 show ?case by simp
next
  case (2 a acc)
  have "unat (push_bit 8 (ucast a) :: u32) = 256 * unat a"
    using unat_be_word [of a 0] by simp
  with 2 show ?case by (simp add: unat_word_ariths)
qed simp

lemma cksum_fold_props:
  "unat (cksum_fold acc) < 65536 \<and>
   unat (cksum_fold acc) mod 65535 = unat acc mod 65535 \<and> (cksum_fold acc = 0 \<longleftrightarrow> acc = 0)"
proof (induction acc rule: cksum_fold.induct)
  case (1 acc)
  show ?case
  proof (cases "drop_bit 16 acc = 0")
    case True
    then have "unat acc div 65536 = 0" by (metis unat_0 unat_drop_bit_16)
    with True show ?thesis by (subst (1 2 3) cksum_fold.simps) simp
  next
    case False
    let ?acc1 = "(acc AND 0xFFFF) + drop_bit 16 acc"
    have eq: "cksum_fold acc = cksum_fold ?acc1"
      using False by (subst cksum_fold.simps) simp
    define q r where "q = unat acc div 65536" and "r = unat acc mod 65536"
    have acc: "unat acc = 65535 * q + (q + r)" unfolding q_def r_def by simp
    have one: "unat ?acc1 = q + r" unfolding fold_step q_def r_def by simp
    then have "unat ?acc1 mod 65535 = unat acc mod 65535"
      unfolding acc by (metis mod_mult_self4)
    moreover have "0 < q" using False unat_drop_bit_16 [of acc] q_def by (metis gr0I unat_eq_0)
    then have "?acc1 \<noteq> 0" "acc \<noteq> 0" using one acc unat_eq_0 by auto
    ultimately show ?thesis using "1.IH" [OF False] eq by simp
  qed
qed

text \<open>
  The folded sum of a byte string of at most 65536 bytes: congruent to the sum of its words modulo
  65535, and 0 only for a zero sum.
\<close>

lemma folded_sum:
  assumes "length bs \<le> 65536"
  shows "unat (cksum_fold (cksum_sum bs 0)) < 65536"
    and "unat (cksum_fold (cksum_sum bs 0)) mod 65535 = be_sum bs mod 65535"
    and "unat (cksum_fold (cksum_sum bs 0)) = 0 \<longleftrightarrow> be_sum bs = 0"
proof -
  have "be_sum bs < 2 ^ 32" using be_sum_le [of bs] assms by simp
  then have "unat (cksum_sum bs 0) = be_sum bs" using unat_cksum_sum [of 0 bs] by simp
  with cksum_fold_props [of "cksum_sum bs 0"] show
    "unat (cksum_fold (cksum_sum bs 0)) < 65536"
    "unat (cksum_fold (cksum_sum bs 0)) mod 65535 = be_sum bs mod 65535"
    "unat (cksum_fold (cksum_sum bs 0)) = 0 \<longleftrightarrow> be_sum bs = 0"
    by (auto simp: unat_eq_0 simp flip: unat_eq_0)
qed

lemma unat_low16: "unat (ucast x :: u16) = unat (x :: u32) mod 65536"
  by (simp add: unsigned_ucast_eq take_bit_nat_def)

lemma unat_complement:
  fixes f :: u32
  assumes "unat f < 65536"
  shows "unat (ucast (NOT f) :: u16) = 65535 - unat f"
proof -
  have "NOT f = 4294967295 - f" by (simp add: not_eq_complement)
  moreover have "f \<le> 4294967295"
    using unat_u32_less [of f] by (simp add: word_le_nat_alt)
  ultimately have "unat (NOT f) = 4294967295 - unat f" by (simp add: unat_sub)
  then have "unat (ucast (NOT f) :: u16) = (4294967295 - unat f) mod 65536"
    by (simp only: unat_low16)
  also have "\<dots> = 65535 - unat f"
  proof -
    have "4294967295 - unat f = 65535 - unat f + 65535 * 65536" using assms by simp
    then have "(4294967295 - unat f) mod 65536 = (65535 - unat f) mod 65536"
      by (simp only: mod_mult_self1)
    then show ?thesis by simp
  qed
  finally show ?thesis .
qed

lemma inet_cksum_value:
  assumes "len \<le> length data" "len \<le> 65536"
  obtains c where "inet_cksum data len = Some c"
    and "unat c = 65535 - unat (cksum_fold (cksum_sum (take len data) 0))"
proof -
  have "length (take len data) \<le> 65536" using assms by simp
  then have "unat (cksum_fold (cksum_sum (take len data) 0)) < 65536" by (rule folded_sum)
  then show ?thesis
    using that assms by (simp add: inet_cksum_def rd_def unat_complement)
qed

text \<open>A byte string checks when its checksum is zero: its words sum to a positive multiple of 65535.\<close>

lemma inet_cksum_zero_iff:
  assumes "len \<le> length data" "len \<le> 65536"
  shows "inet_cksum data len = Some 0 \<longleftrightarrow>
    65535 dvd be_sum (take len data) \<and> be_sum (take len data) \<noteq> 0"
proof -
  let ?f = "unat (cksum_fold (cksum_sum (take len data) 0))"
  have len: "length (take len data) \<le> 65536" using assms by simp
  note f = folded_sum [OF len]
  from inet_cksum_value [OF assms] obtain c
    where c: "inet_cksum data len = Some c" "unat c = 65535 - ?f" .
  have "c = 0 \<longleftrightarrow> unat c = 0" by (simp add: unat_eq_0)
  also have "\<dots> \<longleftrightarrow> ?f = 65535" using f(1) c(2) by auto
  also have "\<dots> \<longleftrightarrow> ?f mod 65535 = 0 \<and> ?f \<noteq> 0"
  proof -
    have "?f \<noteq> 0 \<Longrightarrow> ?f mod 65535 = 0 \<Longrightarrow> ?f = 65535"
      using f(1) mod_less [of ?f 65535] by (cases "?f < 65535") auto
    then show ?thesis by auto
  qed
  finally show ?thesis using c(1) f(2,3) by (simp add: dvd_eq_mod_eq_0)
qed

lemma be_sum_zero_pair:
  assumes "even k" "k + 2 \<le> length bs" "take 2 (drop k bs) = [0, 0]"
  shows "be_sum (take k bs @ [a, b] @ drop (k + 2) bs) = be_sum bs + 256 * unat a + unat b"
proof -
  have even: "even (length (take k bs))" using assms by simp
  have "bs = take k bs @ take 2 (drop k bs) @ drop (k + 2) bs"
    by (metis append_take_drop_id drop_drop add.commute)
  with assms(3) have "bs = take k bs @ [0, 0] @ drop (k + 2) bs" by simp
  then have "be_sum bs = be_sum (take k bs @ [0, 0] @ drop (k + 2) bs)" by (rule arg_cong)
  with even show ?thesis by (simp add: be_sum_append)
qed

text \<open>
  Storing the checksum in its zeroed field at an even offset makes the packet check: this is what a
  receiver verifies.
\<close>

theorem inet_cksum_verifies:
  assumes len: "len \<le> length data" "len \<le> 65536"
    and k: "even k" "k + 2 \<le> len" "take 2 (drop k data) = [0, 0]"
    and c: "inet_cksum data len = Some c"
    and data': "st16 k (htons c) data = Some data'"
  shows "inet_cksum data' len = Some 0"
proof -
  define bs where "bs = take len data"
  define f where "f = unat (cksum_fold (cksum_sum bs 0))"
  have lbs: "length bs = len" using len by (simp add: bs_def)
  note folded = folded_sum [of bs, folded f_def]
  have uc: "unat c = 65535 - f"
    using inet_cksum_value [OF len] c by (auto simp: f_def bs_def)
  have "take len data' = take k bs @ be16 c @ drop (k + 2) bs"
    using data' k(2) len
    by (auto simp: st16_def wire_simps wr_def bs_def drop_take split: if_splits)
  moreover have "be_sum (take k bs @ be16 c @ drop (k + 2) bs) = be_sum bs + unat c"
  proof -
    have "take 2 (drop k bs) = [0, 0]"
      using k by (simp add: bs_def drop_take)
    then have "be_sum (take k bs @ be16 c @ drop (k + 2) bs) =
        be_sum bs + 256 * unat (ucast (drop_bit 8 c) :: u8) + unat (ucast c :: u8)"
      unfolding be16_def using k lbs by (intro be_sum_zero_pair) auto
    then show ?thesis by (simp only: add.assoc unat_of_bytes)
  qed
  ultimately have sum: "be_sum (take len data') = be_sum bs + (65535 - f)"
    by (simp add: uc)
  have "65535 dvd be_sum bs + (65535 - f)"
  proof (cases "f = 65535")
    case True
    with folded lbs len show ?thesis by (simp add: dvd_eq_mod_eq_0)
  next
    case False
    with folded lbs len have "be_sum bs mod 65535 = f" "f < 65535" by simp_all
    then have "be_sum bs + (65535 - f) = 65535 * (be_sum bs div 65535 + 1)"
      using mult_div_mod_eq [of 65535 "be_sum bs"] by simp
    then show ?thesis by (metis dvd_triv_left)
  qed
  moreover have "be_sum bs + (65535 - f) \<noteq> 0"
    using folded lbs len by auto
  moreover have "length data' = length data"
    using data' by (auto simp: st16_def dest: wr_length)
  ultimately show ?thesis
    using inet_cksum_zero_iff [of len data'] len sum by simp
qed

end
