(* ===== verification/Ip_Tx.thy ===== *)
theory Ip_Tx
  imports Arp Checksum
begin

text \<open>
  Sending IPv4 packets: \<open>ip_tx\<close> of \<open>src/ip.c\<close>. The next hop is the destination or the gateway; its
  hardware address comes from the ARP cache, and a packet whose next hop is unknown goes out to the
  broadcast address behind an ARP request.
\<close>

section \<open>Model\<close>

definition next_hop :: "netd_state_t \<Rightarrow> u32 \<Rightarrow> u32" where
  "next_hop n dst =
     (if n_gateway n \<noteq> 0 \<and> (dst AND n_netmask n) \<noteq> (n_ip n AND n_netmask n)
      then n_gateway n else dst)"

definition ip_dst_mac ::
  "'w kernel \<Rightarrow> u32 \<Rightarrow> 'w machine \<Rightarrow> (u8 list \<times> 'w machine) option" where
  "ip_dst_mac K dst s =
     (let nexthop = next_hop (g_net s) dst in
      if nexthop = IP_BCAST \<or> dst = IP_BCAST then Some (replicate 6 0xff, s)
      else (case arp_lookup K nexthop s of
              (Some m, s) \<Rightarrow> Some (m, s)
            | (None, s) \<Rightarrow> do {
                (_, s) \<leftarrow> arp_request K nexthop s;
                Some (replicate 6 0xff, s)
              }))"

text \<open>The frame array is not initialised; \<open>ip\<close> points at its byte 14.\<close>

definition ip_tx ::
  "'w kernel \<Rightarrow> u32 \<Rightarrow> u8 \<Rightarrow> u8 list \<Rightarrow> u16 \<Rightarrow> 'w machine \<Rightarrow> (int \<times> 'w machine) option" where
  "ip_tx K dst proto payload plen s = do {
     (dst_mac, s) \<leftarrow> ip_dst_mac K dst s;
     let total_len = 20 + plen;
     let frame = junk K s (14 + 20 + 1500);
     mac \<leftarrow> rd (n_mac (g_net s)) 0 6;
     frame \<leftarrow> wr 0 dst_mac frame;
     frame \<leftarrow> wr 6 mac frame;
     frame \<leftarrow> st16 12 (htons ETHERTYPE_IP) frame;
     frame \<leftarrow> wr 14 (replicate 20 0) frame;
     frame \<leftarrow> st8 14 0x45 frame;
     frame \<leftarrow> st8 15 0 frame;
     frame \<leftarrow> st16 16 (htons total_len) frame;
     frame \<leftarrow> st16 18 (htons (g_ip_id s)) frame;
     let s = s\<lparr>g_ip_id := g_ip_id s + 1\<rparr>;
     frame \<leftarrow> st16 20 0 frame;
     frame \<leftarrow> st8 22 64 frame;
     frame \<leftarrow> st8 23 proto frame;
     frame \<leftarrow> st32 26 (htonl (n_ip (g_net s))) frame;
     frame \<leftarrow> st32 30 (htonl dst) frame;
     ip \<leftarrow> adv frame 14;
     ck \<leftarrow> inet_cksum ip 20;
     frame \<leftarrow> st16 24 (htons ck) frame;
     bs \<leftarrow> rd payload 0 (unat plen);
     frame \<leftarrow> wr 34 bs frame;
     driver_tx K frame (14 + 20 + ucast plen) s
   }"

section \<open>The packet sent\<close>

text \<open>The IPv4 header with a zero checksum field, and with the checksum stored.\<close>

definition ip_header0 :: "u16 \<Rightarrow> u16 \<Rightarrow> u8 \<Rightarrow> u32 \<Rightarrow> u32 \<Rightarrow> u8 list" where
  "ip_header0 total_len ident proto src dst =
     [0x45, 0] @ be16 total_len @ be16 ident @ [0, 0, 64, proto, 0, 0] @ be32 src @ be32 dst"

definition ip_header :: "u16 \<Rightarrow> u16 \<Rightarrow> u8 \<Rightarrow> u32 \<Rightarrow> u32 \<Rightarrow> u8 list" where
  "ip_header total_len ident proto src dst =
     [0x45, 0] @ be16 total_len @ be16 ident @ [0, 0, 64, proto] @
     be16 (the (inet_cksum (ip_header0 total_len ident proto src dst) 20)) @ be32 src @ be32 dst"

definition ip_frame ::
  "u8 list \<Rightarrow> u8 list \<Rightarrow> u16 \<Rightarrow> u8 \<Rightarrow> u32 \<Rightarrow> u32 \<Rightarrow> u8 list \<Rightarrow> u8 list" where
  "ip_frame dst_mac mac ident proto src dst payload =
     dst_mac @ mac @ be16 ETHERTYPE_IP @
     ip_header (of_nat (20 + length payload)) ident proto src dst @ payload"

lemma ip_header_length [simp]: "length (ip_header total_len ident proto src dst) = 20"
  by (simp add: ip_header_def)

lemma ip_header0_length [simp]: "length (ip_header0 total_len ident proto src dst) = 20"
  by (simp add: ip_header0_def)

lemma inet_cksum_prefix: "len \<le> length xs \<Longrightarrow> inet_cksum (xs @ ys) len = inet_cksum xs len"
  by (simp add: inet_cksum_def rd_def)

lemma inet_cksum_defined: "len \<le> length xs \<Longrightarrow> \<exists>c. inet_cksum xs len = Some c"
  by (simp add: inet_cksum_def rd_def)

text \<open>Every header that goes out has a checksum that verifies.\<close>

lemma ip_header_verifies: "inet_cksum (ip_header total_len ident proto src dst) 20 = Some 0"
proof -
  let ?h = "ip_header0 total_len ident proto src dst"
  obtain c where c: "inet_cksum ?h 20 = Some c" using inet_cksum_defined [of 20 ?h] by auto
  have "ip_header total_len ident proto src dst =
      [0x45, 0] @ be16 total_len @ be16 ident @ [0, 0, 64, proto] @ be16 c @ be32 src @ be32 dst"
    by (simp only: ip_header_def c option.sel)
  then have st: "st16 10 (htons c) ?h = Some (ip_header total_len ident proto src dst)"
    by (simp add: st16_def wire_simps wr_def ip_header0_def)
  have z: "take 2 (drop 10 ?h) = [0, 0]" by (simp add: ip_header0_def be16_def numeral_2_eq_2)
  show ?thesis by (rule inet_cksum_verifies [OF _ _ _ _ z c st]) simp_all
qed

lemma ip_tx_eq:
  assumes mac: "length (n_mac (g_net s)) = 6"
    and len: "unat plen \<le> length payload" "unat plen \<le> 1466"
    and dst: "ip_dst_mac K dst s = Some (dst_mac, s1)" "length dst_mac = 6"
    and s1: "n_mac (g_net s1) = n_mac (g_net s)"
  shows "ip_tx K dst proto payload plen s =
    send_frame K (ip_frame dst_mac (n_mac (g_net s)) (g_ip_id s1) proto (n_ip (g_net s1)) dst
        (take (unat plen) payload))
      (s1\<lparr>g_ip_id := g_ip_id s1 + 1\<rparr>)"
proof -
  let ?m = "n_mac (g_net s)" and ?p = "take (unat plen) payload" and ?s2 = "s1\<lparr>g_ip_id := g_ip_id s1 + 1\<rparr>"
  let ?f = "ip_frame dst_mac ?m (g_ip_id s1) proto (n_ip (g_net s1)) dst ?p"
  let ?h = "ip_header0 (20 + plen) (g_ip_id s1) proto (n_ip (g_net s1)) dst"
  have lp: "length ?p = unat plen" "unat plen \<le> 1500" using len by simp_all
  obtain ck where ck: "inet_cksum ?h 20 = Some ck" using inet_cksum_defined [of 20 ?h] by auto
  obtain j where j: "junk K s1 1534 = j" "length j = 1534" using length_junk by blast
  have e: "j = filled [] j" by (simp add: filled_def)
  have len32: "unat (14 + 20 + ucast plen :: u32) = 34 + unat plen"
    using unat_u16_less [of plen] by (simp add: unat_word_ariths unsigned_ucast_eq take_bit_nat_def)
  let ?h1 = "69 # 0 # be16 (20 + plen) @ be16 (g_ip_id s1) @ le16 0 @ 64 # proto # replicate 2 0 @
      be32 (n_ip (g_net s1)) @ be32 dst"
  have "le16 0 = [0, 0]" "replicate 2 (0 :: u8) = [0, 0]"
    by (simp_all add: le16_def numeral_2_eq_2)
  then have h1: "?h1 = ?h" by (simp add: ip_header0_def)
  have ck1: "inet_cksum (drop 14 (filled (dst_mac @ ?m @ be16 2048 @ ?h1) r)) 20 = Some ck" for r
    using ck mac dst(2) by (simp add: filled_def h1 inet_cksum_prefix del: append_Cons)
  have frame: "filled (dst_mac @ ?m @ be16 2048 @ 69 # 0 # be16 (20 + plen) @ be16 (g_ip_id s1) @
      le16 0 @ 64 # proto # be16 ck @ be32 (n_ip (g_net s1)) @ be32 dst @ ?p) r = ?f @ r" for r
    using ck by (simp add: filled_def ip_frame_def ip_header_def lp le16_def del: length_take)
  have tx: "driver_tx K (?f @ r) (34 + ucast plen) ?s2 = send_frame K ?f ?s2" for r
    using driver_tx_eq [of "34 + ucast plen" "?f @ r" K ?s2] len len32 mac dst(2)
    by (simp add: ip_frame_def)
  show ?thesis
    unfolding ip_tx_def dst(1) Let_def
    by (simp add: rd_def mac s1 j len(1), subst e)
      (simp add: mac dst j len st8_def st16_def st32_def wr_filled_clear mem_simps wire_simps ck1 lp frame tx
        del: length_take)
qed

section \<open>Next hop and its hardware address\<close>

definition on_link :: "netd_state_t \<Rightarrow> u32 \<Rightarrow> bool" where
  "on_link n dst \<longleftrightarrow> dst AND n_netmask n = n_ip n AND n_netmask n"

lemma next_hop_cases:
  "next_hop n dst = (if n_gateway n = 0 \<or> on_link n dst then dst else n_gateway n)"
  by (auto simp: next_hop_def on_link_def)

text \<open>\<open>link_wf\<close>: the adapter has its 6-byte address and the cache is well formed.\<close>

definition link_wf :: "netd_state_t \<Rightarrow> bool" where
  "link_wf n \<longleftrightarrow> length (n_mac n) = 6 \<and> arp_wf (n_arp_cache n)"

lemma arp_only_link_wf: "arp_only s s' \<Longrightarrow> link_wf (g_net s) \<Longrightarrow> link_wf (g_net s')"
  by (auto simp: link_wf_def elim: arp_onlyE)

lemma arp_only_net: "arp_only s s' \<Longrightarrow>
  n_mac (g_net s') = n_mac (g_net s) \<and> n_ip (g_net s') = n_ip (g_net s) \<and> n_fd (g_net s') = n_fd (g_net s)"
  by (auto elim: arp_onlyE)

lemma ip_dst_mac_only:
  assumes wf: "link_wf (g_net s)" and run: "ip_dst_mac K dst s = Some (m, s')"
  shows "length m = 6" "arp_only s s'"
proof -
  obtain r s1 where l: "arp_lookup K (next_hop (g_net s) dst) s = (r, s1)" by fastforce
  have awf: "arp_wf (n_arp_cache (g_net s))" using wf by (simp add: link_wf_def)
  note only = arp_lookup_only [OF awf l]
  have "length m = 6 \<and> arp_only s s'"
  proof (cases "next_hop (g_net s) dst = IP_BCAST \<or> dst = IP_BCAST")
    case True
    with run show ?thesis by (auto simp: ip_dst_mac_def Let_def)
  next
    case False
    show ?thesis
    proof (cases r)
      case None
      with run False l have "m = replicate 6 0xff" "arp_request K (next_hop (g_net s) dst) s1 = Some ((), s')"
        by (auto simp: ip_dst_mac_def elim!: run_elims)
      with only(1) show ?thesis
        by (auto simp: arp_request_def dest!: arp_send_statics intro: arp_only_trans)
    next
      case (Some m')
      with run False l only show ?thesis by (auto simp: ip_dst_mac_def)
    qed
  qed
  then show "length m = 6" "arp_only s s'" by simp_all
qed

lemma ip_dst_mac_returns:
  assumes live: "live K \<mu>" and wf: "link_wf (g_net s)"
  obtains m s' where "ip_dst_mac K dst s = Some (m, s')" "length m = 6" "arp_only s s'"
proof -
  obtain r s1 where l: "arp_lookup K (next_hop (g_net s) dst) s = (r, s1)" by fastforce
  have "arp_only s s1" using arp_lookup_only [OF _ l] wf by (simp add: link_wf_def)
  then have mac: "length (n_mac (g_net s1)) = 6" using wf arp_only_net [of s s1] by (simp add: link_wf_def)
  obtain s2 where "arp_request K (next_hop (g_net s) dst) s1 = Some ((), s2)"
    unfolding arp_request_def by (rule arp_send_returns [OF live mac]) (auto simp: bcast_def)
  with l have "\<exists>m s'. ip_dst_mac K dst s = Some (m, s')"
    by (auto simp: ip_dst_mac_def Let_def split: option.split)
  then show ?thesis using that ip_dst_mac_only [OF wf] by blast
qed

text \<open>A broadcast packet goes to the broadcast address, without a look at the cache.\<close>

lemma ip_dst_mac_bcast [simp]: "ip_dst_mac K 0xFFFFFFFF s = Some (replicate 6 0xff, s)"
  by (simp add: ip_dst_mac_def Let_def)

text \<open>
  A packet on the wire: the hardware address it is sent to is that of the next hop, if the cache knows one at
  the time \<open>t\<close>; otherwise a request for the next hop goes out first, and the packet is broadcast. The next hop
  is the destination on the own network, or without a gateway, and the gateway for any other.
\<close>

definition known_mac :: "arp_entry_t list \<Rightarrow> u32 \<Rightarrow> u64 \<Rightarrow> u8 list option" where
  "known_mac c ip t =
     (case arp_view c ip of None \<Rightarrow> None | Some (m, ts) \<Rightarrow> if t - ts < ARP_TIMEOUT_MS then Some m else None)"

lemma arp_lookup_known:
  assumes ok: "arp_ok (n_arp_cache (g_net s))" and t: "time_ms K s = (t, s1)"
  shows "fst (arp_lookup K ip s) = known_mac (n_arp_cache (g_net s)) ip t"
    "known_mac (n_arp_cache (g_net s)) ip t = Some m \<Longrightarrow> arp_lookup K ip s = (Some m, s1)"
  using arp_lookup_result [OF ok, of K ip] arp_lookup_eq [OF ok, of K ip] t
  by (auto simp: known_mac_def arp_view_def split: option.splits if_splits)

lemma arp_lookup_ip_id:
  assumes "arp_ok (n_arp_cache (g_net s))" "arp_lookup K ip s = (r, s')"
  shows "g_ip_id s' = g_ip_id s"
proof -
  obtain t s1 where t: "time_ms K s = (t, s1)" by fastforce
  with assms(2) time_ms_net [OF t] show ?thesis
    by (auto simp: arp_lookup_eq [OF assms(1)] Let_def set_arp_def set_net_def split: option.splits if_splits)
qed

lemma ip_tx_hop:
  assumes wf: "link_wf (g_net s)" and len: "unat plen \<le> length payload" "unat plen \<le> 1466"
    and hop: "hop = (if n_gateway (g_net s) = 0 \<or> on_link (g_net s) dst then dst else n_gateway (g_net s))"
    and t: "time_ms K s = (t, s1)"
    and send: "\<And>m s'. send m s' = send_frame K (ip_frame m (n_mac (g_net s)) (g_ip_id s) proto (n_ip (g_net s)) dst
      (take (unat plen) payload)) (s'\<lparr>g_ip_id := g_ip_id s + 1\<rparr>)"
  shows "ip_tx K dst proto payload plen s =
    (if dst = IP_BCAST \<or> hop = IP_BCAST then send bcast s
     else case known_mac (n_arp_cache (g_net s)) hop t of
       Some m \<Rightarrow> send m s1
     | None \<Rightarrow> do {
         (_, s2) \<leftarrow> send_frame K (arp_frame ARP_OP_REQUEST (n_mac (g_net s)) bcast (n_ip (g_net s)) hop)
           (snd (arp_lookup K hop s));
         send bcast s2
       })"
proof -
  have mac: "length (n_mac (g_net s)) = 6" and ok: "arp_ok (n_arp_cache (g_net s))"
    and awf: "arp_wf (n_arp_cache (g_net s))" using wf by (simp_all add: link_wf_def arp_wf_def)
  have nh: "next_hop (g_net s) dst = hop" unfolding hop by (rule next_hop_cases)
  have go: "ip_tx K dst proto payload plen s = send m s'"
    if "ip_dst_mac K dst s = Some (m, s')" "g_ip_id s' = g_ip_id s" for m s'
    using ip_tx_eq [OF mac len that(1)] ip_dst_mac_only [OF wf that(1)] arp_only_net [of s s'] that(2)
    by (simp add: send)
  show ?thesis
  proof (cases "dst = IP_BCAST \<or> hop = IP_BCAST")
    case True
    then have "ip_dst_mac K dst s = Some (bcast, s)" by (auto simp: ip_dst_mac_def nh bcast_def Let_def)
    with True go show ?thesis by auto
  next
    case False
    show ?thesis
    proof (cases "known_mac (n_arp_cache (g_net s)) hop t")
      case (Some m)
      have "ip_dst_mac K dst s = Some (m, s1)"
        using False arp_lookup_known(2) [OF ok t Some] by (simp add: ip_dst_mac_def nh)
      from go [OF this] time_ms_statics [OF t] show ?thesis using False Some by (simp add: same_statics_def)
    next
      case None
      obtain sl where l: "arp_lookup K hop s = (None, sl)"
        using arp_lookup_known(1) [OF ok t, of hop] None by (metis prod.collapse)
      have id: "g_ip_id sl = g_ip_id s" using arp_lookup_ip_id [OF ok l] .
      let ?req = "send_frame K (arp_frame ARP_OP_REQUEST (n_mac (g_net s)) bcast (n_ip (g_net s)) hop) sl"
      have net: "n_mac (g_net sl) = n_mac (g_net s)" "n_ip (g_net sl) = n_ip (g_net s)"
        using arp_only_net arp_lookup_only(1) [OF awf l] by blast+
      have r: "arp_request K hop sl = map_option (\<lambda>(_, s). ((), s)) ?req"
        using arp_send_eq [of sl bcast K ARP_OP_REQUEST "n_ip (g_net s)" hop] mac net
        by (simp add: arp_request_def bcast_def)
      have d: "ip_dst_mac K dst s = map_option (\<lambda>(_, s2). (bcast, s2)) ?req"
        using False l r by (cases ?req) (auto simp: ip_dst_mac_def nh bcast_def)
      show ?thesis
      proof (cases ?req)
        case (Some r')
        then obtain st s2 where s2: "?req = Some (st, s2)" by (cases r') auto
        with r have "arp_request K hop sl = Some ((), s2)" by simp
        then have "same_statics sl s2" unfolding arp_request_def by (rule arp_send_statics)
        with id have "g_ip_id s2 = g_ip_id s" by (simp add: same_statics_def)
        with go d s2 False None l show ?thesis by simp
      next
        case r: None
        with d False None l show ?thesis by (simp add: ip_tx_def)
      qed
    qed
  qed
qed

section \<open>What sending does to the state\<close>

text \<open>
  \<open>tx_only s s'\<close>: of the global state only the cache has changed, and it is still well formed if it
  was. (The identification counter changes too.)
\<close>

definition tx_only :: "'w machine \<Rightarrow> 'w machine \<Rightarrow> bool" where
  "tx_only s s' \<longleftrightarrow> (\<exists>c. g_net s' = g_net s\<lparr>n_arp_cache := c\<rparr> \<and>
     (arp_wf (n_arp_cache (g_net s)) \<longrightarrow> arp_wf c))"

lemma tx_onlyE:
  assumes "tx_only s s'"
  obtains c where "g_net s' = g_net s\<lparr>n_arp_cache := c\<rparr>" "arp_wf (n_arp_cache (g_net s)) \<Longrightarrow> arp_wf c"
  using assms by (auto simp: tx_only_def)

lemma tx_only_arp [intro]: "arp_only s s' \<Longrightarrow> tx_only s s'"
  by (auto simp: tx_only_def elim: arp_onlyE)

lemma tx_only_refl [simp, intro]: "tx_only s s"
  by (rule tx_only_arp) simp

lemma tx_only_trans [trans]: "tx_only s t \<Longrightarrow> tx_only t u \<Longrightarrow> tx_only s u"
  by (elim tx_onlyE) (auto simp: tx_only_def)

lemma tx_only_statics: "same_statics s s' \<Longrightarrow> tx_only s s'"
  by blast

lemma tx_only_link_wf: "tx_only s s' \<Longrightarrow> link_wf (g_net s) \<Longrightarrow> link_wf (g_net s')"
  by (auto simp: link_wf_def elim: tx_onlyE)

lemma ip_tx_only:
  assumes wf: "link_wf (g_net s)" and run: "ip_tx K dst proto payload plen s = Some (st, s')"
  shows "tx_only s s'"
proof -
  from run obtain m s1 frame where d: "ip_dst_mac K dst s = Some (m, s1)"
    and tx: "driver_tx K frame (14 + 20 + ucast plen) (s1\<lparr>g_ip_id := g_ip_id s1 + 1\<rparr>) = Some (st, s')"
    unfolding ip_tx_def Let_def by (elim run_bind_pairE run_bindE)
  have "tx_only s s1" using ip_dst_mac_only [OF wf d] by blast
  also have "tx_only s1 (s1\<lparr>g_ip_id := g_ip_id s1 + 1\<rparr>)"
    by (auto simp: tx_only_def intro: exI [of _ "n_arp_cache (g_net s1)"])
  also have "tx_only (s1\<lparr>g_ip_id := g_ip_id s1 + 1\<rparr>) s'"
    using tx by (intro tx_only_statics driver_tx_statics)
  finally show ?thesis .
qed

text \<open>A payload of at most 1466 bytes is sent; a longer one overruns the driver's packet array.\<close>

lemma ip_tx_returns:
  assumes live: "live K \<mu>" and wf: "link_wf (g_net s)"
    and len: "unat plen \<le> length payload" "unat plen \<le> 1466"
  obtains st s' where "ip_tx K dst proto payload plen s = Some (st, s')" "tx_only s s'"
proof -
  obtain m s1 where d: "ip_dst_mac K dst s = Some (m, s1)" "length m = 6" "arp_only s s1"
    by (rule ip_dst_mac_returns [OF live wf])
  have mac: "length (n_mac (g_net s)) = 6" using wf by (simp add: link_wf_def)
  obtain st s' where "ip_tx K dst proto payload plen s = Some (st, s')"
    using ip_tx_eq [OF mac len d(1,2)] arp_only_net [OF d(3)] send_frame_returns [OF live] by metis
  then show ?thesis using that ip_tx_only [OF wf] by blast
qed

lemma ip_tx_overflow:
  assumes "1466 < unat plen"
  shows "ip_tx K dst proto payload plen s = None"
proof (rule ccontr)
  assume "ip_tx K dst proto payload plen s \<noteq> None"
  then obtain st s' where run: "ip_tx K dst proto payload plen s = Some (st, s')" by fastforce
  then obtain frame s1 where "driver_tx K frame (14 + 20 + ucast plen) s1 = Some (st, s')"
    unfolding ip_tx_def Let_def by (elim run_bind_pairE run_bindE)
  moreover have "unat (14 + 20 + ucast plen :: u32) = 34 + unat plen"
    using unat_u16_less [of plen] by (simp add: unat_word_ariths unsigned_ucast_eq take_bit_nat_def)
  then have "1500 < unat (14 + 20 + ucast plen :: u32)" using assms by linarith
  then have "driver_tx K frame (14 + 20 + ucast plen) s1 = None" by (rule driver_tx_overflow)
  ultimately show False by simp
qed

end
