(* ===== verification/Icmp.thy ===== *)
theory Icmp
  imports Ip_Tx
begin

text \<open>
  \<open>src/icmp.c\<close>: the answer to an echo request, the match of an echo reply against the outstanding
  ping, and the echo request of a ping. The outstanding ping is \<open>n_ping_id\<close>, \<open>n_ping_seq\<close>,
  \<open>n_ping_replied\<close>, \<open>n_ping_reply_ip\<close>.
\<close>

section \<open>Model\<close>

definition icmp_rx ::
  "'w kernel \<Rightarrow> u32 \<Rightarrow> u8 list \<Rightarrow> int \<Rightarrow> 'w machine \<Rightarrow> (unit \<times> 'w machine) option" where
  "icmp_rx K src data len s =
     (if len < 8 then Some ((), s)
      else do {
        typ \<leftarrow> ld8 data 0;
        ident \<leftarrow> ld16 data 4;
        seqno \<leftarrow> ld16 data 6;
        let ident = ntohs ident;
        let seqno = ntohs seqno;
        if typ = ICMP_ECHO_REQ then do {
          let reply = junk K s 1500;
          let len = (if len > 1500 then 1500 else len);
          bs \<leftarrow> rd data 0 (nat len);
          reply \<leftarrow> wr 0 bs reply;
          reply \<leftarrow> st8 0 ICMP_ECHO_REP reply;
          reply \<leftarrow> st8 1 0 reply;
          reply \<leftarrow> st16 2 0 reply;
          ck \<leftarrow> inet_cksum reply (nat len);
          reply \<leftarrow> st16 2 (htons ck) reply;
          (_, s) \<leftarrow> ip_tx K src IPPROTO_ICMP reply (of_int len) s;
          Some ((), s)
        }
        else if typ = ICMP_ECHO_REP then
          if ident = n_ping_id (g_net s) \<and> seqno = n_ping_seq (g_net s)
          then Some ((), set_net (g_net s\<lparr>n_ping_reply_ip := src, n_ping_replied := True\<rparr>) s)
          else Some ((), s)
        else Some ((), s)
      })"

definition NETDPING :: "u8 list" where
  "NETDPING = [78, 69, 84, 68, 80, 73, 78, 71]"

definition icmp_ping ::
  "'w kernel \<Rightarrow> u32 \<Rightarrow> u16 \<Rightarrow> u16 \<Rightarrow> 'w machine \<Rightarrow> (int \<times> 'w machine) option" where
  "icmp_ping K dst ident seqno s = do {
     let pkt = replicate 16 0;
     pkt \<leftarrow> st8 0 ICMP_ECHO_REQ pkt;
     pkt \<leftarrow> st8 1 0 pkt;
     pkt \<leftarrow> st16 4 (htons ident) pkt;
     pkt \<leftarrow> st16 6 (htons seqno) pkt;
     pkt \<leftarrow> wr 8 NETDPING pkt;
     ck \<leftarrow> inet_cksum pkt 16;
     pkt \<leftarrow> st16 2 (htons ck) pkt;
     let s = set_net (g_net s\<lparr>n_ping_id := ident, n_ping_seq := seqno, n_ping_replied := False\<rparr>) s;
     ip_tx K dst IPPROTO_ICMP pkt 16 s
   }"

section \<open>Packets\<close>

text \<open>An ICMP message with its checksum: type and code, the checksum, the rest.\<close>

definition icmp_msg :: "u8 \<Rightarrow> u8 list \<Rightarrow> u8 list" where
  "icmp_msg typ rest =
     [typ, 0] @ be16 (the (inet_cksum ([typ, 0, 0, 0] @ rest) (4 + length rest))) @ rest"

definition ping_msg :: "u16 \<Rightarrow> u16 \<Rightarrow> u8 list" where
  "ping_msg ident seqno = icmp_msg ICMP_ECHO_REQ (be16 ident @ be16 seqno @ NETDPING)"

lemma icmp_msg_length [simp]: "length (icmp_msg typ rest) = 4 + length rest"
  by (simp add: icmp_msg_def)

lemma icmp_msg_parts:
  "icmp_msg typ rest ! 0 = typ" "icmp_msg typ rest ! Suc 0 = 0" "drop 4 (icmp_msg typ rest) = rest"
  by (simp_all add: icmp_msg_def be16_def)

lemma NETDPING_length [simp]: "length NETDPING = 8"
  by (simp add: NETDPING_def)

lemma icmp_msg_store:
  assumes "inet_cksum ([typ, 0, 0, 0] @ rest) (4 + length rest) = Some ck"
  shows "wr 2 (be16 ck) ([typ, 0, 0, 0] @ rest @ r) = Some (icmp_msg typ rest @ r)"
  using assms by (simp add: icmp_msg_def wr_def)

text \<open>Every message that goes out has a checksum that verifies.\<close>

lemma icmp_msg_verifies:
  assumes "4 + length rest \<le> 65536"
  shows "inet_cksum (icmp_msg typ rest) (4 + length rest) = Some 0"
proof -
  let ?m = "[typ, 0, 0, 0] @ rest"
  obtain ck where ck: "inet_cksum ?m (4 + length rest) = Some ck"
    using inet_cksum_defined [of "4 + length rest" ?m] by auto
  have st: "st16 2 (htons ck) ?m = Some (icmp_msg typ rest)"
    using icmp_msg_store [OF ck, of "[]"] by (simp add: st16_def wire_simps)
  have z: "take 2 (drop 2 ?m) = [0, 0]" by (simp add: numeral_2_eq_2)
  show ?thesis
    by (rule inet_cksum_verifies [OF _ _ _ _ z ck st]) (use assms in simp_all)
qed

section \<open>Echo\<close>

lemma ip_tx_take:
  "unat plen \<le> length payload \<Longrightarrow>
   ip_tx K dst proto payload plen s = ip_tx K dst proto (take (unat plen) payload) plen s"
  by (simp add: ip_tx_def rd_def)

text \<open>The answer to an echo request is the same message with the type and checksum of a reply.\<close>

lemma icmp_rx_request:
  assumes len: "8 \<le> len" "len \<le> 1466" "nat len \<le> length data" and req: "data ! 0 = ICMP_ECHO_REQ"
  shows "icmp_rx K src data len s =
    map_option (\<lambda>(_, s). ((), s))
      (ip_tx K src IPPROTO_ICMP (icmp_msg ICMP_ECHO_REP (drop 4 (take (nat len) data))) (of_int len) s)"
proof -
  define n where "n = nat len"
  have n: "8 \<le> n" "n \<le> 1466" "n \<le> length data" "len = int n" using len by (auto simp: n_def)
  define rest where "rest = drop 4 (take n data)"
  have lrest: "4 + length rest = n" using n by (simp add: rest_def)
  obtain d0 d1 d2 d3 where data: "take n data = [d0, d1, d2, d3] @ rest"
  proof -
    have "take 4 (take n data) = [data ! 0, data ! 1, data ! 2, data ! 3]"
      using n take_four_drop [of 0 "take n data"] by (simp add: numeral_2_eq_2)
    then have "take n data = [data ! 0, data ! 1, data ! 2, data ! 3] @ rest"
      unfolding rest_def by (metis append_take_drop_id)
    with that show ?thesis by blast
  qed
  obtain j where j: "junk K s 1500 = j" "length j = 1500" using length_junk by blast
  obtain ck where ck: "inet_cksum ([0, 0, 0, 0] @ rest) (4 + length rest) = Some ck"
    using inet_cksum_defined [of "4 + length rest" "[0, 0, 0, 0] @ rest"] by auto
  have rds: "ld8 data 0 = Some 8" "\<exists>i. ld16 data 4 = Some i" "\<exists>q. ld16 data 6 = Some q"
    "rd data 0 n = Some (take n data)"
    using n req by (auto simp: ld8_def ld16_def rd_def)
  have u: "unat (word_of_nat n :: u16) = n"
    using n by (simp add: unat_of_nat take_bit_nat_eq_self_iff)
  have ckr: "inet_cksum (0 # 0 # 0 # 0 # rest @ r) n = Some ck" for r
    using ck inet_cksum_prefix [of n "[0, 0, 0, 0] @ rest" r] lrest by simp
  have tx: "ip_tx K src 1 (icmp_msg 0 rest @ r) (word_of_nat n) s =
      ip_tx K src 1 (icmp_msg 0 rest) (word_of_nat n) s" for r
    using lrest u by (subst ip_tx_take) simp_all
  have "wr 0 (take n data) j = Some (take n data @ drop n j)" using n j by (simp add: wr_def)
  note first = this [unfolded data, simplified]
  have steps: "wr 0 [0] (d0 # x) = Some (0 # x)" "wr (Suc 0) [0] (0 # d1 # x) = Some (0 # 0 # x)"
    "wr 2 (le16 0) (0 # 0 # d2 # d3 # x) = Some (0 # 0 # 0 # 0 # x)" for x
    by (auto simp: wr_def le16_def)
  have st: "wr 2 (be16 ck) (0 # 0 # 0 # 0 # rest @ drop n j) = Some (icmp_msg 0 rest @ drop n j)"
    using icmp_msg_store [OF ck, of "drop n j"] by simp
  show ?thesis
    using rds [unfolded data] n unfolding icmp_rx_def rest_def [symmetric] n_def [symmetric]
    by (auto simp: Let_def j st8_def st16_def wire_simps first steps ckr st tx
        intro: option.exhaust [of "ip_tx K src 1 (icmp_msg 0 rest) (word_of_nat n) s"])
qed

text \<open>A request of 1467 to 1500 bytes, or more, is answered with a frame the driver has no room for.\<close>

lemma icmp_rx_overflow:
  assumes len: "1466 < len" and req: "data ! 0 = ICMP_ECHO_REQ"
  shows "icmp_rx K src data len s = None"
proof (cases "ld8 data 0")
  case None
  with len show ?thesis by (simp add: icmp_rx_def)
next
  case (Some t)
  define l where "l = (if len > 1500 then 1500 else len)"
  then have "1466 < l" "l \<le> 1500" using len by auto
  then have "1466 < unat (of_int l :: u16)"
    by (simp add: unsigned_of_int take_bit_int_eq_self)
  then have over: "ip_tx K src p pl (of_int l) s = None" for p pl by (rule ip_tx_overflow)
  have "t = 8" using Some req by (simp add: ld8_def split: if_splits)
  then show ?thesis
    using len Some unfolding icmp_rx_def Let_def l_def [symmetric] by (simp add: over)
qed

text \<open>An echo reply answers the outstanding ping when identifier and sequence number both match.\<close>

lemma icmp_rx_reply:
  assumes len: "8 \<le> len" "8 \<le> length data" and rep: "data ! 0 = ICMP_ECHO_REP"
  shows "icmp_rx K src data len s = Some ((),
    if of_be16 (take 2 (drop 4 data)) = n_ping_id (g_net s) \<and>
       of_be16 (take 2 (drop 6 data)) = n_ping_seq (g_net s)
    then set_net (g_net s\<lparr>n_ping_reply_ip := src, n_ping_replied := True\<rparr>) s else s)"
  using assms by (auto simp: icmp_rx_def ld8_def ld16_def rd_def wire_simps Let_def)

lemma icmp_rx_other:
  assumes "8 \<le> length data" "data ! 0 \<noteq> ICMP_ECHO_REQ" "data ! 0 \<noteq> ICMP_ECHO_REP"
  shows "icmp_rx K src data len s = Some ((), s)"
  using assms by (auto simp: icmp_rx_def ld8_def ld16_def rd_def Let_def)

section \<open>Ping\<close>

lemma icmp_ping_eq:
  "icmp_ping K dst ident seqno s =
     ip_tx K dst IPPROTO_ICMP (ping_msg ident seqno) 16
       (set_net (g_net s\<lparr>n_ping_id := ident, n_ping_seq := seqno, n_ping_replied := False\<rparr>) s)"
proof -
  let ?rest = "be16 ident @ be16 seqno @ NETDPING"
  obtain ck where ck: "inet_cksum ([8, 0, 0, 0] @ ?rest) (4 + length ?rest) = Some ck"
    using inet_cksum_defined [of "4 + length ?rest" "[8, 0, 0, 0] @ ?rest"] by auto
  have e: "replicate 16 0 = filled [] (replicate 16 0)" by (simp add: filled_def)
  have z: "replicate 2 (0 :: u8) = [0, 0]" by (simp add: numeral_2_eq_2)
  have msg: "8 # 0 # be16 ck @ ?rest = ping_msg ident seqno"
    using ck by (simp add: ping_msg_def icmp_msg_def)
  have build: "wr 0 [8] (replicate 16 0) = Some (filled [8] (replicate 15 0))"
    by (subst e) (simp add: mem_simps)
  show ?thesis
    using ck msg
    by (simp add: icmp_ping_def Let_def st8_def build)
      (simp add: st16_def mem_simps wire_simps z, simp add: filled_def z)
qed

text \<open>
  The answer to a ping completes it: a host that receives the request sends a message back, and the
  sender of the ping, receiving that message while the ping is outstanding, records who answered.
\<close>

lemma ping_echo:
  assumes a: "n_ping_id (g_net a) = ident" "n_ping_seq (g_net a) = seqno"
  shows "\<exists>answer. length answer = 16 \<and> inet_cksum answer 16 = Some 0 \<and>
    icmp_rx K src (ping_msg ident seqno @ pad') 16 b =
      map_option (\<lambda>(_, s). ((), s)) (ip_tx K src IPPROTO_ICMP answer 16 b) \<and>
    icmp_rx K' src' (answer @ pad) 16 a =
      Some ((), set_net (g_net a\<lparr>n_ping_reply_ip := src', n_ping_replied := True\<rparr>) a)"
proof -
  let ?rest = "be16 ident @ be16 seqno @ NETDPING"
  let ?ans = "icmp_msg ICMP_ECHO_REP ?rest"
  let ?req = "ping_msg ident seqno @ pad'"
  have req: "?req ! 0 = ICMP_ECHO_REQ" "take 16 ?req = ping_msg ident seqno" "16 \<le> length ?req"
    by (simp_all add: ping_msg_def icmp_msg_def)
  have "icmp_rx K src ?req 16 b =
      map_option (\<lambda>(_, s). ((), s)) (ip_tx K src IPPROTO_ICMP ?ans 16 b)"
    using icmp_rx_request [of 16 ?req K src b] req by (simp add: ping_msg_def icmp_msg_parts)
  moreover have "inet_cksum ?ans 16 = Some 0"
    using icmp_msg_verifies [of ?rest ICMP_ECHO_REP] by simp
  moreover have "icmp_rx K' src' (?ans @ pad) 16 a =
      Some ((), set_net (g_net a\<lparr>n_ping_reply_ip := src', n_ping_replied := True\<rparr>) a)"
  proof -
    have "drop 4 (?ans @ pad) = ?rest @ pad" using icmp_msg_parts(3) [of ICMP_ECHO_REP ?rest] by simp
    moreover have "drop 6 (?ans @ pad) = drop 2 (drop 4 (?ans @ pad))" by simp
    ultimately have "take 2 (drop 4 (?ans @ pad)) = be16 ident" "take 2 (drop 6 (?ans @ pad)) = be16 seqno"
      by simp_all
    moreover have "(?ans @ pad) ! 0 = 0" by (simp add: icmp_msg_def)
    ultimately show ?thesis
      using a icmp_rx_reply [of 16 "?ans @ pad" K' src' a] by simp
  qed
  ultimately show ?thesis by (intro exI [of _ ?ans]) simp
qed

section \<open>What the operations do to the state\<close>

lemma icmp_rx_post:
  assumes wf: "link_wf (g_net s)" and run: "icmp_rx K src data len s = Some ((), s')"
  obtains c a b where
    "g_net s' = g_net s\<lparr>n_arp_cache := c, n_ping_reply_ip := a, n_ping_replied := b\<rparr>" "arp_wf c"
proof -
  have awf: "arp_wf (n_arp_cache (g_net s))" using wf by (simp add: link_wf_def)
  from run consider "s' = s" | "s' = set_net (g_net s\<lparr>n_ping_reply_ip := src, n_ping_replied := True\<rparr>) s"
    | p l st where "ip_tx K src IPPROTO_ICMP p l s = Some (st, s')"
    unfolding icmp_rx_def Let_def by (auto elim!: run_elims split: if_splits)
  then show ?thesis
  proof cases
    case 1
    with awf show ?thesis
      by (intro that [where c = "n_arp_cache (g_net s)" and a = "n_ping_reply_ip (g_net s)"
          and b = "n_ping_replied (g_net s)"]) simp_all
  next
    case 2
    with awf show ?thesis
      by (intro that [where c = "n_arp_cache (g_net s)" and a = src and b = True]) (simp_all add: set_net_def)
  next
    case 3
    then obtain c where "g_net s' = g_net s\<lparr>n_arp_cache := c\<rparr>" "arp_wf c"
      using ip_tx_only [OF wf] awf by (metis tx_onlyE)
    then show ?thesis
      by (intro that [where c = c and a = "n_ping_reply_ip (g_net s)" and b = "n_ping_replied (g_net s)"]) simp_all
  qed
qed

text \<open>A message that is in bounds is handled: its bytes are there and, if it asks for an answer, it is not too
  long to get one.\<close>

lemma icmp_rx_returns:
  assumes live: "live K \<mu>" and wf: "link_wf (g_net s)"
    and len: "nat len \<le> length data" "data ! 0 = ICMP_ECHO_REQ \<Longrightarrow> len \<le> 1466"
  obtains s' where "icmp_rx K src data len s = Some ((), s')"
proof (cases "len < 8")
  case True
  then show ?thesis by (intro that [of s]) (simp add: icmp_rx_def)
next
  case False
  then have l: "8 \<le> len" "8 \<le> length data" using len by auto
  consider "data ! 0 = ICMP_ECHO_REQ" | "data ! 0 = ICMP_ECHO_REP"
    | "data ! 0 \<noteq> ICMP_ECHO_REQ" "data ! 0 \<noteq> ICMP_ECHO_REP" by blast
  then show ?thesis
  proof cases
    case 1
    note le = len(2) [OF 1]
    let ?m = "icmp_msg ICMP_ECHO_REP (drop 4 (take (nat len) data))"
    have u: "unat (of_int len :: u16) = nat len"
      using l le by (simp add: unsigned_of_int take_bit_int_eq_self)
    have "unat (of_int len :: u16) \<le> length ?m" "unat (of_int len :: u16) \<le> 1466"
      unfolding u using l le len(1) by simp_all
    then obtain st s' where "ip_tx K src IPPROTO_ICMP ?m (of_int len) s = Some (st, s')"
      by (rule ip_tx_returns [OF live wf])
    with icmp_rx_request [OF l(1) le len(1) 1, of K src s] that show ?thesis by simp
  next
    case 2
    with icmp_rx_reply [OF l] that show ?thesis by blast
  next
    case 3
    with icmp_rx_other [OF l(2)] that show ?thesis by blast
  qed
qed

lemma icmp_ping_only:
  assumes wf: "link_wf (g_net s)" and run: "icmp_ping K dst ident seqno s = Some (st, s')"
  obtains c where "arp_wf c" "g_net s' =
    g_net s\<lparr>n_arp_cache := c, n_ping_id := ident, n_ping_seq := seqno, n_ping_replied := False\<rparr>"
proof -
  let ?s1 = "set_net (g_net s\<lparr>n_ping_id := ident, n_ping_seq := seqno, n_ping_replied := False\<rparr>) s"
  have wf1: "link_wf (g_net ?s1)" and awf: "arp_wf (n_arp_cache (g_net ?s1))"
    using wf by (simp_all add: link_wf_def set_net_def)
  have "ip_tx K dst IPPROTO_ICMP (ping_msg ident seqno) 16 ?s1 = Some (st, s')"
    using run by (simp only: icmp_ping_eq)
  then obtain c where c: "g_net s' = g_net ?s1\<lparr>n_arp_cache := c\<rparr>" "arp_wf c"
    using ip_tx_only [OF wf1] awf by (metis tx_onlyE)
  then show ?thesis by (intro that [of c]) (simp_all add: set_net_def)
qed

lemma icmp_ping_answered:
  assumes wf: "link_wf (g_net a)" and run: "icmp_ping K dst ident seqno a = Some (st, a')"
  shows "\<exists>answer. length answer = 16 \<and> inet_cksum answer 16 = Some 0 \<and>
    icmp_rx K2 src (ping_msg ident seqno @ pad') 16 b =
      map_option (\<lambda>(_, s). ((), s)) (ip_tx K2 src IPPROTO_ICMP answer 16 b) \<and>
    icmp_rx K' src' (answer @ pad) 16 a' =
      Some ((), set_net (g_net a'\<lparr>n_ping_reply_ip := src', n_ping_replied := True\<rparr>) a')"
proof (rule icmp_ping_only [OF wf run])
  fix c assume "g_net a' = g_net a\<lparr>n_arp_cache := c, n_ping_id := ident, n_ping_seq := seqno, n_ping_replied := False\<rparr>"
  then show ?thesis by (intro ping_echo) simp_all
qed

lemma ping_msg_verifies: "length (ping_msg ident seqno) = 16" "inet_cksum (ping_msg ident seqno) 16 = Some 0"
  using icmp_msg_verifies [of "be16 ident @ be16 seqno @ NETDPING" ICMP_ECHO_REQ] by (simp_all add: ping_msg_def)

lemma icmp_ping_returns:
  assumes live: "live K \<mu>" and wf: "link_wf (g_net s)"
  obtains st s' where "icmp_ping K dst ident seqno s = Some (st, s')"
proof -
  let ?s1 = "set_net (g_net s\<lparr>n_ping_id := ident, n_ping_seq := seqno, n_ping_replied := False\<rparr>) s"
  have wf1: "link_wf (g_net ?s1)" using wf by (simp add: link_wf_def set_net_def)
  have "unat (16 :: u16) \<le> length (ping_msg ident seqno)" by (simp add: ping_msg_def)
  then obtain st s' where "ip_tx K dst IPPROTO_ICMP (ping_msg ident seqno) 16 ?s1 = Some (st, s')"
    by (rule ip_tx_returns [OF live wf1]) simp_all
  then show ?thesis using that by (simp add: icmp_ping_eq)
qed

end
