(* ===== verification/Udp.thy ===== *)
theory Udp
  imports Ip_Tx
begin

text \<open>
  \<open>src/udp.c\<close> but for the dispatch in \<open>udp_rx\<close>, which is in the theory of the receive path: the table
  of 16 port bindings, each with room for one datagram, and the sending of a datagram.
\<close>

section \<open>Model\<close>

definition set_binds :: "udp_bind_t list \<Rightarrow> 'w machine \<Rightarrow> 'w machine" where
  "set_binds bs s = set_net (g_net s\<lparr>n_udp_binds := bs\<rparr>) s"

definition bound_to :: "u16 \<Rightarrow> udp_bind_t \<Rightarrow> bool" where
  "bound_to p b \<longleftrightarrow> ub_used b \<and> ub_port b = p"

definition binds_bind :: "u16 \<Rightarrow> udp_bind_t list \<Rightarrow> int \<times> udp_bind_t list" where
  "binds_bind p bs =
     (case first_index (bound_to p) bs of
        Some i \<Rightarrow> (0, bs)
      | None \<Rightarrow>
          (case first_index (\<lambda>b. \<not> ub_used b) bs of
             Some i \<Rightarrow> (0, bs[i := zero_udp_bind\<lparr>ub_port := p, ub_used := True\<rparr>])
           | None \<Rightarrow> (-1, bs)))"

definition udp_bind :: "u16 \<Rightarrow> 'w machine \<Rightarrow> int \<times> 'w machine" where
  "udp_bind p s = (let (r, bs) = binds_bind p (n_udp_binds (g_net s)) in (r, set_binds bs s))"

definition binds_unbind :: "u16 \<Rightarrow> udp_bind_t list \<Rightarrow> udp_bind_t list" where
  "binds_unbind p bs =
     (case first_index (bound_to p) bs of
        Some i \<Rightarrow> bs[i := (bs ! i)\<lparr>ub_used := False\<rparr>]
      | None \<Rightarrow> bs)"

definition udp_unbind :: "u16 \<Rightarrow> 'w machine \<Rightarrow> 'w machine" where
  "udp_unbind p s = set_binds (binds_unbind p (n_udp_binds (g_net s))) s"

definition udp_tx ::
  "'w kernel \<Rightarrow> u32 \<Rightarrow> u16 \<Rightarrow> u16 \<Rightarrow> u8 list \<Rightarrow> u16 \<Rightarrow> 'w machine \<Rightarrow> (int \<times> 'w machine) option" where
  "udp_tx K dst src_port dst_port data len s = do {
     let udp_len = 8 + len;
     let pkt = junk K s (8 + 1472);
     if len > 1472 then Some (-1, s)
     else do {
       pkt \<leftarrow> st16 0 (htons src_port) pkt;
       pkt \<leftarrow> st16 2 (htons dst_port) pkt;
       pkt \<leftarrow> st16 4 (htons udp_len) pkt;
       pkt \<leftarrow> st16 6 0 pkt;
       bs \<leftarrow> rd data 0 (unat len);
       pkt \<leftarrow> wr 8 bs pkt;
       ip_tx K dst IPPROTO_UDP pkt udp_len s
     }
   }"

text \<open>The last loop of \<open>udp_rx\<close>: the slot bound to the port takes the datagram, cut to its buffer.\<close>

definition udp_deliver ::
  "u32 \<Rightarrow> u16 \<Rightarrow> u16 \<Rightarrow> u8 list \<Rightarrow> int \<Rightarrow> 'w machine \<Rightarrow> (unit \<times> 'w machine) option" where
  "udp_deliver src_ip src_port dst_port payload payload_len s =
     (let bs = n_udp_binds (g_net s) in
      case first_index (bound_to dst_port) bs of
        Some i \<Rightarrow>
          let copy = (if payload_len < int UDP_RXBUF_SIZE then payload_len else int UDP_RXBUF_SIZE)
          in do {
            d \<leftarrow> rd payload 0 (nat copy);
            buf \<leftarrow> wr 0 d (ub_buf (bs ! i));
            Some ((), set_binds (bs[i := (bs ! i)\<lparr>ub_buf := buf, ub_len := copy, ub_src_ip := src_ip,
                                              ub_src_port := src_port\<rparr>]) s)
          }
      | None \<Rightarrow> Some ((), s))"

text \<open>
  \<open>udp_recv\<close> returns its value, the caller's buffer, and what it stores through \<open>src_ip\<close> and
  \<open>src_port\<close> where it does. A negative count would be a huge one for \<open>memcpy\<close>.
\<close>

definition udp_recv ::
  "u16 \<Rightarrow> u8 list \<Rightarrow> int \<Rightarrow> 'w machine
     \<Rightarrow> ((int \<times> u8 list \<times> (u32 \<times> u16) option) \<times> 'w machine) option" where
  "udp_recv p buf mx s =
     (let bs = n_udp_binds (g_net s) in
      case first_index (\<lambda>b. bound_to p b \<and> 0 < ub_len b) bs of
        Some i \<Rightarrow>
          let b = bs ! i; copy = (if ub_len b < mx then ub_len b else mx)
          in if copy < 0 then None
             else do {
               d \<leftarrow> rd (ub_buf b) 0 (nat copy);
               buf \<leftarrow> wr 0 d buf;
               Some ((copy, buf, Some (ub_src_ip b, ub_src_port b)),
                     set_binds (bs[i := b\<lparr>ub_len := 0\<rparr>]) s)
             }
      | None \<Rightarrow> Some ((0, buf, None), s))"

section \<open>The table of mailboxes\<close>

text \<open>
  The contract of the table: a partial map from ports to mailboxes (the datagram waiting, its sender)
  of bounded size.
\<close>

type_synonym mailbox = "u8 list \<times> u32 \<times> u16"

locale mailbox_table =
  fixes inv :: "'s \<Rightarrow> bool"
    and view :: "'s \<Rightarrow> u16 \<Rightarrow> mailbox option"
    and room :: nat
    and bind :: "u16 \<Rightarrow> 's \<Rightarrow> int \<times> 's"
    and unbind :: "u16 \<Rightarrow> 's \<Rightarrow> 's"
    and put :: "u16 \<Rightarrow> mailbox \<Rightarrow> 's \<Rightarrow> 's"
    and fetch :: "u16 \<Rightarrow> 's \<Rightarrow> 's"
  assumes bind_inv: "inv s \<Longrightarrow> inv (snd (bind p s))"
    and unbind_inv: "inv s \<Longrightarrow> inv (unbind p s)"
    and put_inv: "inv s \<Longrightarrow> length (fst mb) \<le> UDP_RXBUF_SIZE \<Longrightarrow> inv (put p mb s)"
    and fetch_inv: "inv s \<Longrightarrow> inv (fetch p s)"
    and size: "inv s \<Longrightarrow> finite (dom (view s)) \<and> card (dom (view s)) \<le> room"
    and bind_again: "inv s \<Longrightarrow> p \<in> dom (view s) \<Longrightarrow> bind p s = (0, s)"
    and bind_new: "inv s \<Longrightarrow> p \<notin> dom (view s) \<Longrightarrow> card (dom (view s)) < room \<Longrightarrow>
      fst (bind p s) = 0 \<and> view (snd (bind p s)) = (view s)(p \<mapsto> ([], 0, 0))"
    and bind_full: "inv s \<Longrightarrow> p \<notin> dom (view s) \<Longrightarrow> card (dom (view s)) = room \<Longrightarrow> bind p s = (-1, s)"
    and unbind_view: "inv s \<Longrightarrow> view (unbind p s) = (view s)(p := None)"
    and put_view: "inv s \<Longrightarrow> length (fst mb) \<le> UDP_RXBUF_SIZE \<Longrightarrow>
      view (put p mb s) = (if p \<in> dom (view s) then (view s)(p \<mapsto> mb) else view s)"
    and fetch_view: "inv s \<Longrightarrow>
      view (fetch p s) = (case view s p of Some (d, a) \<Rightarrow> (view s)(p \<mapsto> ([], a)) | None \<Rightarrow> view s)"
begin

text \<open>Binding a port succeeds exactly if it is bound already or there is room.\<close>

lemma bind_ok:
  assumes "inv s"
  shows "fst (bind p s) = (if p \<in> dom (view s) \<or> card (dom (view s)) < room then 0 else -1)"
  using assms bind_again [of s p] bind_new [of s p] bind_full [of s p] size [of s]
  by (cases "p \<in> dom (view s)"; cases "card (dom (view s)) < room") auto

lemma bind_dom: "inv s \<Longrightarrow> fst (bind p s) = 0 \<Longrightarrow> p \<in> dom (view (snd (bind p s)))"
  using bind_ok [of s p] bind_again [of s p] bind_new [of s p]
  by (cases "p \<in> dom (view s)") (auto split: if_splits)

text \<open>Operations on other ports leave a mailbox alone.\<close>

lemma bind_other: "inv s \<Longrightarrow> q \<noteq> p \<Longrightarrow> view (snd (bind p s)) q = view s q"
  using bind_again [of s p] bind_new [of s p] bind_full [of s p] size [of s]
  by (cases "p \<in> dom (view s)"; cases "card (dom (view s)) < room") auto

lemma unbind_other: "inv s \<Longrightarrow> q \<noteq> p \<Longrightarrow> view (unbind p s) q = view s q"
  by (simp add: unbind_view)

lemma put_other: "inv s \<Longrightarrow> length (fst mb) \<le> UDP_RXBUF_SIZE \<Longrightarrow> q \<noteq> p \<Longrightarrow> view (put p mb s) q = view s q"
  by (simp add: put_view)

lemma fetch_other: "inv s \<Longrightarrow> q \<noteq> p \<Longrightarrow> view (fetch p s) q = view s q"
  by (auto simp: fetch_view split: option.splits)

text \<open>A bound mailbox holds the latest datagram delivered, whatever came before.\<close>

lemma put_all_latest:
  assumes "inv s" "p \<in> dom (view s)" "\<forall>mb\<in>set (mb # mbs). length (fst mb) \<le> UDP_RXBUF_SIZE"
  shows "view (fold (put p) (mb # mbs) s) p = Some (last (mb # mbs))"
  using assms
proof (induction mbs arbitrary: mb s)
  case Nil
  then show ?case by (simp add: put_view)
next
  case (Cons mb' mbs)
  have "inv (put p mb s)" "p \<in> dom (view (put p mb s))"
    using Cons.prems by (auto simp: put_inv put_view)
  then show ?case using Cons.IH [of "put p mb s" mb'] Cons.prems by simp
qed

end

section \<open>The bindings implement it\<close>

definition slot_ok :: "udp_bind_t \<Rightarrow> bool" where
  "slot_ok b \<longleftrightarrow> length (ub_buf b) = UDP_RXBUF_SIZE \<and> 0 \<le> ub_len b \<and> ub_len b \<le> int UDP_RXBUF_SIZE"

definition binds_wf :: "udp_bind_t list \<Rightarrow> bool" where
  "binds_wf bs \<longleftrightarrow> length bs = UDP_MAX_BINDS \<and> (\<forall>b\<in>set bs. slot_ok b) \<and>
     (\<forall>i<length bs. \<forall>j<length bs. ub_used (bs ! i) \<longrightarrow> ub_used (bs ! j) \<longrightarrow>
        ub_port (bs ! i) = ub_port (bs ! j) \<longrightarrow> i = j)"

definition mbox :: "udp_bind_t \<Rightarrow> mailbox" where
  "mbox b = (take (nat (ub_len b)) (ub_buf b), ub_src_ip b, ub_src_port b)"

definition binds_view :: "udp_bind_t list \<Rightarrow> u16 \<Rightarrow> mailbox option" where
  "binds_view bs p = map_option (\<lambda>i. mbox (bs ! i)) (first_index (bound_to p) bs)"

definition binds_put :: "u16 \<Rightarrow> mailbox \<Rightarrow> udp_bind_t list \<Rightarrow> udp_bind_t list" where
  "binds_put p mb bs =
     (case first_index (bound_to p) bs of
        Some i \<Rightarrow> (case mb of (d, a, q) \<Rightarrow>
          bs[i := (bs ! i)\<lparr>ub_buf := d @ drop (length d) (ub_buf (bs ! i)), ub_len := int (length d),
                         ub_src_ip := a, ub_src_port := q\<rparr>])
      | None \<Rightarrow> bs)"

definition binds_fetch :: "u16 \<Rightarrow> udp_bind_t list \<Rightarrow> udp_bind_t list" where
  "binds_fetch p bs =
     (case first_index (\<lambda>b. bound_to p b \<and> 0 < ub_len b) bs of
        Some i \<Rightarrow> bs[i := (bs ! i)\<lparr>ub_len := 0\<rparr>]
      | None \<Rightarrow> bs)"

lemma binds_wf_length: "binds_wf bs \<Longrightarrow> length bs = 16"
  by (simp add: binds_wf_def)

lemma bound_to_unique:
  assumes "binds_wf bs" "i < 16" "bound_to p (bs ! i)" "j < 16" "bound_to p (bs ! j)"
  shows "i = j"
  using assms by (auto simp: binds_wf_def bound_to_def)

lemma bound_to_first:
  assumes "binds_wf bs" "i < 16" "bound_to p (bs ! i)"
  shows "first_index (bound_to p) bs = Some i"
  using assms bound_to_unique [OF assms(1)] binds_wf_length
  by (intro first_index_unique) auto

lemma binds_view_dom: "p \<in> dom (binds_view bs) \<longleftrightarrow> (\<exists>b\<in>set bs. bound_to p b)"
  by (auto simp: binds_view_def first_index_None dom_def)

lemma binds_view_first:
  assumes wf: "binds_wf bs" and p: "binds_view bs p = Some mb"
  obtains i where "i < 16" "first_index (bound_to p) bs = Some i" "bound_to p (bs ! i)" "mb = mbox (bs ! i)"
proof -
  obtain i where i: "first_index (bound_to p) bs = Some i" "mb = mbox (bs ! i)"
    using p by (auto simp: binds_view_def)
  with first_index_SomeD [OF i(1)] binds_wf_length [OF wf] that show ?thesis by simp
qed

lemma slot_wf: "binds_wf bs \<Longrightarrow> i < 16 \<Longrightarrow> slot_ok (bs ! i)"
  by (auto simp: binds_wf_def)

text \<open>Replacing the content of a slot.\<close>

lemma binds_wf_update:
  assumes "binds_wf bs" "i < 16" "slot_ok b"
    and "ub_used b \<longrightarrow> (\<forall>j<16. j \<noteq> i \<longrightarrow> \<not> bound_to (ub_port b) (bs ! j))"
  shows "binds_wf (bs[i := b])"
  using assms set_update_subset_insert [of bs i b]
  by (auto simp: binds_wf_def bound_to_def nth_list_update)

lemma binds_view_update:
  assumes wf: "binds_wf bs" and i: "i < 16" and b: "slot_ok b" "bound_to p b"
    and free: "\<And>j. j < 16 \<Longrightarrow> j \<noteq> i \<Longrightarrow> \<not> bound_to p (bs ! j)"
    and was: "\<not> ub_used (bs ! i) \<or> bound_to p (bs ! i)"
  shows "binds_wf (bs[i := b])" and "binds_view (bs[i := b]) = (binds_view bs)(p \<mapsto> mbox b)"
proof -
  note len = binds_wf_length [OF wf]
  show wf': "binds_wf (bs[i := b])"
    using wf i b free by (intro binds_wf_update) (auto simp: bound_to_def)
  have at: "binds_view (bs[i := b]) p = Some (mbox b)"
    using bound_to_first [OF wf' i, of p] b i len by (simp add: binds_view_def)
  have "binds_view (bs[i := b]) q = binds_view bs q" if q: "q \<noteq> p" for q
  proof (cases "first_index (bound_to q) bs")
    case None
    then have "\<forall>x\<in>set (bs[i := b]). \<not> bound_to q x"
      using q b set_update_subset_insert [of bs i b] by (auto simp: first_index_None bound_to_def)
    with None show ?thesis by (simp add: binds_view_def flip: first_index_None)
  next
    case (Some k)
    then have k: "k < 16" "bound_to q (bs ! k)" using first_index_SomeD [OF Some] len by auto
    then have "k \<noteq> i" using was q by (auto simp: bound_to_def)
    then have "first_index (bound_to q) (bs[i := b]) = Some k"
      using bound_to_first [OF wf' k(1), of q] k by simp
    with Some \<open>k \<noteq> i\<close> show ?thesis by (simp add: binds_view_def)
  qed
  with at show "binds_view (bs[i := b]) = (binds_view bs)(p \<mapsto> mbox b)" by (auto simp: fun_eq_iff)
qed

text \<open>The number of ports bound is the number of slots in use.\<close>

lemma card_bound:
  assumes wf: "binds_wf bs"
  shows "finite (dom (binds_view bs)) \<and>
    card (dom (binds_view bs)) = card {i. i < 16 \<and> ub_used (bs ! i)}"
proof -
  let ?I = "{i. i < 16 \<and> ub_used (bs ! i)}"
  note len = binds_wf_length [OF wf]
  have "p \<in> dom (binds_view bs) \<longleftrightarrow> p \<in> (\<lambda>i. ub_port (bs ! i)) ` ?I" for p
    unfolding binds_view_dom by (auto simp: bound_to_def in_set_conv_nth len image_iff Bex_def)
  then have "dom (binds_view bs) = (\<lambda>i. ub_port (bs ! i)) ` ?I" by blast
  moreover have "inj_on (\<lambda>i. ub_port (bs ! i)) ?I"
    using wf by (auto simp: binds_wf_def inj_on_def)
  ultimately show ?thesis by (simp add: card_image)
qed

lemma card_slots:
  assumes len: "length bs = 16"
  shows "card {i. i < 16 \<and> ub_used (bs ! i)} \<le> 16"
    and "card {i. i < 16 \<and> ub_used (bs ! i)} = 16 \<longleftrightarrow> first_index (\<lambda>b. \<not> ub_used b) bs = None"
proof -
  let ?I = "{i. i < 16 \<and> ub_used (bs ! i)}"
  have sub: "?I \<subseteq> {..<16}" by auto
  show "card ?I \<le> 16" using card_mono [OF _ sub] by simp
  have "card ?I = 16 \<longleftrightarrow> ?I = {..<16}"
  proof
    assume "card ?I = 16"
    then show "?I = {..<16}" using card_subset_eq [OF _ sub] by simp
  next
    assume "?I = {..<16}"
    then show "card ?I = 16" by (simp only: card_lessThan)
  qed
  also have "\<dots> \<longleftrightarrow> (\<forall>i<16. ub_used (bs ! i))" by blast
  also have "\<dots> \<longleftrightarrow> first_index (\<lambda>b. \<not> ub_used b) bs = None"
    unfolding first_index_None all_set_conv_all_nth len by simp
  finally show "card ?I = 16 \<longleftrightarrow> first_index (\<lambda>b. \<not> ub_used b) bs = None" .
qed

text \<open>Each operation on a slot, as an update of the map.\<close>

lemma zero_slot_ok: "slot_ok (zero_udp_bind\<lparr>ub_port := p, ub_used := True\<rparr>)"
  by (simp add: slot_ok_def zero_udp_bind_def)

lemma binds_bind_cases:
  assumes wf: "binds_wf bs"
  shows "p \<in> dom (binds_view bs) \<Longrightarrow> binds_bind p bs = (0, bs)"
    and "p \<notin> dom (binds_view bs) \<Longrightarrow> card (dom (binds_view bs)) = 16 \<Longrightarrow> binds_bind p bs = (-1, bs)"
    and "p \<notin> dom (binds_view bs) \<Longrightarrow> card (dom (binds_view bs)) < 16 \<Longrightarrow>
      fst (binds_bind p bs) = 0 \<and> binds_wf (snd (binds_bind p bs)) \<and>
      binds_view (snd (binds_bind p bs)) = (binds_view bs)(p \<mapsto> ([], 0, 0))"
proof -
  note len = binds_wf_length [OF wf]
  note card = card_bound [OF wf] card_slots [OF len]
  have no: "p \<notin> dom (binds_view bs) \<Longrightarrow> first_index (bound_to p) bs = None"
    by (simp add: binds_view_dom first_index_None)
  show "p \<in> dom (binds_view bs) \<Longrightarrow> binds_bind p bs = (0, bs)"
    by (auto simp: binds_bind_def binds_view_def dom_def)
  show "p \<notin> dom (binds_view bs) \<Longrightarrow> card (dom (binds_view bs)) = 16 \<Longrightarrow> binds_bind p bs = (-1, bs)"
    using card no by (simp add: binds_bind_def)
  assume p: "p \<notin> dom (binds_view bs)" and "card (dom (binds_view bs)) < 16"
  then obtain i where i: "first_index (\<lambda>b. \<not> ub_used b) bs = Some i" using card by fastforce
  then have i16: "i < 16" "\<not> ub_used (bs ! i)" using first_index_SomeD [OF i] len by auto
  let ?b = "zero_udp_bind\<lparr>ub_port := p, ub_used := True\<rparr>"
  have free: "\<not> bound_to p (bs ! j)" if "j < 16" for j
    using p that len by (auto simp: binds_view_dom)
  have m: "mbox ?b = ([], 0, 0)" by (simp add: mbox_def zero_udp_bind_def)
  have "binds_bind p bs = (0, bs[i := ?b])" using no [OF p] i by (simp add: binds_bind_def)
  moreover have "binds_wf (bs[i := ?b])" "binds_view (bs[i := ?b]) = (binds_view bs)(p \<mapsto> mbox ?b)"
    using binds_view_update [OF wf i16(1) zero_slot_ok, of p p] free i16(2)
    by (auto simp: bound_to_def)
  ultimately show "fst (binds_bind p bs) = 0 \<and> binds_wf (snd (binds_bind p bs)) \<and>
      binds_view (snd (binds_bind p bs)) = (binds_view bs)(p \<mapsto> ([], 0, 0))"
    using m by simp
qed

lemma binds_unbind_view:
  assumes wf: "binds_wf bs"
  shows "binds_wf (binds_unbind p bs) \<and> binds_view (binds_unbind p bs) = (binds_view bs)(p := None)"
proof (cases "first_index (bound_to p) bs")
  case None
  then have "binds_view bs p = None" by (simp add: binds_view_def)
  with None wf show ?thesis by (auto simp: binds_unbind_def)
next
  case (Some i)
  note len = binds_wf_length [OF wf]
  let ?b = "(bs ! i)\<lparr>ub_used := False\<rparr>"
  have i: "i < 16" "bound_to p (bs ! i)" using first_index_SomeD [OF Some] len by auto
  have wf': "binds_wf (bs[i := ?b])"
    using wf i slot_wf [OF wf i(1)] by (intro binds_wf_update) (auto simp: slot_ok_def)
  have "binds_view (bs[i := ?b]) q = ((binds_view bs)(p := None)) q" for q
  proof (cases "q = p")
    case True
    have "\<not> bound_to p (bs[i := ?b] ! j)" if "j < 16" for j
      using bound_to_unique [OF wf i that] that len by (cases "j = i") (auto simp: bound_to_def)
    then have "p \<notin> dom (binds_view (bs[i := ?b]))"
      using len by (auto simp: binds_view_dom in_set_conv_nth)
    then have "binds_view (bs[i := ?b]) p = None" by (simp only: domIff not_not)
    with True show ?thesis by simp
  next
    case False
    show ?thesis
    proof (cases "first_index (bound_to q) bs")
      case None
      then have "\<forall>x\<in>set (bs[i := ?b]). \<not> bound_to q x"
        using set_update_subset_insert [of bs i ?b] by (auto simp: first_index_None bound_to_def)
      with None False show ?thesis by (simp add: binds_view_def flip: first_index_None)
    next
      case (Some k)
      then have k: "k < 16" "bound_to q (bs ! k)" using first_index_SomeD [OF Some] len by auto
      then have "k \<noteq> i" using i False by (auto simp: bound_to_def)
      then have "first_index (bound_to q) (bs[i := ?b]) = Some k"
        using bound_to_first [OF wf' k(1), of q] k by simp
      with Some \<open>k \<noteq> i\<close> False show ?thesis by (simp add: binds_view_def)
    qed
  qed
  with Some wf' show ?thesis by (auto simp: binds_unbind_def fun_eq_iff)
qed

lemma binds_set_slot:
  assumes wf: "binds_wf bs" and i: "first_index (bound_to p) bs = Some i"
    and b: "slot_ok b" "ub_used b = ub_used (bs ! i)" "ub_port b = ub_port (bs ! i)"
  shows "binds_wf (bs[i := b])" and "binds_view (bs[i := b]) = (binds_view bs)(p \<mapsto> mbox b)"
proof -
  have i16: "i < 16" "bound_to p (bs ! i)" using first_index_SomeD [OF i] binds_wf_length [OF wf] by auto
  have only: "j \<noteq> i \<Longrightarrow> \<not> bound_to p (bs ! j)" if "j < 16" for j
    using bound_to_unique [OF wf i16 that] by auto
  have bp: "bound_to p b" using b i16 by (simp add: bound_to_def)
  show "binds_wf (bs[i := b])" "binds_view (bs[i := b]) = (binds_view bs)(p \<mapsto> mbox b)"
    using binds_view_update [OF wf i16(1) b(1) bp] only i16(2) by auto
qed

lemma binds_put_view:
  assumes wf: "binds_wf bs" and d: "length d \<le> UDP_RXBUF_SIZE"
  shows "binds_wf (binds_put p (d, a, q) bs) \<and>
    binds_view (binds_put p (d, a, q) bs) =
      (if p \<in> dom (binds_view bs) then (binds_view bs)(p \<mapsto> (d, a, q)) else binds_view bs)"
proof (cases "first_index (bound_to p) bs")
  case None
  with wf show ?thesis by (auto simp: binds_put_def binds_view_def dom_def)
next
  case (Some i)
  let ?b = "(bs ! i)\<lparr>ub_buf := d @ drop (length d) (ub_buf (bs ! i)), ub_len := int (length d),
    ub_src_ip := a, ub_src_port := q\<rparr>"
  have "i < 16" using first_index_SomeD [OF Some] binds_wf_length [OF wf] by auto
  then have "slot_ok ?b" using slot_wf [OF wf] d by (simp add: slot_ok_def)
  from binds_set_slot [OF wf Some this] Some show ?thesis
    by (auto simp: binds_put_def binds_view_def mbox_def dom_def)
qed

lemma binds_fetch_view:
  assumes wf: "binds_wf bs"
  shows "binds_wf (binds_fetch p bs) \<and>
    binds_view (binds_fetch p bs) =
      (case binds_view bs p of Some (d, a) \<Rightarrow> (binds_view bs)(p \<mapsto> ([], a)) | None \<Rightarrow> binds_view bs)"
proof (cases "first_index (\<lambda>b. bound_to p b \<and> 0 < ub_len b) bs")
  case None
  note len = binds_wf_length [OF wf]
  show ?thesis
  proof (cases "binds_view bs p")
    case None': None
    with None wf show ?thesis by (simp add: binds_fetch_def)
  next
    case (Some mb)
    then obtain i where i: "i < 16" "bound_to p (bs ! i)" "mb = mbox (bs ! i)"
      using binds_view_first [OF wf] by metis
    then have "\<not> 0 < ub_len (bs ! i)"
      using None len by (auto simp: first_index_None)
    then have "mbox (bs ! i) = ([], ub_src_ip (bs ! i), ub_src_port (bs ! i))" by (simp add: mbox_def)
    then have "(binds_view bs)(p \<mapsto> ([], snd mb)) = binds_view bs" using Some i by (auto simp: fun_eq_iff)
    with None Some wf show ?thesis by (auto simp: binds_fetch_def split: prod.splits)
  qed
next
  case (Some i)
  note len = binds_wf_length [OF wf]
  have i: "i < 16" "bound_to p (bs ! i)" using first_index_SomeD [OF Some] len by auto
  then have fi: "first_index (bound_to p) bs = Some i" by (intro bound_to_first [OF wf])
  let ?b = "(bs ! i)\<lparr>ub_len := 0\<rparr>"
  have "slot_ok ?b" using slot_wf [OF wf i(1)] by (simp add: slot_ok_def)
  from binds_set_slot [OF wf fi this] Some fi show ?thesis
    by (simp add: binds_fetch_def binds_view_def mbox_def)
qed

interpretation ports: mailbox_table binds_wf binds_view UDP_MAX_BINDS binds_bind binds_unbind binds_put binds_fetch
proof
  fix bs :: "udp_bind_t list" and p and mb :: mailbox
  assume wf: "binds_wf bs"
  note bind = binds_bind_cases [OF wf]
  have size: "finite (dom (binds_view bs)) \<and> card (dom (binds_view bs)) \<le> UDP_MAX_BINDS"
    using card_bound [OF wf] card_slots(1) [OF binds_wf_length [OF wf]] by simp
  then show "finite (dom (binds_view bs)) \<and> card (dom (binds_view bs)) \<le> UDP_MAX_BINDS" .
  show "binds_wf (snd (binds_bind p bs))"
    using size bind wf by (cases "p \<in> dom (binds_view bs)"; cases "card (dom (binds_view bs)) < 16") auto
  show "binds_wf (binds_unbind p bs)" "binds_view (binds_unbind p bs) = (binds_view bs)(p := None)"
    using binds_unbind_view [OF wf] by auto
  show "binds_wf (binds_fetch p bs)" "binds_view (binds_fetch p bs) =
      (case binds_view bs p of Some (d, a) \<Rightarrow> (binds_view bs)(p \<mapsto> ([], a)) | None \<Rightarrow> binds_view bs)"
    using binds_fetch_view [OF wf] by auto
  show "p \<in> dom (binds_view bs) \<Longrightarrow> binds_bind p bs = (0, bs)" by (rule bind(1))
  show "p \<notin> dom (binds_view bs) \<Longrightarrow> card (dom (binds_view bs)) < UDP_MAX_BINDS \<Longrightarrow>
      fst (binds_bind p bs) = 0 \<and> binds_view (snd (binds_bind p bs)) = (binds_view bs)(p \<mapsto> ([], 0, 0))"
    using bind(3) [of p] by simp
  show "p \<notin> dom (binds_view bs) \<Longrightarrow> card (dom (binds_view bs)) = UDP_MAX_BINDS \<Longrightarrow>
      binds_bind p bs = (-1, bs)"
    using bind(2) [of p] by simp
  assume "length (fst mb) \<le> UDP_RXBUF_SIZE"
  then show "binds_wf (binds_put p mb bs)" "binds_view (binds_put p mb bs) =
      (if p \<in> dom (binds_view bs) then (binds_view bs)(p \<mapsto> mb) else binds_view bs)"
    using binds_put_view [OF wf, of "fst mb" p "fst (snd mb)" "snd (snd mb)"] by auto
qed

section \<open>The operations on the machine\<close>

lemma set_binds_simps [simp]:
  "n_udp_binds (g_net (set_binds bs s)) = bs" "os (set_binds bs s) = os s"
  "g_ip_id (set_binds bs s) = g_ip_id s" "set_binds bs' (set_binds bs s) = set_binds bs' s"
  "set_binds (n_udp_binds (g_net s)) s = s"
  by (simp_all add: set_binds_def set_net_def)

abbreviation ports_of :: "'w machine \<Rightarrow> u16 \<Rightarrow> mailbox option" where
  "ports_of s \<equiv> binds_view (n_udp_binds (g_net s))"

text \<open>A delivery whose bytes are there is a \<open>put\<close> of the datagram, cut to 2048 bytes.\<close>

lemma udp_deliver_eq:
  assumes wf: "binds_wf (n_udp_binds (g_net s))"
    and len: "0 \<le> payload_len" "min (nat payload_len) UDP_RXBUF_SIZE \<le> length payload"
  shows "udp_deliver src_ip src_port dst_port payload payload_len s =
    Some ((), set_binds (binds_put dst_port
      (take (min (nat payload_len) UDP_RXBUF_SIZE) payload, src_ip, src_port) (n_udp_binds (g_net s))) s)"
proof -
  let ?bs = "n_udp_binds (g_net s)"
  obtain n where n: "min (nat payload_len) UDP_RXBUF_SIZE = n" by blast
  have copy: "(if payload_len < int UDP_RXBUF_SIZE then payload_len else int UDP_RXBUF_SIZE) = int n"
    using len n by (auto split: if_splits)
  have le: "n \<le> length payload" "n \<le> 2048" using len n by auto
  then have ld: "length (take n payload) = n" by simp
  show ?thesis
  proof (cases "first_index (bound_to dst_port) ?bs")
    case None
    then show ?thesis by (simp add: udp_deliver_def binds_put_def)
  next
    case (Some i)
    then have "i < 16" using first_index_SomeD [OF Some] binds_wf_length [OF wf] by simp
    then have "length (ub_buf (?bs ! i)) = 2048" using slot_wf [OF wf] by (simp add: slot_ok_def)
    then have "rd payload 0 n = Some (take n payload)"
      "wr 0 (take n payload) (ub_buf (?bs ! i)) = Some (take n payload @ drop n (ub_buf (?bs ! i)))"
      using le by (simp_all add: rd_def wr_def)
    then show ?thesis
      using Some ld unfolding udp_deliver_def Let_def copy n
      by (simp add: binds_put_def del: length_take)
  qed
qed

text \<open>A datagram for a bound port that claims more bytes than there are is read from beyond them.\<close>

lemma udp_deliver_overread:
  assumes "p \<in> dom (ports_of s)" "length payload < min (nat payload_len) UDP_RXBUF_SIZE"
  shows "udp_deliver src_ip src_port p payload payload_len s = None"
proof -
  obtain i where "first_index (bound_to p) (n_udp_binds (g_net s)) = Some i"
    using assms(1) by (auto simp: binds_view_def dom_def)
  moreover have "length payload < nat (if payload_len < int UDP_RXBUF_SIZE then payload_len else int UDP_RXBUF_SIZE)"
    using assms(2) by (auto split: if_splits)
  ultimately show ?thesis by (simp add: udp_deliver_def Let_def rd_def)
qed

lemma udp_deliver_post:
  assumes wf: "binds_wf (n_udp_binds (g_net s))" and len: "0 \<le> payload_len"
    and run: "udp_deliver src_ip src_port p payload payload_len s = Some ((), s')"
  obtains bs where "s' = set_binds bs s" "binds_wf bs"
proof (cases "min (nat payload_len) UDP_RXBUF_SIZE \<le> length payload")
  case True
  let ?mb = "(take (min (nat payload_len) UDP_RXBUF_SIZE) payload, src_ip, src_port)"
  have "binds_wf (binds_put p ?mb (n_udp_binds (g_net s)))" using ports.put_inv [OF wf, of ?mb p] by simp
  with run udp_deliver_eq [OF wf len True, of src_ip src_port p] that show ?thesis by auto
next
  case False
  have "p \<notin> dom (ports_of s)"
  proof
    assume "p \<in> dom (ports_of s)"
    then have "udp_deliver src_ip src_port p payload payload_len s = None"
      using False by (intro udp_deliver_overread) (simp_all only: not_le)
    with run show False by simp
  qed
  then have "first_index (bound_to p) (n_udp_binds (g_net s)) = None"
    by (simp add: binds_view_dom first_index_None)
  with run have "s' = s" by (simp add: udp_deliver_def)
  with wf that [of "n_udp_binds (g_net s)"] show ?thesis by simp
qed

text \<open>A receive is a \<open>fetch\<close>: it copies the datagram, cut to what the caller has room for.\<close>

lemma udp_recv_eq:
  assumes wf: "binds_wf (n_udp_binds (g_net s))"
    and room: "0 \<le> mx" "nat mx \<le> length buf"
  shows "udp_recv p buf mx s = Some
    (case ports_of s p of
       Some (d, a) \<Rightarrow>
         if d = [] then ((0, buf, None), s)
         else ((int (min (length d) (nat mx)), take (nat mx) d @ drop (min (length d) (nat mx)) buf, Some a),
               set_binds (binds_fetch p (n_udp_binds (g_net s))) s)
     | None \<Rightarrow> ((0, buf, None), s))"
proof -
  let ?bs = "n_udp_binds (g_net s)" and ?P = "\<lambda>b. bound_to p b \<and> 0 < ub_len b"
  note len = binds_wf_length [OF wf]
  show ?thesis
  proof (cases "first_index ?P ?bs")
    case None
    have "d = []" if v: "ports_of s p = Some (d, a)" for d a
    proof -
      obtain i where i: "i < 16" "bound_to p (?bs ! i)" "(d, a) = mbox (?bs ! i)"
        using binds_view_first [OF wf v] by metis
      then show ?thesis using None len by (auto simp: first_index_None mbox_def)
    qed
    with None show ?thesis by (auto simp: udp_recv_def split: option.splits)
  next
    case (Some i)
    let ?b = "?bs ! i"
    have i: "i < 16" "bound_to p ?b" "0 < ub_len ?b" using first_index_SomeD [OF Some] len by auto
    have v: "ports_of s p = Some (mbox ?b)"
      using bound_to_first [OF wf i(1,2)] by (simp add: binds_view_def)
    have ok: "length (ub_buf ?b) = 2048" "ub_len ?b \<le> 2048" using slot_wf [OF wf i(1)] by (auto simp: slot_ok_def)
    let ?d = "take (nat (ub_len ?b)) (ub_buf ?b)"
    have ld: "length ?d = nat (ub_len ?b)" "?d \<noteq> []" using ok i(3) by auto
    obtain n where nn: "min (length ?d) (nat mx) = n" by blast
    have copy: "(if ub_len ?b < mx then ub_len ?b else mx) = int n"
      using nn room i(3) unfolding ld(1) by auto
    have n: "n \<le> 2048" "n \<le> length buf" "n \<le> nat (ub_len ?b)"
      using nn ok room unfolding ld(1) by auto
    have "take n (ub_buf ?b) = take (nat mx) ?d" using nn unfolding ld(1) by (auto simp: min_def)
    moreover from this have "length (take (nat mx) ?d) = n" using n ok by (metis length_take min.absorb2 le_trans)
    ultimately have io: "rd (ub_buf ?b) 0 n = Some (take (nat mx) ?d)"
      "wr 0 (take (nat mx) ?d) buf = Some (take (nat mx) ?d @ drop n buf)"
      using n ok by (auto simp: rd_def wr_def)
    show ?thesis
      using ld(2) io unfolding v mbox_def udp_recv_def Let_def binds_fetch_def Some option.case copy
      by (simp add: nn del: length_take take_take)
  qed
qed

text \<open>A datagram: ports, length, no checksum, data.\<close>

definition udp_datagram :: "u16 \<Rightarrow> u16 \<Rightarrow> u8 list \<Rightarrow> u8 list" where
  "udp_datagram src_port dst_port data =
     be16 src_port @ be16 dst_port @ be16 (of_nat (8 + length data)) @ [0, 0] @ data"

lemma udp_datagram_length [simp]: "length (udp_datagram sp dp data) = 8 + length data"
  by (simp add: udp_datagram_def)

lemma udp_tx_too_long: "1472 < len \<Longrightarrow> udp_tx K dst src_port dst_port data len s = Some (-1, s)"
  by (simp add: udp_tx_def Let_def)

lemma udp_tx_eq:
  assumes "unat len \<le> length data" "unat len \<le> 1472"
  shows "udp_tx K dst src_port dst_port data len s =
    ip_tx K dst IPPROTO_UDP (udp_datagram src_port dst_port (take (unat len) data)) (8 + len) s"
proof -
  let ?d = "take (unat len) data"
  have ld: "length ?d = unat len" using assms by simp
  have nlt: "\<not> 1472 < len" using assms by (simp add: word_less_nat_alt)
  obtain j where j: "junk K s 1480 = j" "length j = 1480" using length_junk by blast
  have e: "j = filled [] j" by (simp add: filled_def)
  have u: "unat (8 + len) = 8 + unat len" using assms by (simp add: unat_word_ariths)
  have tx: "ip_tx K dst 17 (filled (be16 src_port @ be16 dst_port @ be16 (8 + len) @ le16 0 @ ?d) r) (8 + len) s =
      ip_tx K dst 17 (udp_datagram src_port dst_port ?d) (8 + len) s" for r
    using ld u by (simp add: ip_tx_def rd_def filled_def udp_datagram_def le16_def del: length_take)
  show ?thesis
    unfolding udp_tx_def Let_def
    by (simp add: nlt j, subst e)
      (simp add: st16_def wire_simps mem_simps j ld assms tx del: length_take)
qed

text \<open>\<open>udp_tx\<close> refuses what no datagram can hold and sends up to 1458 bytes; between, the driver overruns.\<close>

lemma udp_tx_overflow:
  assumes "1458 < unat len" "unat len \<le> 1472" "unat len \<le> length data"
  shows "udp_tx K dst src_port dst_port data len s = None"
proof -
  have "1466 < unat (8 + len)" using assms by (simp add: unat_word_ariths)
  then show ?thesis using udp_tx_eq [OF assms(3,2)] by (simp add: ip_tx_overflow)
qed

lemma udp_tx_only:
  assumes wf: "link_wf (g_net s)" and run: "udp_tx K dst sp dp data len s = Some (st, s')"
  shows "tx_only s s'"
  using run ip_tx_only [OF wf] unfolding udp_tx_def Let_def
  by (auto elim!: run_elims split: if_splits)

lemma udp_tx_returns:
  assumes live: "live K \<mu>" and wf: "link_wf (g_net s)"
    and len: "unat len \<le> length data" "unat len \<le> 1458"
  obtains st s' where "udp_tx K dst sp dp data len s = Some (st, s')" "tx_only s s'"
proof -
  let ?p = "udp_datagram sp dp (take (unat len) data)"
  have u: "unat (8 + len) = 8 + unat len" using len by (simp add: unat_word_ariths)
  have "unat (8 + len) \<le> length ?p" "unat (8 + len) \<le> 1466" unfolding u using len by simp_all
  then obtain st s' where "ip_tx K dst IPPROTO_UDP ?p (8 + len) s = Some (st, s')" "tx_only s s'"
    by (rule ip_tx_returns [OF live wf])
  then show ?thesis using that udp_tx_eq [OF len(1), of K dst sp dp s] len(2) by auto
qed

text \<open>Binding, delivering and receiving, end to end: the datagram is received once.\<close>

lemma udp_bind_deliver_recv:
  assumes wf: "binds_wf (n_udp_binds (g_net s))"
    and bind: "udp_bind p s = (0, s1)"
    and len: "0 < payload_len" "nat payload_len \<le> length payload" "payload_len \<le> 2048"
    and room: "payload_len \<le> mx" "nat mx \<le> length buf"
  obtains s2 s3 where
    "udp_deliver src_ip src_port p payload payload_len s1 = Some ((), s2)"
    "udp_recv p buf mx s2 = Some ((payload_len, take (nat payload_len) payload @ drop (nat payload_len) buf,
       Some (src_ip, src_port)), s3)"
    "udp_recv p buf mx s3 = Some ((0, buf, None), s3)"
proof -
  let ?bs = "snd (binds_bind p (n_udp_binds (g_net s)))" and ?d = "take (nat payload_len) payload"
  let ?mb = "(?d, src_ip, src_port)"
  have s1: "s1 = set_binds ?bs s" and r0: "fst (binds_bind p (n_udp_binds (g_net s))) = 0"
    using bind by (auto simp: udp_bind_def split: prod.splits)
  have wf1: "binds_wf ?bs" using ports.bind_inv [OF wf] .
  have dom: "p \<in> dom (binds_view ?bs)" using ports.bind_dom [OF wf r0] .
  have ld: "length ?d = nat payload_len" using len by simp
  let ?bs2 = "binds_put p ?mb ?bs"
  have wf2: "binds_wf ?bs2" and v2: "binds_view ?bs2 p = Some ?mb"
    using ports.put_inv [OF wf1, of ?mb] ports.put_view [OF wf1, of ?mb p] dom ld len by auto
  let ?bs3 = "binds_fetch p ?bs2"
  have wf3: "binds_wf ?bs3" and v3: "binds_view ?bs3 p = Some ([], src_ip, src_port)"
    using ports.fetch_inv [OF wf2] ports.fetch_view [OF wf2, of p] v2 by auto
  have "min (nat payload_len) UDP_RXBUF_SIZE = nat payload_len" using len by simp
  then have del: "udp_deliver src_ip src_port p payload payload_len s1 = Some ((), set_binds ?bs2 s)"
    using udp_deliver_eq [of s1 payload_len payload src_ip src_port p] wf1 len s1
    by (simp del: UDP_RXBUF_SIZE_def)
  have ne: "?d \<noteq> []" "\<not> mx < 0" "min (nat payload_len) (nat mx) = nat payload_len"
    "take (nat mx) ?d = ?d" using len room ld by auto
  have rcv: "udp_recv p buf mx (set_binds ?bs2 s) =
      Some ((payload_len, ?d @ drop (nat payload_len) buf, Some (src_ip, src_port)), set_binds ?bs3 s)"
    using udp_recv_eq [of "set_binds ?bs2 s" mx buf p] wf2 v2 ne room ld len
    by (simp del: take_take length_take take_eq_Nil)
  have "udp_recv p buf mx (set_binds ?bs3 s) = Some ((0, buf, None), set_binds ?bs3 s)"
    using udp_recv_eq [of "set_binds ?bs3 s" mx buf p] wf3 v3 ne room by simp
  with del rcv that show ?thesis by blast
qed

end
