(* ===== verification/Libc_String.thy ===== *)
theory Libc_String
  imports Prelude
begin

text \<open>
  The string and memory functions of \<open>include/libc.h\<close>. A \<open>const char *\<close> is the bytes from the pointer
  to the end of its array, a result that points into an argument is its offset there; \<open>None\<close> inside is
  the null pointer. \<open>char\<close> is signed on the target, so that comparisons between different characters
  are on \<open>sint\<close> unless the code casts to \<open>unsigned char\<close>. Objects are smaller than the address space,
  \<open>size_t\<close> is \<open>nat\<close>: no sum of the code wraps. A destination is a different object from the source,
  except in \<open>memmove\<close>, whose two pointers go into the same one.
\<close>

section \<open>Model: search and comparison\<close>

fun strlen :: "u8 list \<Rightarrow> nat option" where
  "strlen [] = None"
| "strlen (c # str) = (if c \<noteq> 0 then map_option Suc (strlen str) else Some 0)"

fun strcmp :: "u8 list \<Rightarrow> u8 list \<Rightarrow> int option" where
  "strcmp (a # s1) (b # s2) = (if a \<noteq> 0 \<and> a = b then strcmp s1 s2 else Some (uint a - uint b))"
| "strcmp _ _ = None"

fun strncmp_loop :: "u8 list \<Rightarrow> u8 list \<Rightarrow> nat \<Rightarrow> int option" where
  "strncmp_loop (a # s1) (b # s2) (Suc n) =
     (if a \<noteq> 0 \<and> a = b \<and> n \<noteq> 0 then strncmp_loop s1 s2 n else Some (uint a - uint b))"
| "strncmp_loop _ _ _ = None"

definition strncmp :: "u8 list \<Rightarrow> u8 list \<Rightarrow> nat \<Rightarrow> int option" where
  "strncmp s1 s2 n = (if n = 0 then Some 0 else strncmp_loop s1 s2 n)"

definition lower_char :: "u8 \<Rightarrow> int" where
  "lower_char c = (if 65 \<le> sint c \<and> sint c \<le> 90 then sint c + 32 else sint c)"

fun strcasecmp :: "u8 list \<Rightarrow> u8 list \<Rightarrow> int option" where
  "strcasecmp (a # s1) (b # s2) =
     (if a \<noteq> 0 then
        (if lower_char a \<noteq> lower_char b then Some (lower_char a - lower_char b) else strcasecmp s1 s2)
      else Some (uint a - uint b))"
| "strcasecmp _ _ = None"

text \<open>\<open>i\<close> is how far the pointer has moved.\<close>

fun strchr_loop :: "u8 list \<Rightarrow> int \<Rightarrow> nat \<Rightarrow> nat option option" where
  "strchr_loop [] c i = None"
| "strchr_loop (a # str) c i =
     (if a \<noteq> 0 then (if a = of_int c then Some (Some i) else strchr_loop str c (Suc i))
      else Some (if c = 0 then Some i else None))"

definition strchr :: "u8 list \<Rightarrow> int \<Rightarrow> nat option option" where
  "strchr str c = strchr_loop str c 0"

fun strrchr_loop :: "u8 list \<Rightarrow> int \<Rightarrow> nat \<Rightarrow> nat option \<Rightarrow> nat option option" where
  "strrchr_loop [] c i last_at = None"
| "strrchr_loop (a # str) c i last_at =
     (if a \<noteq> 0 then strrchr_loop str c (Suc i) (if a = of_int c then Some i else last_at)
      else Some (if c = 0 then Some i else last_at))"

definition strrchr :: "u8 list \<Rightarrow> int \<Rightarrow> nat option option" where
  "strrchr str c = strrchr_loop str c 0 None"

text \<open>The inner loop of \<open>strstr\<close>: whether the needle was used up.\<close>

fun match_here :: "u8 list \<Rightarrow> u8 list \<Rightarrow> bool option" where
  "match_here (h # hs) (n # ns) =
     (if h \<noteq> 0 \<and> n \<noteq> 0 \<and> h = n then match_here hs ns else Some (n = 0))"
| "match_here _ _ = None"

fun strstr_loop :: "u8 list \<Rightarrow> u8 list \<Rightarrow> nat \<Rightarrow> nat option option" where
  "strstr_loop [] needle i = None"
| "strstr_loop (h # hs) needle i =
     (if h \<noteq> 0 then do {
        found \<leftarrow> match_here (h # hs) needle;
        if found then Some (Some i) else strstr_loop hs needle (Suc i)
      } else Some None)"

definition strstr :: "u8 list \<Rightarrow> u8 list \<Rightarrow> nat option option" where
  "strstr haystack needle = do {
     n \<leftarrow> ld8 needle 0;
     if n = 0 then Some (Some 0) else strstr_loop haystack needle 0
   }"

section \<open>Model: the tokenizer\<close>

text \<open>
  The object the tokens are in, and the static pointer \<open>last\<close> into it: \<open>str\<close> and the results are
  offsets in it.
\<close>

definition is_delim :: "u8 list \<Rightarrow> u8 \<Rightarrow> bool option" where
  "is_delim delim c = map_option (\<lambda>r. r \<noteq> None) (strchr delim (sint c))"

function skip_while :: "bool \<Rightarrow> u8 list \<Rightarrow> u8 list \<Rightarrow> nat \<Rightarrow> nat option" where
  "skip_while wanted delim obj i = do {
     c \<leftarrow> ld8 obj i;
     if c = 0 then Some i
     else do {
       d \<leftarrow> is_delim delim c;
       if d = wanted then skip_while wanted delim obj (Suc i) else Some i
     }
   }"
  by pat_completeness auto
termination
  by (relation "measure (\<lambda>(wanted, delim, obj, i). length obj - i)") (auto simp: ld8_def split: if_splits)

declare skip_while.simps [simp del]

definition strtok ::
  "nat option \<Rightarrow> u8 list \<Rightarrow> u8 list \<times> nat option \<Rightarrow> (nat option \<times> u8 list \<times> nat option) option" where
  "strtok str delim st =
     (case st of (obj, last_ptr) \<Rightarrow>
        (case (case str of Some p \<Rightarrow> Some p | None \<Rightarrow> last_ptr) of
           None \<Rightarrow> Some (None, obj, None)
         | Some p \<Rightarrow> do {
             c \<leftarrow> ld8 obj p;
             if c = 0 then Some (None, obj, Some p)
             else do {
               tok \<leftarrow> skip_while True delim obj p;
               c \<leftarrow> ld8 obj tok;
               if c = 0 then Some (None, obj, Some tok)
               else do {
                 e \<leftarrow> skip_while False delim obj tok;
                 c \<leftarrow> ld8 obj e;
                 if c \<noteq> 0 then do {
                   obj \<leftarrow> st8 e 0 obj;
                   Some (Some tok, obj, Some (Suc e))
                 } else Some (Some tok, obj, Some e)
               }
             }
           }))"

section \<open>Model: copying\<close>

text \<open>
  The loop the bounded copies share: at most \<open>k\<close> more characters from \<open>src[i]\<close> to \<open>dest[off + i]\<close>, up
  to the end of the string.
\<close>

fun str_copy :: "nat \<Rightarrow> nat \<Rightarrow> nat \<Rightarrow> u8 list \<Rightarrow> u8 list \<Rightarrow> (nat \<times> u8 list) option" where
  "str_copy off i 0 src dest = Some (i, dest)"
| "str_copy off i (Suc k) src dest = do {
     c \<leftarrow> ld8 src i;
     if c = 0 then Some (i, dest)
     else do { dest \<leftarrow> st8 (off + i) c dest; str_copy off (Suc i) k src dest }
   }"

definition strlcpy_at :: "nat \<Rightarrow> u8 list \<Rightarrow> u8 list \<Rightarrow> nat \<Rightarrow> (nat \<times> u8 list) option" where
  "strlcpy_at off dest src sz = do {
     src_len \<leftarrow> strlen src;
     if 0 < sz then do {
       (i, dest) \<leftarrow> str_copy off 0 (sz - 1) src dest;
       dest \<leftarrow> st8 (off + i) 0 dest;
       Some (src_len, dest)
     } else Some (src_len, dest)
   }"

definition strlcpy :: "u8 list \<Rightarrow> u8 list \<Rightarrow> nat \<Rightarrow> (nat \<times> u8 list) option" where
  "strlcpy dest src sz = strlcpy_at 0 dest src sz"

definition strlcat :: "u8 list \<Rightarrow> u8 list \<Rightarrow> nat \<Rightarrow> (nat \<times> u8 list) option" where
  "strlcat dest src sz = do {
     dest_len \<leftarrow> strlen dest;
     src_len \<leftarrow> strlen src;
     if sz \<le> dest_len then Some (sz + src_len, dest)
     else do {
       (_, dest) \<leftarrow> strlcpy_at dest_len dest src (sz - dest_len);
       Some (dest_len + src_len, dest)
     }
   }"

text \<open>\<open>while ((*d++ = *src++) != 0)\<close>, with \<open>d\<close> an offset.\<close>

fun copy_through :: "nat \<Rightarrow> u8 list \<Rightarrow> u8 list \<Rightarrow> u8 list option" where
  "copy_through d [] dest = None"
| "copy_through d (c # src) dest = do {
     dest \<leftarrow> st8 d c dest;
     if c \<noteq> 0 then copy_through (Suc d) src dest else Some dest
   }"

definition strcpy :: "u8 list \<Rightarrow> u8 list \<Rightarrow> u8 list option" where
  "strcpy dest src = copy_through 0 src dest"

fun zero_fill :: "nat \<Rightarrow> nat \<Rightarrow> u8 list \<Rightarrow> u8 list option" where
  "zero_fill i 0 dest = Some dest"
| "zero_fill i (Suc k) dest = do { dest \<leftarrow> st8 i 0 dest; zero_fill (Suc i) k dest }"

definition strncpy :: "u8 list \<Rightarrow> u8 list \<Rightarrow> nat \<Rightarrow> u8 list option" where
  "strncpy dest src n = do {
     (i, dest) \<leftarrow> str_copy 0 0 n src dest;
     zero_fill i (n - i) dest
   }"

definition strcat :: "u8 list \<Rightarrow> u8 list \<Rightarrow> u8 list option" where
  "strcat dest src = do { d \<leftarrow> strlen dest; copy_through d src dest }"

definition strncat :: "u8 list \<Rightarrow> u8 list \<Rightarrow> nat \<Rightarrow> u8 list option" where
  "strncat dest src n = do {
     d \<leftarrow> strlen dest;
     (i, dest) \<leftarrow> str_copy d 0 n src dest;
     st8 (d + i) 0 dest
   }"

text \<open>\<open>None\<close> as \<open>dest\<close> or \<open>src\<close> is the null pointer.\<close>

definition safe_strcpy :: "u8 list option \<Rightarrow> nat \<Rightarrow> u8 list option \<Rightarrow> (nat \<times> u8 list option) option" where
  "safe_strcpy dest dest_sz src =
     (case (dest, src) of
        (Some d, Some s) \<Rightarrow>
          if dest_sz = 0 then Some (0, dest)
          else do {
            (i, d) \<leftarrow> str_copy 0 0 (dest_sz - 1) s d;
            d \<leftarrow> st8 i 0 d;
            Some (i, Some d)
          }
      | _ \<Rightarrow> Some (0, dest))"

definition safe_strcat :: "u8 list \<Rightarrow> nat \<Rightarrow> u8 list \<Rightarrow> (nat \<times> u8 list) option" where
  "safe_strcat dest dest_sz src = strlcat dest src dest_sz"

section \<open>Model: memory\<close>

fun memset_loop :: "nat \<Rightarrow> u8 \<Rightarrow> nat \<Rightarrow> u8 list \<Rightarrow> u8 list option" where
  "memset_loop p v 0 dest = Some dest"
| "memset_loop p v (Suc len) dest = do { dest \<leftarrow> st8 p v dest; memset_loop (Suc p) v len dest }"

definition memset :: "u8 list \<Rightarrow> int \<Rightarrow> nat \<Rightarrow> u8 list option" where
  "memset dest val len = memset_loop 0 (of_int val) len dest"

fun memcpy_loop :: "nat \<Rightarrow> nat \<Rightarrow> u8 list \<Rightarrow> u8 list \<Rightarrow> u8 list option" where
  "memcpy_loop i 0 src dest = Some dest"
| "memcpy_loop i (Suc len) src dest = do {
     c \<leftarrow> ld8 src i;
     dest \<leftarrow> st8 i c dest;
     memcpy_loop (Suc i) len src dest
   }"

definition memcpy :: "u8 list \<Rightarrow> u8 list \<Rightarrow> nat \<Rightarrow> u8 list option" where
  "memcpy dest src len = memcpy_loop 0 len src dest"

text \<open>Both pointers of \<open>memmove\<close> go into the object \<open>m\<close>: upwards or downwards, byte by byte.\<close>

fun move_up :: "nat \<Rightarrow> nat \<Rightarrow> nat \<Rightarrow> u8 list \<Rightarrow> u8 list option" where
  "move_up d s 0 m = Some m"
| "move_up d s (Suc n) m = do { c \<leftarrow> ld8 m s; m \<leftarrow> st8 d c m; move_up (Suc d) (Suc s) n m }"

fun move_down :: "nat \<Rightarrow> nat \<Rightarrow> nat \<Rightarrow> u8 list \<Rightarrow> u8 list option" where
  "move_down d s 0 m = Some m"
| "move_down d s (Suc n) m = do { c \<leftarrow> ld8 m (s + n); m \<leftarrow> st8 (d + n) c m; move_down d s n m }"

definition memmove :: "nat \<Rightarrow> nat \<Rightarrow> nat \<Rightarrow> u8 list \<Rightarrow> u8 list option" where
  "memmove d s n m = (if d < s then move_up d s n m else if s < d then move_down d s n m else Some m)"

fun memcmp :: "u8 list \<Rightarrow> u8 list \<Rightarrow> nat \<Rightarrow> int option" where
  "memcmp p1 p2 0 = Some 0"
| "memcmp (a # p1) (b # p2) (Suc n) = (if a \<noteq> b then Some (uint a - uint b) else memcmp p1 p2 n)"
| "memcmp _ _ (Suc n) = None"

section \<open>C strings\<close>

text \<open>\<open>cstr s p\<close>: at \<open>p\<close> there is the string \<open>s\<close> with its terminator, whatever follows in the object.\<close>

definition cstr :: "u8 list \<Rightarrow> u8 list \<Rightarrow> bool" where
  "cstr s p \<longleftrightarrow> 0 \<notin> set s \<and> (\<exists>r. p = s @ 0 # r)"

lemma cstrI [intro]: "0 \<notin> set s \<Longrightarrow> cstr s (s @ 0 # r)"
  by (auto simp: cstr_def)

lemma cstrE:
  assumes "cstr s p"
  obtains r where "p = s @ 0 # r" "0 \<notin> set s"
  using assms by (auto simp: cstr_def)

lemma cstr_Nil_iff [simp]: "cstr [] (c # p) \<longleftrightarrow> c = 0"
  by (auto simp: cstr_def)

lemma cstr_Cons_iff [simp]: "cstr (a # s) (c # p) \<longleftrightarrow> a = c \<and> c \<noteq> 0 \<and> cstr s p"
  by (auto simp: cstr_def)

lemma cstr_empty [simp]: "\<not> cstr s []"
  by (auto simp: cstr_def)

text \<open>Induction along a string in memory.\<close>

lemma cstr_induct [consumes 1, case_names Nil Cons]:
  assumes "cstr s p" "\<And>p. P [] (0 # p)" "\<And>c s p. c \<noteq> 0 \<Longrightarrow> cstr s p \<Longrightarrow> P s p \<Longrightarrow> P (c # s) (c # p)"
  shows "P s p"
  using assms(1)
proof (induction s arbitrary: p)
  case Nil
  then show ?case using assms(2) by (cases p) auto
next
  case (Cons c s)
  then show ?case using assms(3) by (cases p) auto
qed

lemma cstr_length: "cstr s p \<Longrightarrow> length s < length p"
  by (auto simp: cstr_def)

lemma cstr_nth: "cstr s p \<Longrightarrow> i < length s \<Longrightarrow> p ! i = s ! i \<and> s ! i \<noteq> 0"
  by (auto simp: cstr_def nth_append dest: nth_mem)

lemma cstr_end: "cstr s p \<Longrightarrow> p ! length s = 0"
  by (auto simp: cstr_def)

lemma cstr_unique: "cstr s p \<Longrightarrow> cstr t p \<Longrightarrow> s = t"
proof (induction s p arbitrary: t rule: cstr_induct)
  case (Nil p)
  then show ?case by (cases t) auto
next
  case (Cons c s p)
  then obtain t' where "t = c # t'" "cstr t' p" by (cases t) auto
  with Cons.IH [of t'] show ?case by simp
qed

text \<open>An object without a terminator holds no string: reading one runs out of it.\<close>

lemma strlen_cstr: "cstr s p \<Longrightarrow> strlen p = Some (length s)"
  by (induction s p rule: cstr_induct) auto

lemma strlen_iff: "strlen p = Some n \<longleftrightarrow> (\<exists>s. cstr s p \<and> length s = n)"
proof
  show "strlen p = Some n \<Longrightarrow> \<exists>s. cstr s p \<and> length s = n"
  proof (induction p arbitrary: n)
    case (Cons c p)
    show ?case
    proof (cases "c = 0")
      case True
      with Cons show ?thesis by (intro exI [of _ "[]"]) auto
    next
      case False
      with Cons.prems obtain m where m: "strlen p = Some m" "n = Suc m" by auto
      then obtain s where "cstr s p" "length s = m" using Cons.IH by blast
      with False m show ?thesis by (intro exI [of _ "c # s"]) auto
    qed
  qed simp
qed (auto simp: strlen_cstr)

section \<open>Comparing\<close>

lemma uint_eq_iff: "uint a = uint b \<longleftrightarrow> a = b" for a b :: u8
  by (simp add: word_uint_eq_iff)

lemma uint_pos: "a \<noteq> 0 \<Longrightarrow> 0 < uint a" for a :: u8
  using uint_ge_0 [of a] by (simp add: less_le uint_0_iff del: uint_ge_0)

lemma strcmp_cstr:
  assumes "cstr s p" "cstr t q"
  shows "\<exists>d. strcmp p q = Some d \<and> (d = 0 \<longleftrightarrow> s = t) \<and> (d < 0 \<longleftrightarrow> ord_class.lexordp s t)"
  using assms
proof (induction s p arbitrary: t q rule: cstr_induct)
  case (Nil p)
  then show ?case by (cases t; cases q) (auto simp: uint_0_iff uint_pos)
next
  case (Cons c s p)
  show ?case
  proof (cases t)
    case Nil
    with Cons show ?thesis by (cases q) (auto simp: uint_0_iff)
  next
    case (Cons b t')
    with Cons.prems obtain q' where q: "q = b # q'" "b \<noteq> 0" "cstr t' q'" by (cases q) auto
    show ?thesis
    proof (cases "c = b")
      case True
      with Cons.IH [OF q(3)] Cons q Cons.hyps show ?thesis by auto
    next
      case False
      then have "\<not> uint b < uint c \<longleftrightarrow> uint c < uint b" by (auto simp: not_less le_less uint_eq_iff)
      with False Cons q Cons.hyps show ?thesis by (auto simp: uint_eq_iff word_less_def)
    qed
  qed
qed

text \<open>Swapping the arguments turns the sign around.\<close>

lemma strcmp_swap: "strcmp p q = Some d \<Longrightarrow> strcmp q p = Some (- d)"
  by (induction p q rule: strcmp.induct) (auto split: if_splits)

lemma strncmp_loop_cstr:
  assumes "cstr s p" "cstr t q"
  shows "\<exists>d. strncmp_loop p q (Suc n) = Some d \<and> (d = 0 \<longleftrightarrow> take (Suc n) s = take (Suc n) t)"
  using assms
proof (induction s p arbitrary: t q n rule: cstr_induct)
  case (Nil p)
  then show ?case by (cases t; cases q) (auto simp: uint_0_iff)
next
  case (Cons c s p)
  show ?case
  proof (cases t)
    case Nil
    with Cons show ?thesis by (cases q) (auto simp: uint_0_iff)
  next
    case (Cons b t')
    with Cons.prems obtain q' where q: "q = b # q'" "b \<noteq> 0" "cstr t' q'" by (cases q) auto
    show ?thesis
    proof (cases "c = b \<and> n \<noteq> 0")
      case True
      then obtain m where "n = Suc m" by (cases n) auto
      with True Cons.IH [OF q(3), of m] Cons q Cons.hyps show ?thesis by auto
    next
      case False
      with Cons q Cons.hyps show ?thesis by (auto simp: uint_eq_iff)
    qed
  qed
qed

lemma strncmp_cstr:
  assumes "cstr s p" "cstr t q"
  shows "\<exists>d. strncmp p q n = Some d \<and> (d = 0 \<longleftrightarrow> take n s = take n t)"
  using strncmp_loop_cstr [OF assms, of "n - 1"] by (cases n) (auto simp: strncmp_def)

text \<open>For ASCII strings \<open>strcasecmp\<close> is comparison up to case.\<close>

definition ascii :: "u8 \<Rightarrow> bool" where
  "ascii c \<longleftrightarrow> c < 128"

definition to_lower :: "u8 \<Rightarrow> u8" where
  "to_lower c = (if 65 \<le> c \<and> c \<le> 90 then c + 32 else c)"

lemma sint_ascii: "ascii c \<Longrightarrow> sint c = uint c"
proof -
  assume "ascii c"
  then have "uint c < 2 ^ 7" by (simp add: ascii_def word_less_def)
  then have "take_bit 7 (uint c) = uint c" "uint c div 2 ^ 7 = 0"
    by (simp_all add: take_bit_int_eq_self_iff)
  then have "take_bit 7 (uint c) = uint c" "\<not> bit (uint c) 7"
    by (simp_all only: bit_iff_odd) simp_all
  then show "sint c = uint c"
    by (simp add: sint_uint signed_take_bit_eq_if_positive)
qed

lemma lower_char_ascii: "ascii c \<Longrightarrow> lower_char c = uint (to_lower c)"
proof -
  assume c: "ascii c"
  have "uint (c + 32) = uint c + 32" if "uint c \<le> 90"
    using that by (simp add: uint_word_ariths)
  with c show ?thesis by (auto simp: lower_char_def to_lower_def sint_ascii word_le_def)
qed

lemma to_lower_0 [simp]: "to_lower c = 0 \<longleftrightarrow> c = 0"
proof
  assume "to_lower c = 0"
  moreover have "uint (c + 32) = uint c + 32" if "uint c \<le> 90"
    using that by (simp add: uint_word_ariths)
  ultimately show "c = 0"
    by (auto simp: to_lower_def word_le_def word_uint_eq_iff split: if_splits)
qed (simp add: to_lower_def)

lemma strcasecmp_cstr:
  assumes "cstr s p" "cstr t q" "\<forall>c\<in>set s. ascii c" "\<forall>c\<in>set t. ascii c"
  shows "\<exists>d. strcasecmp p q = Some d \<and> (d = 0 \<longleftrightarrow> map to_lower s = map to_lower t)"
  using assms
proof (induction s p arbitrary: t q rule: cstr_induct)
  case (Nil p)
  then show ?case by (cases t; cases q) (auto simp: uint_0_iff)
next
  case (Cons c s p)
  have c: "lower_char c = uint (to_lower c)" using Cons.prems by (simp add: lower_char_ascii)
  show ?case
  proof (cases t)
    case Nil
    have "lower_char 0 = 0" by (simp add: lower_char_def)
    with Nil Cons c show ?thesis by (cases q) (auto simp: uint_0_iff)
  next
    case (Cons b t')
    with Cons.prems obtain q' where q: "q = b # q'" "b \<noteq> 0" "cstr t' q'" by (cases q) auto
    have b: "lower_char b = uint (to_lower b)" using Cons.prems Cons by (simp add: lower_char_ascii)
    show ?thesis
    proof (cases "to_lower c = to_lower b")
      case True
      with Cons.IH [OF q(3)] Cons Cons.prems q c b Cons.hyps show ?thesis by auto
    next
      case False
      with Cons q c b Cons.hyps show ?thesis by (auto simp: uint_eq_iff)
    qed
  qed
qed

section \<open>Searching\<close>

lemma shift_found: "map_option ((+) (Suc i)) r = map_option ((+) i) (map_option Suc r)"
  by (cases r) auto

lemma strchr_loop_cstr:
  "cstr s p \<Longrightarrow> of_int c \<noteq> (0 :: u8) \<Longrightarrow>
   strchr_loop p c i = Some (map_option ((+) i) (first_index (\<lambda>a. a = of_int c) s))"
proof (induction s p arbitrary: i rule: cstr_induct)
  case (Nil p)
  then show ?case by auto
next
  case (Cons d s p)
  then show ?case by (auto simp: shift_found)
qed

text \<open>\<open>strchr\<close> finds the first occurrence of a character other than the terminator.\<close>

lemma strchr_cstr:
  "cstr s p \<Longrightarrow> of_int c \<noteq> (0 :: u8) \<Longrightarrow> strchr p c = Some (first_index (\<lambda>a. a = of_int c) s)"
  using strchr_loop_cstr [of s p c 0] by (simp add: strchr_def option.map_ident_strong)

lemma strchr_loop_0: "cstr s p \<Longrightarrow> strchr_loop p 0 i = Some (Some (i + length s))"
  by (induction s p arbitrary: i rule: cstr_induct) auto

lemma strchr_0: "cstr s p \<Longrightarrow> strchr p 0 = Some (Some (length s))"
  by (simp add: strchr_def strchr_loop_0)

text \<open>\<open>strrchr\<close> finds the last one.\<close>

lemma strrchr_loop_cstr:
  "cstr s p \<Longrightarrow> of_int c \<noteq> (0 :: u8) \<Longrightarrow>
   \<exists>r. strrchr_loop p c i l = Some r \<and>
     (if of_int c \<in> set s
      then \<exists>j. r = Some (i + j) \<and> j < length s \<and> s ! j = of_int c \<and> (\<forall>k. j < k \<longrightarrow> k < length s \<longrightarrow> s ! k \<noteq> of_int c)
      else r = l)"
proof (induction s p arbitrary: i l rule: cstr_induct)
  case (Nil p)
  then show ?case by auto
next
  case (Cons d s p)
  let ?l = "if d = of_int c then Some i else l"
  obtain r where r: "strrchr_loop p c (Suc i) ?l = Some r"
    and spec: "if of_int c \<in> set s
      then \<exists>j. r = Some (Suc i + j) \<and> j < length s \<and> s ! j = of_int c \<and> (\<forall>k. j < k \<longrightarrow> k < length s \<longrightarrow> s ! k \<noteq> of_int c)
      else r = ?l"
    using Cons.IH [OF Cons.prems, of "Suc i" ?l] by blast
  have run: "strrchr_loop (d # p) c i l = Some r" using r Cons.hyps by simp
  show ?case
  proof (cases "of_int c \<in> set s")
    case True
    with spec obtain j where j: "r = Some (Suc i + j)" "j < length s" "s ! j = of_int c"
      "\<And>k. j < k \<Longrightarrow> k < length s \<Longrightarrow> s ! k \<noteq> of_int c" by auto
    have "(d # s) ! k \<noteq> of_int c" if "Suc j < k" "k < length (d # s)" for k
      using that j(4) [of "k - 1"] by (cases k) auto
    with run True j show ?thesis by (intro exI [of _ r]) (auto intro!: exI [of _ "Suc j"])
  next
    case False
    have "(d # s) ! k \<noteq> of_int c" if "0 < k" "k < length (d # s)" for k
      using that False by (cases k) (auto dest: nth_mem)
    with run False spec show ?thesis by (intro exI [of _ r]) auto
  qed
qed

lemma strrchr_cstr:
  assumes "cstr s p" "of_int c \<noteq> (0 :: u8)"
  shows "\<exists>r. strrchr p c = Some r \<and>
    (if of_int c \<in> set s
     then \<exists>j. r = Some j \<and> j < length s \<and> s ! j = of_int c \<and> (\<forall>k. j < k \<longrightarrow> k < length s \<longrightarrow> s ! k \<noteq> of_int c)
     else r = None)"
  using strrchr_loop_cstr [OF assms, of 0 None] unfolding strrchr_def plus_nat.add_0 .

text \<open>\<open>strstr\<close> finds the first place where the needle starts.\<close>

lemma match_here_cstr:
  assumes "cstr s p" "cstr t q"
  shows "match_here p q = Some (take (length t) s = t)"
  using assms
proof (induction s p arbitrary: t q rule: cstr_induct)
  case (Nil p)
  then show ?case by (cases t; cases q) auto
next
  case (Cons c s p)
  then show ?case by (cases t; cases q) auto
qed

definition starts_at :: "u8 list \<Rightarrow> u8 list \<Rightarrow> nat \<Rightarrow> bool" where
  "starts_at t s i \<longleftrightarrow> take (length t) (drop i s) = t"

lemma strstr_loop_cstr:
  assumes "cstr s p" "cstr t q" "t \<noteq> []"
  shows "strstr_loop p q i = Some (map_option ((+) i) (first_index (starts_at t s) [0..<length s]))"
  using assms
proof (induction s p arbitrary: i rule: cstr_induct)
  case (Nil p)
  then show ?case by simp
next
  case (Cons c s p)
  have m: "match_here (c # p) q = Some (starts_at t (c # s) 0)"
    using match_here_cstr [of "c # s" "c # p" t q] Cons by (simp add: starts_at_def)
  have e: "[0..<length (c # s)] = 0 # map Suc [0..<length s]"
    by (simp add: upt_conv_Cons map_Suc_upt del: upt_Suc)
  have sh: "first_index (starts_at t (c # s)) (map Suc js) = first_index (starts_at t s) js" for js
    by (induction js) (auto simp: starts_at_def)
  show ?case
    using Cons m unfolding e by (auto simp: sh shift_found)
qed

lemma strstr_cstr:
  assumes "cstr s p" "cstr t q"
  shows "strstr p q = Some (if t = [] then Some 0 else first_index (starts_at t s) [0..<length s])"
proof (cases t)
  case Nil
  with assms(2) show ?thesis by (cases q) (auto simp: strstr_def ld8_def)
next
  case (Cons c t')
  with assms(2) obtain q' where "q = c # q'" "c \<noteq> 0" by (cases q) auto
  with Cons strstr_loop_cstr [OF assms, of 0] show ?thesis
    by (simp add: strstr_def ld8_def option.map_ident_strong)
qed

section \<open>Tokens\<close>

lemma is_delim_cstr: "cstr ds delim \<Longrightarrow> c \<noteq> 0 \<Longrightarrow> is_delim delim c = Some (c \<in> set ds)"
  using first_index_None [of "\<lambda>a. a = c" ds] by (simp add: is_delim_def strchr_cstr del: not_None_eq)

text \<open>Skipping stops behind the longest run of (non-)delimiters.\<close>

lemma skip_while_cstr:
  assumes "cstr ds delim"
  shows "cstr s p \<Longrightarrow> skip_while b delim (pre @ p) (length pre) =
    Some (length pre + length (takeWhile (\<lambda>c. (c \<in> set ds) = b) s))"
proof (induction s p arbitrary: pre rule: cstr_induct)
  case (Nil p)
  then show ?case by (simp add: skip_while.simps [of b delim] ld8_def)
next
  case (Cons c s p)
  from Cons.IH [of "pre @ [c]"] Cons.hyps is_delim_cstr [OF assms, of c] show ?case
    by (simp add: skip_while.simps [of b delim "pre @ c # p"] ld8_def)
qed

text \<open>
  The token that \<open>strtok\<close> returns from the string \<open>s\<close> at \<open>p\<close>, what it leaves for the next call, and
  the whole sequence: the maximal runs of other characters.
\<close>

definition next_token :: "u8 list \<Rightarrow> u8 list \<Rightarrow> u8 list \<times> u8 list" where
  "next_token ds s =
     (let s = dropWhile (\<lambda>c. c \<in> set ds) s
      in (takeWhile (\<lambda>c. c \<notin> set ds) s, drop 1 (dropWhile (\<lambda>c. c \<notin> set ds) s)))"

lemma next_token_shorter: "s \<noteq> [] \<Longrightarrow> length (snd (next_token ds s)) < length s"
proof -
  assume "s \<noteq> []"
  let ?s = "dropWhile (\<lambda>c. c \<in> set ds) s" and ?r = "dropWhile (\<lambda>c. c \<notin> set ds) (dropWhile (\<lambda>c. c \<in> set ds) s)"
  have "length ?r \<le> length s" using length_dropWhile_le le_trans by blast
  moreover have "length (snd (next_token ds s)) = length ?r - 1" by (simp add: next_token_def Let_def)
  ultimately show ?thesis using \<open>s \<noteq> []\<close> by (cases "length ?r") auto
qed

function tokens :: "u8 list \<Rightarrow> u8 list \<Rightarrow> u8 list list" where
  "tokens ds s =
     (if s = [] \<or> fst (next_token ds s) = [] then []
      else fst (next_token ds s) # tokens ds (snd (next_token ds s)))"
  by pat_completeness auto
termination by (relation "measure (\<lambda>(ds, s). length s)") (auto intro: next_token_shorter)

declare tokens.simps [simp del]

lemma cstr_drop: "cstr s p \<Longrightarrow> i \<le> length s \<Longrightarrow> cstr (drop i s) (drop i p)"
  by (auto simp: cstr_def dest: in_set_dropD)

text \<open>Cutting a string short by a terminator.\<close>

lemma cstr_cut: "cstr s p \<Longrightarrow> i \<le> length s \<Longrightarrow> cstr (take i s) (p[i := 0])"
proof -
  assume s: "cstr s p" "i \<le> length s"
  then obtain r where p: "p = s @ 0 # r" "0 \<notin> set s" by (auto elim: cstrE)
  have "p[i := 0] = take i s @ 0 # drop (Suc i) p"
    using s(2) p by (simp add: upd_conv_take_nth_drop)
  with p(2) show ?thesis by (auto simp: cstr_def dest: in_set_takeD)
qed

lemma st8_eq: "i < length p \<Longrightarrow> st8 i v p = Some (p[i := v])"
  by (simp add: st8_def wr_def upd_conv_take_nth_drop)

lemma ld8_drop: "ld8 (drop l p) i = ld8 p (l + i)"
  by (auto simp: ld8_def)

lemma cstr_ld8:
  assumes "cstr s (drop l p)"
  shows "ld8 p l = Some (if s = [] then 0 else hd s)"
proof -
  have "l < length p" using cstr_length [OF assms] by simp
  with assms show ?thesis by (cases s; cases "drop l p") (auto simp: ld8_def nth_via_drop)
qed

text \<open>One call: there is no token left, or it returns the next one, terminated in place.\<close>

lemma strtok_scan:
  assumes ds: "cstr ds delim" and s: "cstr s (drop l obj)" and nt: "next_token ds s = (tok, rest)"
  obtains i s' where "s' = dropWhile (\<lambda>c. c \<in> set ds) s" "l \<le> i" "i < length obj" "cstr s' (drop i obj)"
    "tok = takeWhile (\<lambda>c. c \<notin> set ds) s'" "rest = drop 1 (dropWhile (\<lambda>c. c \<notin> set ds) s')"
    "skip_while True delim obj l = Some i" "skip_while False delim obj i = Some (i + length tok)"
    "ld8 obj l = Some (if s = [] then 0 else hd s)" "ld8 obj i = Some (if s' = [] then 0 else hd s')"
proof -
  let ?sp = "length (takeWhile (\<lambda>c. c \<in> set ds) s)" and ?s = "dropWhile (\<lambda>c. c \<in> set ds) s"
  define i where "i = l + ?sp"
  have tok: "tok = takeWhile (\<lambda>c. c \<notin> set ds) ?s" and rest: "rest = drop 1 (dropWhile (\<lambda>c. c \<notin> set ds) ?s)"
    using nt by (auto simp: next_token_def Let_def)
  have l: "l \<le> length obj" using cstr_length [OF s] by simp
  have s': "cstr ?s (drop i obj)"
    using cstr_drop [OF s, of ?sp] length_takeWhile_le [of _ s] l by (simp add: i_def dropWhile_eq_drop add.commute)
  have i: "i < length obj" using cstr_length [OF s'] by simp
  have skip1: "skip_while True delim obj l = Some i"
    using skip_while_cstr [OF ds s, of True "take l obj"] l by (simp add: i_def)
  have skip2: "skip_while False delim obj i = Some (i + length tok)"
    using skip_while_cstr [OF ds s', of False "take i obj"] i by (simp add: tok)
  show ?thesis
    by (rule that [OF refl _ i s' tok rest skip1 skip2 cstr_ld8 [OF s] cstr_ld8 [OF s']]) (simp add: i_def)
qed

lemma strtok_next_none:
  assumes ds: "cstr ds delim" and s: "cstr s (drop l obj)" and nt: "next_token ds s = ([], rest)"
  shows "\<exists>l'. strtok None delim (obj, Some l) = Some (None, obj, Some l')"
proof (rule strtok_scan [OF assms])
  fix i s'
  assume s': "s' = dropWhile (\<lambda>c. c \<in> set ds) s" and tok: "[] = takeWhile (\<lambda>c. c \<notin> set ds) s'"
    and run: "skip_while True delim obj l = Some i" "ld8 obj l = Some (if s = [] then 0 else hd s)"
      "ld8 obj i = Some (if s' = [] then 0 else hd s')"
  have "s' = []" using tok by (cases s') (auto simp: s' dest: dropWhile_eq_Cons_conv [THEN iffD1] split: if_splits)
  moreover have "c \<noteq> 0" if "c \<in> set s" for c using s that by (auto simp: cstr_def)
  ultimately show ?thesis using run by (cases s) (auto simp: strtok_def)
qed

lemma strtok_next_some:
  assumes ds: "cstr ds delim" and s: "cstr s (drop l obj)" and nt: "next_token ds s = (tok, rest)" and tk: "tok \<noteq> []"
  shows "\<exists>i obj' l'. strtok None delim (obj, Some l) = Some (Some i, obj', Some l') \<and>
      l \<le> i \<and> length obj' = length obj \<and> take (i + length tok) obj' = take (i + length tok) obj \<and>
      cstr tok (drop i obj') \<and> cstr rest (drop l' obj') \<and> (rest = [] \<or> i + length tok < l') \<and> i \<le> l'"
proof (rule strtok_scan [OF ds s nt])
  fix i s'
  assume s': "s' = dropWhile (\<lambda>c. c \<in> set ds) s" and li: "l \<le> i" and i: "i < length obj" and cs: "cstr s' (drop i obj)"
    and tok: "tok = takeWhile (\<lambda>c. c \<notin> set ds) s'" and rest: "rest = drop 1 (dropWhile (\<lambda>c. c \<notin> set ds) s')"
    and run: "skip_while True delim obj l = Some i" "skip_while False delim obj i = Some (i + length tok)"
      "ld8 obj l = Some (if s = [] then 0 else hd s)" "ld8 obj i = Some (if s' = [] then 0 else hd s')"
  let ?e = "i + length tok" and ?t = "dropWhile (\<lambda>c. c \<notin> set ds) s'"
  have nz: "c \<noteq> 0" if "c \<in> set s" for c using s that by (auto simp: cstr_def)
  have "s' \<noteq> []" using tk unfolding tok by (metis takeWhile.simps(1))
  moreover from this have "s \<noteq> []" unfolding s' by (metis dropWhile.simps(1))
  ultimately have ne: "s' \<noteq> []" "s \<noteq> []" by blast+
  have sub: "set s' \<subseteq> set s" using set_dropWhileD by (fastforce simp: s')
  have c: "ld8 obj l = Some (hd s)" "hd s \<noteq> 0" "ld8 obj i = Some (hd s')" "hd s' \<noteq> 0"
    using run(3,4) ne nz [OF hd_in_set [OF ne(2)]] nz [OF subsetD [OF sub hd_in_set [OF ne(1)]]] by auto
  have tl: "length tok \<le> length s'" unfolding tok by (rule length_takeWhile_le)
  have t: "cstr ?t (drop ?e obj)" using cstr_drop [OF cs tl] i by (simp add: tok dropWhile_eq_drop add.commute)
  have e: "?e < length obj" using cstr_length [OF t] by simp
  have split: "s' = tok @ ?t" by (simp add: tok)
  show ?thesis
  proof (cases ?t)
    case Nil
    then have "ld8 obj ?e = Some 0" using cstr_ld8 [OF t] by simp
    then have "strtok None delim (obj, Some l) = Some (Some i, obj, Some ?e)"
      using c run(1,2) by (simp add: strtok_def)
    moreover have "s' = tok" using split unfolding Nil append_Nil2 .
    then have "cstr tok (drop i obj)" using cs by (rule subst)
    moreover have "rest = []" "cstr rest (drop ?e obj)" using t unfolding rest Nil by simp_all
    ultimately show ?thesis by (intro exI [of _ i] exI [of _ obj] exI [of _ ?e]) (simp add: li)
  next
    case (Cons b t')
    have "b \<in> set s'" using Cons by (metis list.set_intros(1) set_dropWhileD)
    then have b: "b \<noteq> 0" using nz sub by blast
    have "ld8 obj ?e = Some b" using cstr_ld8 [OF t] unfolding Cons by simp
    then have "strtok None delim (obj, Some l) = Some (Some i, obj[?e := 0], Some (Suc ?e))"
      using c run(1,2) b e by (simp add: strtok_def st8_eq)
    moreover have "take (length tok) s' = tok" using split by (metis append_eq_conv_conj)
    then have "cstr tok ((drop i obj)[length tok := 0])" using cstr_cut [OF cs tl] by (simp only:)
    then have "cstr tok (drop i (obj[?e := 0]))" by (simp add: drop_update_swap)
    moreover have "cstr rest (drop (Suc ?e) (obj[?e := 0]))" using cstr_drop [OF t, of 1] unfolding rest Cons by simp
    ultimately show ?thesis
      by (intro exI [of _ i] exI [of _ "obj[?e := 0]"] exI [of _ "Suc ?e"]) (simp add: li)
  qed
qed

lemma strtok_next:
  assumes ds: "cstr ds delim" and s: "cstr s (drop l obj)" and nt: "next_token ds s = (tok, rest)"
  shows "tok = [] \<Longrightarrow> \<exists>l'. strtok None delim (obj, Some l) = Some (None, obj, Some l')"
    and "tok \<noteq> [] \<Longrightarrow> \<exists>i obj' l'. strtok None delim (obj, Some l) = Some (Some i, obj', Some l') \<and>
      l \<le> i \<and> length obj' = length obj \<and> take (i + length tok) obj' = take (i + length tok) obj \<and>
      cstr tok (drop i obj') \<and> cstr rest (drop l' obj') \<and> (rest = [] \<or> i + length tok < l') \<and> i \<le> l'"
  using strtok_next_none [OF ds s] strtok_next_some [OF ds s nt] nt by auto

text \<open>
  The client's loop: \<open>strtok\<close> on an object, then on the null pointer until that returns no token.
  \<open>n\<close> bounds the number of calls.
\<close>

fun strtok_all :: "nat \<Rightarrow> u8 list \<Rightarrow> u8 list \<times> nat option \<Rightarrow> (nat list \<times> u8 list) option" where
  "strtok_all 0 delim st = None"
| "strtok_all (Suc n) delim st = do {
     (tok, st) \<leftarrow> strtok None delim st;
     (case tok of
        None \<Rightarrow> Some ([], fst st)
      | Some i \<Rightarrow> do { (is, obj) \<leftarrow> strtok_all n delim st; Some (i # is, obj) })
   }"

lemma take_shorter: "take n xs = take n ys \<Longrightarrow> m \<le> n \<Longrightarrow> take m xs = take m ys"
  by (metis min.absorb1 take_take)

lemma take_inside: "take n xs = take n ys \<Longrightarrow> i + k \<le> n \<Longrightarrow> take k (drop i xs) = take k (drop i ys)"
  using take_shorter [of n xs ys "i + k"] by (simp add: take_drop add.commute)

lemma tokens_nonempty: "[] \<notin> set (tokens ds s)"
  by (induction ds s rule: tokens.induct) (subst tokens.simps, auto)

lemma strtok_all_tokens:
  assumes ds: "cstr ds delim"
  shows "cstr s (drop l obj) \<Longrightarrow> length s < n \<Longrightarrow>
    \<exists>is obj'. strtok_all n delim (obj, Some l) = Some (is, obj') \<and> length obj' = length obj \<and>
      take l obj' = take l obj \<and> (tokens ds s = [] \<longrightarrow> obj' = obj) \<and>
      list_all2 (\<lambda>i t. l \<le> i \<and> cstr t (drop i obj')) is (tokens ds s)"
proof (induction n arbitrary: s l obj)
  case 0
  then show ?case by simp
next
  case (Suc n)
  obtain tok rest where nt: "next_token ds s = (tok, rest)" by fastforce
  show ?case
  proof (cases "tok = []")
    case True
    then obtain l' where "strtok None delim (obj, Some l) = Some (None, obj, Some l')"
      using strtok_next(1) [OF ds Suc.prems(1) nt] by blast
    moreover have "tokens ds s = []" using True nt by (subst tokens.simps) simp
    ultimately show ?thesis by simp
  next
    case False
    then obtain i obj1 l' where run: "strtok None delim (obj, Some l) = Some (Some i, obj1, Some l')"
      and i: "l \<le> i" "i \<le> l'" "length obj1 = length obj"
      and same: "take (i + length tok) obj1 = take (i + length tok) obj"
      and t: "cstr tok (drop i obj1)" and r: "cstr rest (drop l' obj1)" "rest = [] \<or> i + length tok < l'"
      using strtok_next(2) [OF ds Suc.prems(1) nt] by blast
    have "s \<noteq> []" using False nt by (auto simp: next_token_def)
    then have short: "length rest < n" using next_token_shorter [of s ds] nt Suc.prems(2) by simp
    obtain js obj' where rec: "strtok_all n delim (obj1, Some l') = Some (js, obj')" "length obj' = length obj1"
      "take l' obj' = take l' obj1" "tokens ds rest = [] \<longrightarrow> obj' = obj1"
      "list_all2 (\<lambda>i t. l' \<le> i \<and> cstr t (drop i obj')) js (tokens ds rest)"
      using Suc.IH [OF r(1) short] by blast
    have toks: "tokens ds s = tok # tokens ds rest" using False \<open>s \<noteq> []\<close> nt by (subst tokens.simps) simp
    have t': "cstr tok (drop i obj')"
    proof (cases "rest = []")
      case True
      then have "tokens ds rest = []" by (subst tokens.simps) simp
      with rec(4) t show ?thesis by simp
    next
      case False
      with r(2) have e: "i + length tok < l'" by simp
      have "take (Suc (length tok)) (drop i obj') = take (Suc (length tok)) (drop i obj1)"
        using take_inside [OF rec(3), of i "Suc (length tok)"] e by simp
      moreover obtain q where "drop i obj1 = tok @ 0 # q" "0 \<notin> set tok" using t by (rule cstrE)
      ultimately have "take (Suc (length tok)) (drop i obj') = tok @ [0]" by simp
      then have "drop i obj' = (tok @ [0]) @ drop (Suc (length tok)) (drop i obj')"
        by (metis append_take_drop_id)
      then have "drop i obj' = tok @ 0 # drop (Suc (length tok)) (drop i obj')" by simp
      with \<open>0 \<notin> set tok\<close> show ?thesis unfolding cstr_def by blast
    qed
    have "take l obj' = take l obj"
      using take_shorter [OF rec(3), of l] take_shorter [OF same, of l] i by simp
    moreover have "list_all2 (\<lambda>i t. l \<le> i \<and> cstr t (drop i obj')) js (tokens ds rest)"
      using rec(5) i by (auto elim!: list_all2_mono)
    ultimately show ?thesis using run rec(1,2) i t' toks by simp
  qed
qed

section \<open>Copying\<close>

lemma st8_replace: "i < length p \<Longrightarrow> st8 i v p = Some (take i p @ v # drop (Suc i) p)"
  by (simp add: st8_def wr_def)

text \<open>What a bounded copy leaves in the destination, of a string \<open>s\<close>.\<close>

definition overwrite :: "nat \<Rightarrow> u8 list \<Rightarrow> u8 list \<Rightarrow> u8 list" where
  "overwrite off bs p = take off p @ bs @ drop (off + length bs) p"

lemma overwrite_Nil [simp]: "overwrite off [] p = p"
  by (simp add: overwrite_def)

lemma length_overwrite [simp]: "off + length bs \<le> length p \<Longrightarrow> length (overwrite off bs p) = length p"
  by (simp add: overwrite_def)

lemma wr_overwrite: "off + length bs \<le> length p \<Longrightarrow> wr off bs p = Some (overwrite off bs p)"
  by (simp add: wr_def overwrite_def)

lemma overwrite_overwrite:
  "off + length as + length bs \<le> length p \<Longrightarrow>
   overwrite (off + length as) bs (overwrite off as p) = overwrite off (as @ bs) p"
  by (simp add: overwrite_def ac_simps)

lemma st8_overwrite: "i < length p \<Longrightarrow> st8 i v p = Some (overwrite i [v] p)"
  by (simp add: st8_def wr_overwrite)

lemma st8_None: "length p \<le> i \<Longrightarrow> st8 i v p = None"
  by (simp add: st8_def wr_None)

lemma drop_overwrite: "off \<le> length p \<Longrightarrow> off + length bs \<le> n \<Longrightarrow> drop n (overwrite off bs p) = drop n p"
  by (simp add: overwrite_def)

lemma str_copy_cstr:
  assumes "cstr s p"
  shows "src = pre @ p \<Longrightarrow> i = length pre \<Longrightarrow> off + i + min k (length s) \<le> length dest \<Longrightarrow>
    str_copy off i k src dest = Some (i + min k (length s), overwrite (off + i) (take k s) dest)"
  using assms
proof (induction k arbitrary: s p pre i dest)
  case 0
  then show ?case by simp
next
  case (Suc k)
  show ?case
  proof (cases s)
    case Nil
    with Suc.prems show ?thesis by (cases p) (auto simp: ld8_def)
  next
    case (Cons c s')
    with Suc.prems obtain p' where p: "p = c # p'" "c \<noteq> 0" "cstr s' p'" by (cases p) auto
    let ?d = "overwrite (off + i) [c] dest"
    have "str_copy off (Suc i) k src ?d = Some (Suc i + min k (length s'), overwrite (off + Suc i) (take k s') ?d)"
      using Suc.IH [of "pre @ [c]" p' "Suc i" s' ?d] Suc.prems p Cons by simp
    moreover have "overwrite (off + Suc i) (take k s') ?d = overwrite (off + i) (c # take k s') dest"
      using overwrite_overwrite [of "off + i" "[c]" "take k s'" dest] Suc.prems Cons by simp
    ultimately show ?thesis using Suc.prems p Cons by (simp add: ld8_def st8_overwrite)
  qed
qed

text \<open>
  The contracts of the copies. Whatever the length of the source, \<open>strlcpy\<close> stays within \<open>sz\<close> bytes and
  terminates what it copied; its result is the length it tried to create, so that a result of at least
  \<open>sz\<close> tells of truncation.
\<close>

lemma strlcpy_at_cstr:
  assumes s: "cstr s src" and room: "off + min sz (Suc (length s)) \<le> length dest"
  shows "strlcpy_at off dest src sz = Some (length s,
    if sz = 0 then dest else overwrite off (take (sz - 1) s @ [0]) dest)"
proof (cases sz)
  case 0
  with s show ?thesis by (simp add: strlcpy_at_def strlen_cstr)
next
  case (Suc k)
  let ?d = "overwrite off (take k s) dest"
  have c: "str_copy off 0 k src dest = Some (min k (length s), ?d)"
    using str_copy_cstr [OF s, of src "[]" 0 off k dest] room Suc by simp
  have "st8 (off + min k (length s)) 0 ?d = Some (overwrite (off + length (take k s)) [0] ?d)"
    using room Suc by (subst st8_overwrite) (auto simp: min.commute)
  also have "overwrite (off + length (take k s)) [0] ?d = overwrite off (take k s @ [0]) dest"
    using room Suc by (intro overwrite_overwrite) auto
  finally show ?thesis using s c Suc by (simp add: strlcpy_at_def strlen_cstr)
qed

lemma strlcpy_cstr:
  assumes "cstr s src" "min sz (Suc (length s)) \<le> length dest"
  shows "strlcpy dest src sz = Some (length s,
    if sz = 0 then dest else overwrite 0 (take (sz - 1) s @ [0]) dest)"
  using strlcpy_at_cstr [of s src 0 sz dest] assms by (simp add: strlcpy_def)

lemma overwrite_cstr: "0 \<notin> set s \<Longrightarrow> cstr s (overwrite 0 (s @ [0]) p)"
  by (auto simp: overwrite_def)

lemma strlcpy_result:
  assumes "cstr s src" "0 < sz" "sz \<le> length dest"
  shows "\<exists>d. strlcpy dest src sz = Some (length s, d) \<and> cstr (take (sz - 1) s) d \<and>
    length d = length dest \<and> drop sz d = drop sz dest"
proof -
  have "0 \<notin> set (take (sz - 1) s)" using assms(1) by (auto simp: cstr_def dest: in_set_takeD)
  moreover have "length (take (sz - 1) s @ [0]) \<le> sz" using assms(2) by simp
  ultimately show ?thesis
    using strlcpy_cstr [OF assms(1), of sz dest] assms(2,3) overwrite_cstr [of "take (sz - 1) s" dest]
      drop_overwrite [of 0 dest "take (sz - 1) s @ [0]" sz]
    by (intro exI [of _ "overwrite 0 (take (sz - 1) s @ [0]) dest"]) simp
qed

text \<open>\<open>strlcat\<close> appends as much as the room of \<open>sz\<close> bytes allows.\<close>

lemma strlcat_cstr:
  assumes d: "cstr d dest" and s: "cstr s src" and sz: "length d < sz" "sz \<le> length dest"
  shows "\<exists>r. strlcat dest src sz = Some (length d + length s, r) \<and> cstr (d @ take (sz - 1 - length d) s) r \<and>
    length r = length dest \<and> drop sz r = drop sz dest"
proof -
  let ?n = "length d" and ?t = "take (sz - 1 - length d) s"
  let ?r = "overwrite ?n (?t @ [0]) dest"
  have l: "?n + length (?t @ [0]) \<le> sz" using sz(1) by simp
  have "strlcpy_at ?n dest src (sz - ?n) = Some (length s, ?r)"
    using strlcpy_at_cstr [OF s, of ?n "sz - ?n" dest] sz by (simp add: diff_right_commute)
  then have run: "strlcat dest src sz = Some (?n + length s, ?r)"
    using sz(1) by (simp add: strlcat_def strlen_cstr [OF d] strlen_cstr [OF s])
  have "take ?n dest = d" using d by (auto simp: cstr_def)
  then have "?r = (d @ ?t) @ 0 # drop (?n + length (?t @ [0])) dest" by (simp add: overwrite_def)
  moreover have "0 \<notin> set (d @ ?t)" using d s by (auto simp: cstr_def dest: in_set_takeD)
  ultimately have "cstr (d @ ?t) ?r" unfolding cstr_def by blast
  moreover have "length ?r = length dest" using l sz(2) by (intro length_overwrite) simp
  moreover have "drop sz ?r = drop sz dest" using l sz(2) by (intro drop_overwrite) simp_all
  ultimately show ?thesis using run by blast
qed

lemma strlcat_full: "cstr d dest \<Longrightarrow> cstr s src \<Longrightarrow> sz \<le> length d \<Longrightarrow> strlcat dest src sz = Some (sz + length s, dest)"
  by (simp add: strlcat_def strlen_cstr)

text \<open>The unbounded copies run past a destination that is too small.\<close>

lemma copy_through_cstr:
  "cstr s p \<Longrightarrow> copy_through d p dest =
    (if d + length s < length dest then Some (overwrite d (s @ [0]) dest) else None)"
proof (induction s p arbitrary: d dest rule: cstr_induct)
  case (Nil p)
  then show ?case by (cases "d < length dest") (simp_all add: st8_overwrite st8_None)
next
  case (Cons c s p)
  show ?case
  proof (cases "d < length dest")
    case True
    have "overwrite (Suc d) (s @ [0]) (overwrite d [c] dest) = overwrite d (c # s @ [0]) dest"
      if "Suc (d + length s) < length dest"
      using overwrite_overwrite [of d "[c]" "s @ [0]" dest] that by simp
    with True Cons show ?thesis by (simp add: st8_overwrite)
  next
    case False
    then show ?thesis by (simp add: st8_def wr_None)
  qed
qed

lemma strcpy_cstr:
  "cstr s src \<Longrightarrow> strcpy dest src = (if length s < length dest then Some (overwrite 0 (s @ [0]) dest) else None)"
  by (simp add: strcpy_def copy_through_cstr)

lemma strcat_cstr:
  "cstr d dest \<Longrightarrow> cstr s src \<Longrightarrow>
   strcat dest src = (if length d + length s < length dest then Some (overwrite (length d) (s @ [0]) dest) else None)"
  by (simp add: strcat_def strlen_cstr copy_through_cstr)

lemma zero_fill_eq: "i + k \<le> length dest \<Longrightarrow> zero_fill i k dest = Some (overwrite i (replicate k 0) dest)"
proof (induction k arbitrary: i dest)
  case 0
  then show ?case by simp
next
  case (Suc k)
  then show ?case
    using overwrite_overwrite [of i "[0]" "replicate k 0" dest] by (simp add: st8_overwrite)
qed

text \<open>\<open>strncpy\<close> fills its \<open>n\<close> bytes exactly, without a terminator when the string is not shorter.\<close>

lemma strncpy_cstr:
  assumes "cstr s src" "n \<le> length dest"
  shows "strncpy dest src n = Some (overwrite 0 (take n s @ replicate (n - length s) 0) dest)"
proof -
  let ?d = "overwrite 0 (take n s) dest"
  have c: "str_copy 0 0 n src dest = Some (min n (length s), ?d)"
    using str_copy_cstr [OF assms(1), of src "[]" 0 0 n dest] assms(2) by simp
  have k: "n - min n (length s) = n - length s" by simp
  have "zero_fill (min n (length s)) (n - length s) ?d = Some (overwrite (length (take n s)) (replicate (n - length s) 0) ?d)"
    using assms(2) by (subst zero_fill_eq) (auto simp: min.commute)
  also have "overwrite (length (take n s)) (replicate (n - length s) 0) ?d =
      overwrite 0 (take n s @ replicate (n - length s) 0) dest"
    using overwrite_overwrite [of 0 "take n s" "replicate (n - length s) 0" dest] assms(2) by simp
  finally show ?thesis using c k by (simp add: strncpy_def)
qed

lemma strncat_cstr:
  assumes d: "cstr d dest" and s: "cstr s src" and room: "length d + min n (length s) < length dest"
  shows "strncat dest src n = Some (overwrite (length d) (take n s @ [0]) dest)"
proof -
  let ?n = "length d" let ?d = "overwrite ?n (take n s) dest"
  have c: "str_copy ?n 0 n src dest = Some (min n (length s), ?d)"
    using str_copy_cstr [OF s, of src "[]" 0 ?n n dest] room by simp
  have "st8 (?n + min n (length s)) 0 ?d = Some (overwrite (?n + length (take n s)) [0] ?d)"
    using room by (subst st8_overwrite) (auto simp: min.commute)
  also have "overwrite (?n + length (take n s)) [0] ?d = overwrite ?n (take n s @ [0]) dest"
    using room by (intro overwrite_overwrite) (auto simp: min.commute)
  finally show ?thesis using c by (simp add: strncat_def strlen_cstr [OF d])
qed

lemma safe_strcpy_cstr:
  assumes "cstr s src" "0 < sz" "min sz (Suc (length s)) \<le> length dest"
  shows "safe_strcpy (Some dest) sz (Some src) =
    Some (min (sz - 1) (length s), Some (overwrite 0 (take (sz - 1) s @ [0]) dest))"
proof -
  let ?d = "overwrite 0 (take (sz - 1) s) dest"
  have c: "str_copy 0 0 (sz - 1) src dest = Some (min (sz - 1) (length s), ?d)"
    using str_copy_cstr [OF assms(1), of src "[]" 0 0 "sz - 1" dest] assms by simp
  have "st8 (min (sz - 1) (length s)) 0 ?d = Some (overwrite (length (take (sz - 1) s)) [0] ?d)"
    using assms by (subst st8_overwrite) (auto simp: min.commute)
  also have "overwrite (length (take (sz - 1) s)) [0] ?d = overwrite 0 (take (sz - 1) s @ [0]) dest"
    using overwrite_overwrite [of 0 "take (sz - 1) s" "[0]" dest] assms by simp
  finally show ?thesis using c assms(2) by (simp add: safe_strcpy_def)
qed

section \<open>Memory\<close>

text \<open>The byte loops are the bulk stores and copies in which the rest of the model is written.\<close>

lemma memset_loop_eq: "0 < len \<or> p \<le> length dest \<Longrightarrow> memset_loop p v len dest = wr p (replicate len v) dest"
proof (induction len arbitrary: p dest)
  case 0
  then show ?case by (simp add: wr_def)
next
  case (Suc len)
  show ?case
  proof (cases "p < length dest")
    case True
    have "memset_loop (Suc p) v len (overwrite p [v] dest) = wr (Suc p) (replicate len v) (overwrite p [v] dest)"
      using True by (intro Suc.IH) simp
    also have "\<dots> = wr p (replicate (Suc len) v) dest"
      using overwrite_overwrite [of p "[v]" "replicate len v" dest] True
      by (cases "Suc p + len \<le> length dest") (simp_all add: wr_overwrite wr_None)
    finally show ?thesis using True by (simp add: st8_overwrite)
  next
    case False
    then show ?thesis by (simp add: st8_None wr_None)
  qed
qed

lemma memset_eq: "memset dest v len = wr 0 (replicate len (of_int v)) dest"
  using memset_loop_eq [of len 0 dest] by (simp add: memset_def)

lemma take_Suc_drop: "i < length p \<Longrightarrow> take (Suc n) (drop i p) = p ! i # take n (drop (Suc i) p)"
  by (simp add: take_Suc_conv_app_nth hd_drop_conv_nth take_Suc flip: drop_Suc drop_tl tl_drop)

lemma memcpy_loop_eq:
  "0 < len \<or> i \<le> length src \<and> i \<le> length dest \<Longrightarrow>
   memcpy_loop i len src dest = do { bs \<leftarrow> rd src i len; wr i bs dest }"
proof (induction len arbitrary: i dest)
  case 0
  then show ?case by (simp add: rd_def wr_def)
next
  case (Suc len)
  show ?case
  proof (cases "i < length src \<and> i < length dest")
    case True
    let ?d = "overwrite i [src ! i] dest"
    have "memcpy_loop (Suc i) len src ?d = do { bs \<leftarrow> rd src (Suc i) len; wr (Suc i) bs ?d }"
      using True by (intro Suc.IH) simp
    also have "\<dots> = do { bs \<leftarrow> rd src i (Suc len); wr i bs dest }"
      using True overwrite_overwrite [of i "[src ! i]" "take len (drop (Suc i) src)" dest]
      by (cases "Suc i + len \<le> length src"; cases "Suc i + len \<le> length dest")
        (simp_all add: rd_def wr_overwrite wr_None take_Suc_drop)
    finally show ?thesis using True by (simp add: ld8_def st8_overwrite)
  next
    case False
    then show ?thesis by (auto simp: ld8_def st8_None rd_def wr_None)
  qed
qed

lemma memcpy_eq: "memcpy dest src len = do { bs \<leftarrow> rd src 0 len; wr 0 bs dest }"
  using memcpy_loop_eq [of len 0 src dest] by (simp add: memcpy_def)

text \<open>
  \<open>memmove\<close> copies as if through a third array, whether its ranges overlap or not: upwards or
  downwards, no byte is read after it was overwritten.
\<close>

lemma nth_overwrite:
  "off + length bs \<le> length p \<Longrightarrow> i < length p \<Longrightarrow>
   overwrite off bs p ! i = (if off \<le> i \<and> i < off + length bs then bs ! (i - off) else p ! i)"
  by (auto simp: overwrite_def nth_append)

lemma take_drop_overwrite_before:
  assumes "off + length bs \<le> length p" "off + length bs \<le> s"
  shows "take n (drop s (overwrite off bs p)) = take n (drop s p)"
  using assms by (simp add: drop_overwrite)

lemma move_up_eq:
  "d < s \<Longrightarrow> s + n \<le> length m \<Longrightarrow> move_up d s n m = Some (overwrite d (take n (drop s m)) m)"
proof (induction n arbitrary: d s m)
  case 0
  then show ?case by simp
next
  case (Suc n)
  let ?m = "overwrite d [m ! s] m"
  have "move_up (Suc d) (Suc s) n ?m = Some (overwrite (Suc d) (take n (drop (Suc s) ?m)) ?m)"
    using Suc.prems by (intro Suc.IH) simp_all
  also have "take n (drop (Suc s) ?m) = take n (drop (Suc s) m)"
    using Suc.prems by (intro take_drop_overwrite_before) simp_all
  also have "overwrite (Suc d) (take n (drop (Suc s) m)) ?m = overwrite d (m ! s # take n (drop (Suc s) m)) m"
    using overwrite_overwrite [of d "[m ! s]" "take n (drop (Suc s) m)" m] Suc.prems by simp
  finally show ?case using Suc.prems by (simp add: ld8_def st8_overwrite take_Suc_drop)
qed

lemma move_down_eq:
  "s < d \<Longrightarrow> d + n \<le> length m \<Longrightarrow> move_down d s n m = Some (overwrite d (take n (drop s m)) m)"
proof (induction n arbitrary: m)
  case 0
  then show ?case by simp
next
  case (Suc n)
  let ?m = "overwrite (d + n) [m ! (s + n)] m"
  have "move_down d s n ?m = Some (overwrite d (take n (drop s ?m)) ?m)"
    using Suc.prems by (intro Suc.IH) simp_all
  moreover have "overwrite d (take n (drop s ?m)) ?m = overwrite d (take (Suc n) (drop s m)) m"
    using Suc.prems by (intro nth_equalityI) (auto simp: nth_overwrite not_less le_less)
  ultimately show ?case using Suc.prems by (simp add: ld8_def st8_overwrite)
qed

lemma memmove_eq:
  assumes "s + n \<le> length m" "d + n \<le> length m"
  shows "memmove d s n m = do { bs \<leftarrow> rd m s n; wr d bs m }"
proof -
  have "overwrite s (take n (drop s m)) m = m"
    using assms by (intro nth_equalityI) (auto simp: nth_overwrite)
  then show ?thesis
    using assms move_up_eq [of d s n m] move_down_eq [of s d n m]
    by (cases d s rule: linorder_cases) (simp_all add: memmove_def rd_def wr_overwrite)
qed

text \<open>\<open>memcmp\<close> orders the first \<open>n\<close> bytes.\<close>

lemma memcmp_eq:
  assumes "n \<le> length p" "n \<le> length q"
  shows "\<exists>d. memcmp p q n = Some d \<and> (d = 0 \<longleftrightarrow> take n p = take n q) \<and>
    (d < 0 \<longleftrightarrow> ord_class.lexordp (take n p) (take n q))"
  using assms
proof (induction p q n rule: memcmp.induct)
  case (2 a p b q n)
  have "\<not> uint b < uint a \<longleftrightarrow> uint a < uint b" if "a \<noteq> b"
    using that by (auto simp: not_less le_less uint_eq_iff)
  with 2 show ?case by (auto simp: uint_eq_iff word_less_def)
qed simp_all

end
