(* ===== verification/Libc_Number.thy ===== *)
theory Libc_Number
  imports Libc_String
begin

text \<open>
  The numeric conversions of \<open>include/libc.h\<close> (\<open>atoi\<close>, \<open>ulltoa\<close>, \<open>itoa\<close>, \<open>strtol\<close>, \<open>sscanf\<close>) and its
  random numbers. Overflow of a signed integer is undefined behaviour, \<open>None\<close> here; a pointer returned
  into the string is the bytes from there on.
\<close>

section \<open>Model: reading numbers\<close>

definition INT_MAX :: int where "INT_MAX = 2147483647"
definition LONG_MAX :: int where "LONG_MAX = 9223372036854775807"

definition is_digit :: "u8 \<Rightarrow> bool" where
  "is_digit c \<longleftrightarrow> 48 \<le> sint c \<and> sint c \<le> 57"

definition is_blank :: "u8 \<Rightarrow> bool" where
  "is_blank c \<longleftrightarrow> c = 32 \<or> c = 9"

fun skip_chars :: "(u8 \<Rightarrow> bool) \<Rightarrow> u8 list \<Rightarrow> u8 list option" where
  "skip_chars P [] = None"
| "skip_chars P (c # str) = (if P c then skip_chars P str else Some (c # str))"

text \<open>The loop over decimal digits, which \<open>atoi\<close> and \<open>sscanf\<close> share.\<close>

fun dec_digits :: "int \<Rightarrow> u8 list \<Rightarrow> (int \<times> u8 list) option" where
  "dec_digits res [] = None"
| "dec_digits res (c # str) =
     (if is_digit c then
        let r = res * 10 + (sint c - 48) in if INT_MAX < r then None else dec_digits r str
      else Some (res, c # str))"

definition atoi :: "u8 list \<Rightarrow> int option" where
  "atoi str = do {
     str \<leftarrow> skip_chars is_blank str;
     c \<leftarrow> ld8 str 0;
     let (sign, str) = (if c = 45 then (-1, drop 1 str) else (1, str));
     (res, _) \<leftarrow> dec_digits 0 str;
     Some (res * sign)
   }"

definition is_white :: "u8 \<Rightarrow> bool" where
  "is_white c \<longleftrightarrow> c = 32 \<or> c = 9 \<or> c = 10 \<or> c = 13"

definition digit_value :: "u8 \<Rightarrow> int option" where
  "digit_value c =
     (if 48 \<le> sint c \<and> sint c \<le> 57 then Some (sint c - 48)
      else if 97 \<le> sint c \<and> sint c \<le> 122 then Some (sint c - 97 + 10)
      else if 65 \<le> sint c \<and> sint c \<le> 90 then Some (sint c - 65 + 10)
      else None)"

fun strtol_digits :: "int \<Rightarrow> int \<Rightarrow> u8 list \<Rightarrow> (int \<times> u8 list) option" where
  "strtol_digits result base [] = None"
| "strtol_digits result base (c # str) =
     (if c = 0 then Some (result, c # str)
      else (case digit_value c of
        None \<Rightarrow> Some (result, c # str)
      | Some digit \<Rightarrow>
          if base \<le> digit then Some (result, c # str)
          else (let r = result * base + digit in
                if LONG_MAX < r then None else strtol_digits r base str)))"

definition hex_prefix :: "u8 list \<Rightarrow> bool option" where
  "hex_prefix str = do {
     c \<leftarrow> ld8 str 0;
     if c = 48 then do { x \<leftarrow> ld8 str 1; Some (x = 120 \<or> x = 88) } else Some False
   }"

text \<open>The value and \<open>*endptr\<close>; \<open>None\<close> as \<open>str\<close> is the null pointer.\<close>

definition strtol :: "u8 list option \<Rightarrow> int \<Rightarrow> (int \<times> u8 list option) option" where
  "strtol str base =
     (case str of
        None \<Rightarrow> Some (0, None)
      | Some str \<Rightarrow> do {
          str \<leftarrow> skip_chars is_white str;
          c \<leftarrow> ld8 str 0;
          let (negative, str) = (if c = 45 then (True, drop 1 str)
                                 else if c = 43 then (False, drop 1 str) else (False, str));
          hex \<leftarrow> (if base = 0 \<or> base = 16 then hex_prefix str else Some False);
          c \<leftarrow> ld8 str 0;
          let (base, str) =
            (if base = 0 then
               (if hex then (16, drop 2 str) else if c = 48 then (8, str) else (10, str))
             else if hex then (base, drop 2 str) else (base, str));
          (result, end) \<leftarrow> strtol_digits 0 base str;
          Some (if negative then - result else result, Some end)
        })"

text \<open>
  \<open>sscanf\<close> knows only \<open>%d\<close>: it counts them in the format, takes that many pointers (at most 16 fit its
  array) and reads numbers until one is missing. The results are the values stored, in order.
\<close>

fun count_d :: "u8 list \<Rightarrow> nat option" where
  "count_d [] = None"
| "count_d (c # f) =
     (if c = 0 then Some 0
      else if c = 37 then
        (case f of
           [] \<Rightarrow> None
         | d # f' \<Rightarrow> if d = 100 then map_option Suc (count_d f') else count_d f)
      else count_d f)"

fun sscanf_loop :: "nat \<Rightarrow> u8 list \<Rightarrow> int list option" where
  "sscanf_loop 0 s = Some []"
| "sscanf_loop (Suc k) s = do {
     c \<leftarrow> ld8 s 0;
     if c = 0 then Some []
     else do {
       s \<leftarrow> skip_chars is_blank s;
       c \<leftarrow> ld8 s 0;
       let (sign, s) = (if c = 45 then (-1, drop 1 s) else (1, s));
       c \<leftarrow> ld8 s 0;
       (value, s) \<leftarrow> dec_digits 0 s;
       if is_digit c then do { vs \<leftarrow> sscanf_loop k s; Some (sign * value # vs) } else Some []
     }
   }"

definition sscanf :: "u8 list \<Rightarrow> u8 list \<Rightarrow> (int \<times> int list) option" where
  "sscanf str format = do {
     arg_count \<leftarrow> count_d format;
     if 16 < arg_count then None
     else do { vs \<leftarrow> sscanf_loop arg_count str; Some (int (length vs), vs) }
   }"

section \<open>Model: writing numbers\<close>

definition hex_lower :: "u8 list" where
  "hex_lower = [48, 49, 50, 51, 52, 53, 54, 55, 56, 57, 97, 98, 99, 100, 101, 102, 0]"

definition hex_upper :: "u8 list" where
  "hex_upper = [48, 49, 50, 51, 52, 53, 54, 55, 56, 57, 65, 66, 67, 68, 69, 70, 0]"

text \<open>
  The digits, least significant first, from offset \<open>p\<close>; then the reversal in place. A base of 0 divides
  by zero; one of 1 never ends and runs out of the destination.
\<close>

function put_digits :: "u8 list \<Rightarrow> u64 \<Rightarrow> u64 \<Rightarrow> nat \<Rightarrow> u8 list \<Rightarrow> (nat \<times> u8 list) option" where
  "put_digits digits base value p str =
     (if value = 0 then Some (p, str)
      else if base = 0 \<or> length str \<le> p then None
      else do {
        c \<leftarrow> ld8 digits (unat (value mod base));
        put_digits digits base (value div base) (Suc p) (str[p := c])
      })"
  by pat_completeness auto
termination
  by (relation "measure (\<lambda>(digits, base, value, p, str). length str - p)") auto

declare put_digits.simps [simp del]

function reverse_between :: "nat \<Rightarrow> nat \<Rightarrow> u8 list \<Rightarrow> u8 list" where
  "reverse_between i j str =
     (if i < j then reverse_between (Suc i) (j - 1) (str[i := str ! j, j := str ! i]) else str)"
  by pat_completeness auto
termination
  by (relation "measure (\<lambda>(i, j, str). j - i)") auto

declare reverse_between.simps [simp del]

definition ulltoa_at :: "nat \<Rightarrow> u64 \<Rightarrow> u8 list \<Rightarrow> int \<Rightarrow> bool \<Rightarrow> u8 list option" where
  "ulltoa_at off value str base upper =
     (if value = 0 then do { str \<leftarrow> st8 off 48 str; st8 (Suc off) 0 str }
      else do {
        (p, str) \<leftarrow> put_digits (if upper then hex_upper else hex_lower) (of_int base) value off str;
        str \<leftarrow> st8 p 0 str;
        Some (reverse_between off (p - 1) str)
      })"

definition ulltoa :: "u64 \<Rightarrow> u8 list \<Rightarrow> int \<Rightarrow> bool \<Rightarrow> u8 list option" where
  "ulltoa = ulltoa_at 0"

text \<open>\<open>value\<close> is an \<open>int\<close>; negating the least one overflows.\<close>

definition itoa :: "int \<Rightarrow> u8 list \<Rightarrow> int \<Rightarrow> u8 list option" where
  "itoa value str base =
     (if value < 0 \<and> base = 10 then
        if value = - 2147483648 then None
        else do { str \<leftarrow> st8 0 45 str; ulltoa_at 1 (ucast (of_int (- value) :: u32)) str 10 False }
      else ulltoa_at 0 (ucast (of_int value :: u32)) str base False)"

section \<open>Model: random numbers\<close>

definition srand :: "u32 \<Rightarrow> u32" where
  "srand seed = seed"

definition rand :: "u32 \<Rightarrow> int \<times> u32" where
  "rand seed = (let s = seed * 1103515245 + 12345 in (uint ((s div 65536) mod 32768), s))"

section \<open>Digits\<close>

text \<open>The numeral of a number in a base from 2 to 16, most significant digit first.\<close>

definition digit_char :: "bool \<Rightarrow> nat \<Rightarrow> u8" where
  "digit_char upper d = (if upper then hex_upper ! d else hex_lower ! d)"

function numeral_of :: "nat \<Rightarrow> nat \<Rightarrow> nat list" where
  "numeral_of b v = (if v = 0 \<or> b < 2 then [] else numeral_of b (v div b) @ [v mod b])"
  by pat_completeness auto
termination by (relation "measure snd") auto

declare numeral_of.simps [simp del]

definition show_num :: "bool \<Rightarrow> nat \<Rightarrow> nat \<Rightarrow> u8 list" where
  "show_num upper b v = (if v = 0 then [48] else map (digit_char upper) (numeral_of b v))"

lemma numeral_of_less: "d \<in> set (numeral_of b v) \<Longrightarrow> d < b"
proof (induction b v rule: numeral_of.induct)
  case (1 b v)
  from 1(2) have "\<not> (v = 0 \<or> b < 2)" by (subst (asm) numeral_of.simps) (auto split: if_splits)
  moreover from this 1(2) have "d \<in> set (numeral_of b (v div b)) \<or> d = v mod b"
    by (subst (asm) numeral_of.simps) auto
  ultimately show ?case using 1(1) by auto
qed

lemma numeral_of_value: "2 \<le> b \<Longrightarrow> foldl (\<lambda>r d. r * b + d) 0 (numeral_of b v) = v"
proof (induction b v rule: numeral_of.induct)
  case (1 b v)
  then show ?case by (subst numeral_of.simps) (auto simp: mult.commute)
qed

lemma numeral_of_empty: "2 \<le> b \<Longrightarrow> numeral_of b v = [] \<longleftrightarrow> v = 0"
  by (subst numeral_of.simps) auto

text \<open>The table lookups.\<close>

lemma digit_char_lookup: "d < 16 \<Longrightarrow> ld8 (if upper then hex_upper else hex_lower) d = Some (digit_char upper d)"
  by (simp add: ld8_def digit_char_def hex_upper_def hex_lower_def)

definition digit_char_ok :: "bool \<Rightarrow> nat \<Rightarrow> bool" where
  "digit_char_ok upper d \<longleftrightarrow> (let c = digit_char upper d in
     c \<noteq> 0 \<and> digit_value c = Some (int d) \<and> (d < 10 \<longrightarrow> is_digit c \<and> sint c - 48 = int d) \<and>
     c \<noteq> 45 \<and> c \<noteq> 43 \<and> c \<noteq> 120 \<and> c \<noteq> 88 \<and> \<not> is_white c \<and> (d \<noteq> 0 \<longrightarrow> c \<noteq> 48))"

lemma digit_chars_ok: "list_all (digit_char_ok True) [0..<16]" "list_all (digit_char_ok False) [0..<16]"
  by code_simp+

lemma digit_char_props:
  assumes "d < 16"
  shows "digit_char upper d \<noteq> 0" "digit_value (digit_char upper d) = Some (int d)"
    "d < 10 \<Longrightarrow> is_digit (digit_char upper d) \<and> sint (digit_char upper d) - 48 = int d"
    "digit_char upper d \<noteq> 45" "digit_char upper d \<noteq> 43" "digit_char upper d \<noteq> 120" "digit_char upper d \<noteq> 88"
    "\<not> is_white (digit_char upper d)" "d \<noteq> 0 \<Longrightarrow> digit_char upper d \<noteq> 48"
proof -
  have "digit_char_ok upper d"
    using digit_chars_ok assms by (cases upper) (simp_all add: list_all_iff del: upt_Suc)
  then show "digit_char upper d \<noteq> 0" "digit_value (digit_char upper d) = Some (int d)"
    "d < 10 \<Longrightarrow> is_digit (digit_char upper d) \<and> sint (digit_char upper d) - 48 = int d"
    "digit_char upper d \<noteq> 45" "digit_char upper d \<noteq> 43" "digit_char upper d \<noteq> 120" "digit_char upper d \<noteq> 88"
    "\<not> is_white (digit_char upper d)" "d \<noteq> 0 \<Longrightarrow> digit_char upper d \<noteq> 48"
    by (simp_all add: digit_char_ok_def Let_def)
qed

section \<open>Writing\<close>

lemma put_digits_0: "put_digits digits base 0 p str = Some (p, str)"
  by (simp add: put_digits.simps)

lemma put_digits_eq:
  assumes b: "2 \<le> b" "b \<le> 16"
  shows "p + length (numeral_of b (unat x)) \<le> length str \<Longrightarrow>
    put_digits (if upper then hex_upper else hex_lower) (of_nat b) x p str =
      Some (p + length (numeral_of b (unat x)),
            overwrite p (rev (map (digit_char upper) (numeral_of b (unat x)))) str)"
proof (induction "unat x" arbitrary: x p str rule: less_induct)
  case less
  have ub: "unat (of_nat b :: u64) = b" using b by (simp add: unat_of_nat take_bit_nat_eq_self_iff)
  show ?case
  proof (cases "x = 0")
    case True
    then show ?thesis by (simp add: put_digits_0 numeral_of.simps [of b 0])
  next
    case False
    let ?c = "digit_char upper (unat x mod b)" and ?v = "x div of_nat b"
    have v: "unat ?v = unat x div b" "unat (x mod of_nat b) = unat x mod b"
      by (simp_all add: unat_div unat_mod ub)
    have pos: "unat x \<noteq> 0" using False by (simp add: unat_eq_0)
    have num: "numeral_of b (unat x) = numeral_of b (unat x div b) @ [unat x mod b]"
      using b pos by (subst numeral_of.simps) simp
    have bw: "(of_nat b :: u64) \<noteq> 0" using ub b by (metis unat_0 not_numeral_le_zero)
    have p: "p < length str" using less.prems num by simp
    have sm: "unat ?v < unat x" using pos b unfolding v by simp
    have "put_digits (if upper then hex_upper else hex_lower) (of_nat b) ?v (Suc p) (overwrite p [?c] str) =
      Some (Suc p + length (numeral_of b (unat ?v)),
            overwrite (Suc p) (rev (map (digit_char upper) (numeral_of b (unat ?v)))) (overwrite p [?c] str))"
      using less.prems p num by (intro less.hyps [OF sm]) (simp add: v)
    also have "overwrite (Suc p) (rev (map (digit_char upper) (numeral_of b (unat ?v)))) (overwrite p [?c] str) =
      overwrite p (?c # rev (map (digit_char upper) (numeral_of b (unat ?v)))) str"
      using overwrite_overwrite [of p "[?c]" "rev (map (digit_char upper) (numeral_of b (unat ?v)))" str]
        less.prems num by (simp add: v)
    finally have rec: "put_digits (if upper then hex_upper else hex_lower) (of_nat b) ?v (Suc p) (overwrite p [?c] str) =
      Some (p + length (numeral_of b (unat x)),
            overwrite p (rev (map (digit_char upper) (numeral_of b (unat x)))) str)"
      unfolding num v by simp
    have "str[p := ?c] = overwrite p [?c] str"
      using p by (simp add: overwrite_def upd_conv_take_nth_drop)
    moreover have "unat x mod b < b" using b by simp
    then have "unat x mod b < 16" using b by linarith
    ultimately show ?thesis
      using rec p bw False digit_char_lookup [of "unat x mod b" upper]
      by (subst put_digits.simps) (simp add: v del: of_nat_eq_0_iff)
  qed
qed

text \<open>Swapping from both ends reverses what is in between.\<close>

lemma reverse_between_eq:
  "bs \<noteq> [] \<Longrightarrow> reverse_between (length pre) (length pre + length bs - 1) (pre @ bs @ post) = pre @ rev bs @ post"
proof (induction "length bs" arbitrary: pre bs post rule: less_induct)
  case less
  show ?case
  proof (cases "length bs = 1")
    case True
    then obtain z where "bs = [z]" by (cases bs) auto
    then show ?thesis by (simp add: reverse_between.simps)
  next
    case False
    with less.prems obtain x bs' where bs: "bs = x # bs'" "bs' \<noteq> []" by (cases bs) auto
    then obtain ms y where m: "bs' = ms @ [y]" by (cases bs' rule: rev_cases) auto
    let ?j = "length pre + length bs - 1"
    have j: "?j = length pre + Suc (length ms)" using bs m by simp
    have upd: "(pre @ bs @ post)[length pre := (pre @ bs @ post) ! ?j, ?j := (pre @ bs @ post) ! length pre] =
      (pre @ [y]) @ ms @ (x # post)"
      unfolding j using bs m by (simp add: nth_append list_update_append)
    have c: "length pre < ?j" unfolding j by simp
    have "reverse_between (length pre) ?j (pre @ bs @ post) = reverse_between (Suc (length pre)) (?j - 1)
        ((pre @ bs @ post)[length pre := (pre @ bs @ post) ! ?j, ?j := (pre @ bs @ post) ! length pre])"
      using c by (subst reverse_between.simps) (simp only: if_True)
    also have "\<dots> = reverse_between (Suc (length pre)) (?j - 1) ((pre @ [y]) @ ms @ (x # post))"
      unfolding upd ..
    also have "reverse_between (Suc (length pre)) (?j - 1) ((pre @ [y]) @ ms @ (x # post)) =
        (pre @ [y]) @ rev ms @ (x # post)"
    proof (cases "ms = []")
      case True
      then show ?thesis unfolding j by (subst reverse_between.simps) simp
    next
      case False
      have "reverse_between (length (pre @ [y])) (length (pre @ [y]) + length ms - 1) ((pre @ [y]) @ ms @ (x # post)) =
        (pre @ [y]) @ rev ms @ (x # post)"
        using less.hyps [of ms "pre @ [y]" "x # post"] bs m False by simp
      moreover have "Suc (length pre) = length (pre @ [y])" by simp
      moreover have "?j - 1 = length (pre @ [y]) + length ms - 1" unfolding j by simp
      ultimately show ?thesis by (simp only:)
    qed
    finally show ?thesis using bs m by simp
  qed
qed

text \<open>\<open>ulltoa\<close> writes the numeral with its terminator.\<close>

lemma ulltoa_at_eq:
  assumes b: "2 \<le> b" "b \<le> 16" and room: "off + length (show_num upper b (unat x)) < length str"
  shows "ulltoa_at off x str (int b) upper = Some (overwrite off (show_num upper b (unat x) @ [0]) str)"
proof (cases "x = 0")
  case True
  with room overwrite_overwrite [of off "[48]" "[0]" str] show ?thesis
    by (simp add: ulltoa_at_def show_num_def st8_overwrite)
next
  case False
  let ?ds = "map (digit_char upper) (numeral_of b (unat x))"
  have v: "unat x \<noteq> 0" using False by (simp add: unat_eq_0)
  have sh: "show_num upper b (unat x) = ?ds" using v by (simp add: show_num_def)
  have ne: "?ds \<noteq> []" using v b by (simp add: numeral_of_empty)
  let ?p = "off + length ?ds" let ?s = "overwrite off (rev ?ds) str"
  have put: "put_digits (if upper then hex_upper else hex_lower) (of_nat b) x off str = Some (?p, ?s)"
    using put_digits_eq [OF b, of off x str upper] room sh by simp
  have z: "st8 ?p 0 ?s = Some (overwrite off (rev ?ds @ [0]) str)"
    using overwrite_overwrite [of off "rev ?ds" "[0]" str] room sh by (subst st8_overwrite) simp_all
  have "overwrite off (rev ?ds @ [0]) str = take off str @ rev ?ds @ (0 # drop (Suc ?p) str)"
    by (simp add: overwrite_def)
  moreover have "reverse_between off (?p - 1) (take off str @ rev ?ds @ (0 # drop (Suc ?p) str)) =
    take off str @ ?ds @ (0 # drop (Suc ?p) str)"
    using reverse_between_eq [of "rev ?ds" "take off str" "0 # drop (Suc ?p) str"] ne room by simp
  moreover have "take off str @ ?ds @ (0 # drop (Suc ?p) str) = overwrite off (?ds @ [0]) str"
    by (simp add: overwrite_def)
  ultimately show ?thesis using put z False sh by (simp add: ulltoa_at_def)
qed

lemma numeral_of_hd: "2 \<le> b \<Longrightarrow> v \<noteq> 0 \<Longrightarrow> hd (numeral_of b v) \<noteq> 0"
proof (induction b v rule: numeral_of.induct)
  case (1 b v)
  have e: "numeral_of b v = numeral_of b (v div b) @ [v mod b]"
    using 1 by (subst numeral_of.simps) simp
  show ?case
  proof (cases "v div b = 0")
    case True
    then have "v < b" using 1 by (simp add: div_eq_0_iff)
    with True 1 show ?thesis unfolding e by (simp add: numeral_of.simps [of b 0])
  next
    case False
    with 1 show ?thesis unfolding e by (simp add: numeral_of_empty hd_append)
  qed
qed

lemma show_num_digits:
  assumes b: "2 \<le> b"
  obtains ds where "show_num upper b v = map (digit_char upper) ds" "ds \<noteq> []" "\<forall>d\<in>set ds. d < b"
    "foldl (\<lambda>r d. r * b + d) 0 ds = v" "v \<noteq> 0 \<Longrightarrow> hd ds \<noteq> 0" "v = 0 \<Longrightarrow> ds = [0]"
proof (cases "v = 0")
  case True
  show ?thesis
    by (rule that [of "[0]"]) (use True b in \<open>simp_all add: show_num_def digit_char_def hex_upper_def hex_lower_def\<close>)
next
  case False
  show ?thesis
    by (rule that [of "numeral_of b v"])
      (use False b numeral_of_hd [OF b False] numeral_of_less [of _ b v] numeral_of_value [OF b, of v]
         numeral_of_empty [OF b, of v] in \<open>simp_all add: show_num_def\<close>)
qed

section \<open>Reading what was written\<close>

lemma foldl_grows: "1 \<le> b \<Longrightarrow> r \<le> foldl (\<lambda>r d. r * b + d) r ds" for b r :: nat
proof (induction ds arbitrary: r)
  case Nil
  then show ?case by simp
next
  case (Cons d ds)
  have "r \<le> r * b + d" using Cons.prems by (simp add: trans_le_add1)
  also have "\<dots> \<le> foldl (\<lambda>r d. r * b + d) (r * b + d) ds" using Cons by blast
  finally show ?case by simp
qed

lemma dec_digits_numeral:
  assumes "\<not> is_digit c"
  shows "\<forall>d\<in>set ds. d < 10 \<Longrightarrow> int (foldl (\<lambda>r d. r * 10 + d) n ds) \<le> INT_MAX \<Longrightarrow>
    dec_digits (int n) (map (digit_char upper) ds @ c # r) =
      Some (int (foldl (\<lambda>r d. r * 10 + d) n ds), c # r)"
proof (induction ds arbitrary: n)
  case Nil
  with assms show ?case by simp
next
  case (Cons d ds)
  have d: "is_digit (digit_char upper d)" "sint (digit_char upper d) - 48 = int d"
    using digit_char_props(3) [of d upper] Cons.prems by auto
  have "n * 10 + d \<le> foldl (\<lambda>r d. r * 10 + d) (n * 10 + d) ds" by (rule foldl_grows) simp
  then have "int (n * 10 + d) \<le> INT_MAX" using Cons.prems(2) by simp
  moreover have "dec_digits (int (n * 10 + d)) (map (digit_char upper) ds @ c # r) =
      Some (int (foldl (\<lambda>r d. r * 10 + d) (n * 10 + d) ds), c # r)"
    using Cons.prems by (intro Cons.IH) simp_all
  ultimately show ?case using d by (simp add: Let_def)
qed

lemma not_digit_0 [simp]: "\<not> is_digit 0"
  by (simp add: is_digit_def)

text \<open>The text of an \<open>int\<close>, and what \<open>itoa\<close> writes.\<close>

definition show_int :: "int \<Rightarrow> u8 list" where
  "show_int v = (if v < 0 then 45 # show_num False 10 (nat (- v)) else show_num False 10 (nat v))"

lemma unat_of_int_u64:
  assumes "0 \<le> v" "v < 4294967296"
  shows "unat (ucast (of_int v :: u32) :: u64) = nat v"
proof -
  have "unat (ucast (of_int v :: u32) :: u64) = unat (of_int v :: u32)"
    by (simp add: unsigned_ucast_eq take_bit_nat_eq_self_iff less_le_trans [OF unat_u32_less])
  also have "\<dots> = nat v" using assms by (simp add: unsigned_of_int take_bit_int_eq_self)
  finally show ?thesis .
qed

lemma itoa_eq:
  assumes v: "- 2147483648 < v" "v \<le> INT_MAX" and room: "length (show_int v) < length str"
  shows "itoa v str 10 = Some (overwrite 0 (show_int v @ [0]) str)"
proof (cases "v < 0")
  case True
  let ?n = "show_num False 10 (nat (- v))"
  have u: "unat (ucast (of_int (- v) :: u32) :: u64) = nat (- v)"
    using True v by (intro unat_of_int_u64) simp_all
  have "ulltoa_at 1 (ucast (of_int (- v) :: u32)) (overwrite 0 [45] str) (int 10) False =
      Some (overwrite 1 (?n @ [0]) (overwrite 0 [45] str))"
    using ulltoa_at_eq [of 10 1 False "ucast (of_int (- v) :: u32)" "overwrite 0 [45] str"] room True
    unfolding u by (simp add: show_int_def)
  also have "overwrite 1 (?n @ [0]) (overwrite 0 [45] str) = overwrite 0 (45 # ?n @ [0]) str"
    using overwrite_overwrite [of 0 "[45]" "?n @ [0]" str] room True by (simp add: show_int_def)
  finally show ?thesis using True v room
    by (cases str) (simp_all add: itoa_def show_int_def st8_overwrite)
next
  case False
  have u: "unat (ucast (of_int v :: u32) :: u64) = nat v"
    using False v by (intro unat_of_int_u64) (simp_all add: INT_MAX_def)
  then show ?thesis
    using ulltoa_at_eq [of 10 0 False "ucast (of_int v :: u32)" str] room False
    by (simp add: itoa_def show_int_def)
qed

text \<open>\<open>atoi\<close> reads it back, with blanks in front and anything but a digit behind.\<close>

lemma skip_blanks: "\<forall>c\<in>set bs. P c \<Longrightarrow> \<not> P a \<Longrightarrow> skip_chars P (bs @ a # r) = Some (a # r)"
  by (induction bs) auto

lemma atoi_show_int:
  assumes v: "- INT_MAX \<le> v" "v \<le> INT_MAX" and bs: "\<forall>c\<in>set bs. is_blank c" and c: "\<not> is_digit c"
  shows "atoi (bs @ show_int v @ c # r) = Some v"
proof -
  obtain ds where ds: "show_num False 10 (nat \<bar>v\<bar>) = map (digit_char False) ds" "ds \<noteq> []" "\<forall>d\<in>set ds. d < 10"
    "foldl (\<lambda>r d. r * 10 + d) 0 ds = nat \<bar>v\<bar>"
    by (rule show_num_digits [of 10]) simp_all
  then obtain d ds' where d: "ds = d # ds'" "d < 10" by (cases ds) auto
  have dig: "dec_digits 0 (map (digit_char False) ds @ c # r) = Some (\<bar>v\<bar>, c # r)"
    using dec_digits_numeral [OF c ds(3), of 0 False r] v ds(4) by simp
  have f: "digit_char False d \<noteq> 45" "\<not> is_blank (digit_char False d)" "\<not> is_blank 45"
    using digit_char_props(4,8) [of d False] d(2) by (auto simp: is_blank_def is_white_def)
  show ?thesis
  proof (cases "v < 0")
    case True
    then have "skip_chars is_blank (bs @ show_int v @ c # r) = Some (45 # map (digit_char False) ds @ c # r)"
      using skip_blanks [OF bs f(3)] ds(1) by (simp add: show_int_def)
    with dig True show ?thesis by (simp add: atoi_def ld8_def)
  next
    case False
    then have "skip_chars is_blank (bs @ show_int v @ c # r) = Some (map (digit_char False) ds @ c # r)"
      using skip_blanks [OF bs f(2)] ds(1) d by (simp add: show_int_def)
    with dig False d f show ?thesis by (simp add: atoi_def ld8_def)
  qed
qed

section \<open>strtol\<close>

text \<open>The end of the number: what is no digit in the base.\<close>

definition ends_number :: "nat \<Rightarrow> u8 \<Rightarrow> bool" where
  "ends_number b c \<longleftrightarrow> c = 0 \<or> (case digit_value c of None \<Rightarrow> True | Some d \<Rightarrow> int b \<le> d)"

lemma strtol_digits_numeral:
  assumes c: "ends_number b c" and b: "1 \<le> b" "b \<le> 16"
  shows "\<forall>d\<in>set ds. d < b \<Longrightarrow> int (foldl (\<lambda>r d. r * b + d) n ds) \<le> LONG_MAX \<Longrightarrow>
    strtol_digits (int n) (int b) (map (digit_char upper) ds @ c # r) =
      Some (int (foldl (\<lambda>r d. r * b + d) n ds), c # r)"
proof (induction ds arbitrary: n)
  case Nil
  with c show ?case by (auto simp: ends_number_def split: option.splits)
next
  case (Cons d ds)
  have d: "digit_char upper d \<noteq> 0" "digit_value (digit_char upper d) = Some (int d)" "d < b"
    using digit_char_props(1,2) [of d upper] Cons.prems b by auto
  have "n * b + d \<le> foldl (\<lambda>r d. r * b + d) (n * b + d) ds" using b(1) by (rule foldl_grows)
  then have "int (n * b + d) \<le> LONG_MAX" using Cons.prems(2) unfolding foldl_Cons by (meson of_nat_le_iff order_trans)
  moreover have "strtol_digits (int (n * b + d)) (int b) (map (digit_char upper) ds @ c # r) =
      Some (int (foldl (\<lambda>r d. r * b + d) (n * b + d) ds), c # r)"
    using Cons.prems by (intro Cons.IH) simp_all
  ultimately show ?case using d by (simp add: Let_def)
qed

definition sign_text :: "bool \<Rightarrow> u8 list" where
  "sign_text neg = (if neg then [45] else [])"

text \<open>The steps of \<open>strtol\<close>: the white space, the sign, the prefix, the base, the digits.\<close>

lemma strtol_steps:
  assumes "skip_chars is_white s = Some s1" "ld8 s1 0 = Some a"
    and "(if a = 45 then (True, drop 1 s1) else if a = 43 then (False, drop 1 s1) else (False, s1)) = (neg, s2)"
    and "hex_prefix s2 = Some hex" "ld8 s2 0 = Some c"
    and "(if base = 0 then (if hex then (16, drop 2 s2) else if c = 48 then (8, s2) else (10, s2))
          else if hex \<and> base = 16 then (base, drop 2 s2) else (base, s2)) = (base', s3)"
    and "strtol_digits 0 base' s3 = Some (v, e)"
  shows "strtol (Some s) base = Some (if neg then - v else v, Some e)"
  using assms by (cases "base = 0 \<or> base = 16") (auto simp: strtol_def split: if_splits)

text \<open>A signed numeral in a base from 2 to 16, without a prefix.\<close>

lemma hex_prefix_plain: "a \<noteq> 48 \<Longrightarrow> hex_prefix (a # s) = Some False"
  "c \<noteq> 120 \<Longrightarrow> c \<noteq> 88 \<Longrightarrow> hex_prefix (a # c # s) = Some False"
  by (simp_all add: hex_prefix_def ld8_def)

lemma strtol_numeral:
  assumes b: "2 \<le> b" "b \<le> 16" and v: "int v \<le> LONG_MAX" and ws: "\<forall>c\<in>set ws. is_white c"
    and c: "ends_number b c" "c \<noteq> 120" "c \<noteq> 88"
  shows "strtol (Some (ws @ sign_text neg @ show_num upper b v @ c # r)) (int b) =
    Some (if neg then - int v else int v, Some (c # r))"
proof -
  obtain ds where ds: "show_num upper b v = map (digit_char upper) ds" "ds \<noteq> []" "\<forall>d\<in>set ds. d < b"
    "foldl (\<lambda>r d. r * b + d) 0 ds = v" "v \<noteq> 0 \<Longrightarrow> hd ds \<noteq> 0" "v = 0 \<Longrightarrow> ds = [0]"
    by (rule show_num_digits [OF b(1)]) blast
  then obtain d ds' where d: "ds = d # ds'" "d < b" by (cases ds) auto
  define t where "t = show_num upper b v @ c # r"
  have t: "t = digit_char upper d # map (digit_char upper) ds' @ c # r" by (simp add: t_def ds(1) d(1))
  have dig: "strtol_digits 0 (int b) t = Some (int v, c # r)"
    using strtol_digits_numeral [OF c(1), of ds 0 upper r] b v ds(3,4) by (simp add: t_def ds(1))
  have f: "digit_char upper d \<noteq> 45" "\<not> is_white (digit_char upper d)" "digit_char upper d \<noteq> 43" "\<not> is_white 45"
    "d \<noteq> 0 \<Longrightarrow> digit_char upper d \<noteq> 48"
    using digit_char_props(4,5,8,9) [of d upper] d(2) b(2) by (auto simp: is_white_def)
  have hex: "hex_prefix t = Some False"
  proof (cases "d = 0")
    case True
    then have "v = 0" using ds(5) d(1) by auto
    then have "t = digit_char upper 0 # c # r" using ds(1,6) by (simp add: t_def)
    with c(2,3) show ?thesis by (simp add: hex_prefix_plain)
  next
    case False
    with f show ?thesis unfolding t by (simp add: hex_prefix_plain)
  qed
  have start: "ld8 t 0 = Some (digit_char upper d)" by (simp add: t ld8_def)
  show ?thesis
  proof (cases neg)
    case True
    have "skip_chars is_white (ws @ 45 # t) = Some (45 # t)" by (rule skip_blanks [OF ws f(4)])
    from strtol_steps [OF this _ _ hex start _ dig, of 45 True "int b"] True b
    show ?thesis by (simp add: t_def sign_text_def ld8_def)
  next
    case False
    have "skip_chars is_white (ws @ t) = Some t" unfolding t by (rule skip_blanks [OF ws f(2)])
    from strtol_steps [OF this start _ hex start _ dig, of False "int b"] False b f
    show ?thesis by (simp add: t_def sign_text_def)
  qed
qed

text \<open>The prefix \<open>0x\<close> is skipped in base 16 and chooses it in base 0; there, a leading 0 chooses octal.\<close>

lemma strtol_hex:
  assumes v: "int v \<le> LONG_MAX" and c: "ends_number 16 c" and x: "x = 120 \<or> x = 88" and base: "base = 0 \<or> base = 16"
  shows "strtol (Some (48 # x # show_num upper 16 v @ c # r)) base = Some (int v, Some (c # r))"
proof -
  obtain ds where ds: "show_num upper 16 v = map (digit_char upper) ds" "\<forall>d\<in>set ds. d < 16"
    "foldl (\<lambda>r d. r * 16 + d) 0 ds = v"
    by (rule show_num_digits [of 16]) simp_all
  let ?t = "show_num upper 16 v @ c # r"
  have dig: "strtol_digits 0 16 ?t = Some (int v, c # r)"
    using strtol_digits_numeral [OF c, of ds 0 upper r] v ds by simp
  have skip: "skip_chars is_white (48 # x # ?t) = Some (48 # x # ?t)" by (simp add: is_white_def)
  have hex: "hex_prefix (48 # x # ?t) = Some True" using x by (simp add: hex_prefix_def ld8_def)
  show ?thesis
    using strtol_steps [OF skip _ _ hex _ _ dig, of 48 False 48 base] base by (auto simp: ld8_def)
qed

lemma strtol_auto:
  assumes v: "int v \<le> LONG_MAX" "v \<noteq> 0" and c: "ends_number b c" and b: "b = 10 \<and> pre = [] \<or> b = 8 \<and> pre = [48]"
  shows "strtol (Some (pre @ show_num upper b v @ c # r)) 0 = Some (int v, Some (c # r))"
proof -
  have b': "2 \<le> b" "1 \<le> b" "b \<le> 16" using b by auto
  obtain ds where ds: "show_num upper b v = map (digit_char upper) ds" "ds \<noteq> []" "\<forall>d\<in>set ds. d < b"
    "foldl (\<lambda>r d. r * b + d) 0 ds = v" "v \<noteq> 0 \<Longrightarrow> hd ds \<noteq> 0"
    by (rule show_num_digits [OF b'(1)]) blast
  then obtain d ds' where d: "ds = d # ds'" "d < b" "d \<noteq> 0" using v(2) by (cases ds) auto
  define t where "t = show_num upper b v @ c # r"
  have t: "t = digit_char upper d # map (digit_char upper) ds' @ c # r" by (simp add: t_def ds(1) d(1))
  have dig: "strtol_digits 0 (int b) t = Some (int v, c # r)"
    using strtol_digits_numeral [OF c b'(2,3), of ds 0 upper r] v ds(3,4) by (simp add: t_def ds(1))
  have f: "digit_char upper d \<noteq> 45" "\<not> is_white (digit_char upper d)" "digit_char upper d \<noteq> 43"
    "digit_char upper d \<noteq> 48" "digit_char upper d \<noteq> 120" "digit_char upper d \<noteq> 88"
    using digit_char_props(4-9) [of d upper] d b'(3) by auto
  from b have "strtol (Some (pre @ t)) 0 = Some (int v, Some (c # r))"
  proof
    assume b10: "b = 10 \<and> pre = []"
    have skip: "skip_chars is_white t = Some t" using f(2) by (simp add: t)
    have at: "ld8 t 0 = Some (digit_char upper d)" "hex_prefix t = Some False"
      using f by (simp_all add: t ld8_def hex_prefix_plain)
    show ?thesis
      using strtol_steps [OF skip at(1) _ at(2) at(1) _ dig, of False 0] b10 f by simp
  next
    assume b8: "b = 8 \<and> pre = [48]"
    have skip: "skip_chars is_white (48 # t) = Some (48 # t)" by (simp add: is_white_def)
    have hex: "hex_prefix (48 # t) = Some False" using f by (simp add: t hex_prefix_plain)
    have at: "ld8 (48 # t) 0 = Some 48" by (simp add: ld8_def)
    have "strtol_digits 0 8 (48 # t) = Some (int v, c # r)"
      using dig b8 by (simp add: digit_value_def LONG_MAX_def)
    from strtol_steps [OF skip at _ hex at _ this, of False 0] b8 show ?thesis by simp
  qed
  then show ?thesis by (simp add: t_def)
qed

section \<open>sscanf and rand\<close>

text \<open>Reading back a list of numbers separated by blanks.\<close>

fun blank_list :: "int list \<Rightarrow> u8 list" where
  "blank_list [] = []"
| "blank_list [v] = show_int v"
| "blank_list (v # vs) = show_int v @ 32 # blank_list vs"

lemma blank_list_Cons: "vs \<noteq> [] \<Longrightarrow> blank_list (v # vs) = show_int v @ 32 # blank_list vs"
  by (cases vs) auto

lemma show_int_run:
  assumes v: "- INT_MAX \<le> v" "v \<le> INT_MAX" and c: "\<not> is_digit c"
  obtains a s1 where "show_int v @ c # r = a # s1" "\<not> is_blank a" "a \<noteq> 0"
    "ld8 (if a = 45 then s1 else a # s1) 0 \<noteq> None" "is_digit (the (ld8 (if a = 45 then s1 else a # s1) 0))"
    "dec_digits 0 (if a = 45 then s1 else a # s1) = Some (\<bar>v\<bar>, c # r)" "a = 45 \<longleftrightarrow> v < 0"
proof -
  obtain ds where ds: "show_num False 10 (nat \<bar>v\<bar>) = map (digit_char False) ds" "ds \<noteq> []" "\<forall>d\<in>set ds. d < 10"
    "foldl (\<lambda>r d. r * 10 + d) 0 ds = nat \<bar>v\<bar>"
    by (rule show_num_digits [of 10]) simp_all
  then obtain d ds' where d: "ds = d # ds'" "d < 10" by (cases ds) auto
  have dig: "dec_digits 0 (map (digit_char False) ds @ c # r) = Some (\<bar>v\<bar>, c # r)"
    using dec_digits_numeral [OF c ds(3), of 0 False r] v ds(4) by simp
  have f: "digit_char False d \<noteq> 45" "\<not> is_blank (digit_char False d)" "\<not> is_blank 45"
    "is_digit (digit_char False d)" "digit_char False d \<noteq> 0"
    using digit_char_props(1,3,4,8) [of d False] d(2) by (auto simp: is_blank_def is_white_def)
  show ?thesis
  proof (cases "v < 0")
    case True
    then show ?thesis using that [of 45 "map (digit_char False) ds @ c # r"] dig ds(1) d f
      by (simp add: show_int_def ld8_def)
  next
    case False
    then show ?thesis using that [of "digit_char False d" "map (digit_char False) ds' @ c # r"] dig ds(1) d f
      by (simp add: show_int_def ld8_def)
  qed
qed

lemma sscanf_loop_list:
  "\<forall>v\<in>set vs. - INT_MAX \<le> v \<and> v \<le> INT_MAX \<Longrightarrow> \<forall>b\<in>set bs. is_blank b \<Longrightarrow>
   sscanf_loop (length vs) (bs @ blank_list vs @ 0 # r) = Some vs"
proof (induction vs arbitrary: bs)
  case Nil
  then show ?case by simp
next
  case (Cons v vs)
  define c where "c = (if vs = [] then 0 else 32 :: u8)"
  define s where "s = (if vs = [] then r else blank_list vs @ 0 # r)"
  have cs: "blank_list (v # vs) @ 0 # r = show_int v @ c # s"
    by (cases "vs = []") (simp_all add: c_def s_def blank_list_Cons)
  have nd: "\<not> is_digit c" by (simp add: c_def is_digit_def)
  have v: "- INT_MAX \<le> v" "v \<le> INT_MAX" using Cons.prems(1) by simp_all
  obtain a s1 where a: "show_int v @ c # s = a # s1" "\<not> is_blank a" "a \<noteq> 0"
    "ld8 (if a = 45 then s1 else a # s1) 0 \<noteq> None" "is_digit (the (ld8 (if a = 45 then s1 else a # s1) 0))"
    "dec_digits 0 (if a = 45 then s1 else a # s1) = Some (\<bar>v\<bar>, c # s)" "a = 45 \<longleftrightarrow> v < 0"
    by (rule show_int_run [OF v nd])
  have rest: "sscanf_loop (length vs) (c # s) = Some vs"
  proof (cases "vs = []")
    case True
    then show ?thesis by simp
  next
    case False
    have "sscanf_loop (length vs) ([32] @ blank_list vs @ 0 # r) = Some vs"
      using Cons.prems(1) by (intro Cons.IH) (simp_all add: is_blank_def)
    with False show ?thesis by (simp add: c_def s_def)
  qed
  obtain f where f: "ld8 (bs @ a # s1) 0 = Some f" "f \<noteq> 0"
    using Cons.prems(2) a(3) by (cases bs) (auto simp: ld8_def is_blank_def)
  have skip: "skip_chars is_blank (bs @ a # s1) = Some (a # s1)" by (rule skip_blanks [OF Cons.prems(2) a(2)])
  show ?case
    unfolding cs a(1) using f skip rest a(4-7)
    by (cases "a = 45") (auto simp: ld8_def [of "_ # _"])
qed

lemma sscanf_list:
  assumes "count_d format = Some (length vs)" "length vs \<le> 16"
    and "\<forall>v\<in>set vs. - INT_MAX \<le> v \<and> v \<le> INT_MAX"
  shows "sscanf (blank_list vs @ 0 # r) format = Some (int (length vs), vs)"
  using sscanf_loop_list [OF assms(3), of "[]" r] assms(1,2) by (simp add: sscanf_def)

lemma sscanf_too_many: "count_d format = Some n \<Longrightarrow> 16 < n \<Longrightarrow> sscanf str format = None"
  by (simp add: sscanf_def)

text \<open>The generator steps through the states without ever merging two, and its values are below 32768.\<close>

lemma rand_range: "0 \<le> fst (rand s) \<and> fst (rand s) < 32768"
  by (simp add: rand_def Let_def uint_mod)

lemma rand_inj:
  assumes "snd (rand s) = snd (rand t)"
  shows "s = t"
proof -
  have "s * 1103515245 + 12345 = t * 1103515245 + 12345"
    using assms unfolding rand_def Let_def snd_conv .
  then have e: "s * 1103515245 = t * 1103515245" by (rule add_right_imp_eq)
  have inv: "1103515245 * 4005161829 = (1 :: u32)" by simp
  have "s * (1103515245 * 4005161829) = t * (1103515245 * 4005161829)"
    unfolding mult.assoc [symmetric] e ..
  then show ?thesis unfolding inv by (simp only: mult_1_right)
qed

end
