(* ===== verification/Libc_Print.thy ===== *)
theory Libc_Print
  imports Libc_Number Netd_State
begin

text \<open>
  The print engines of \<open>include/libc.h\<close>: \<open>snprintf\<close> and \<open>sprintf\<close> into a buffer, \<open>printf\<close> to the standard
  output, and the helpers that print numbers. A format is a C string, the variable arguments are a list of
  typed values: taking one of another type is undefined, and so is taking one when none is left. What \<open>printf\<close>
  does is the sequence of buffers it hands to \<open>write(STDOUT_FILENO, ...)\<close>, whose results it ignores.
\<close>

section \<open>Model: arguments\<close>

text \<open>An \<open>int\<close> or \<open>unsigned int\<close>, a \<open>long\<close>, a \<open>long long\<close>, or a pointer: its address and the bytes behind it.\<close>

datatype arg = AInt u32 | ALong u64 | ALongLong u64 | APtr u64 "u8 list"

definition va_int :: "arg list \<Rightarrow> (u32 \<times> arg list) option" where
  "va_int ap = (case ap of AInt w # ap \<Rightarrow> Some (w, ap) | _ \<Rightarrow> None)"

definition va_long :: "arg list \<Rightarrow> (u64 \<times> arg list) option" where
  "va_long ap = (case ap of ALong w # ap \<Rightarrow> Some (w, ap) | _ \<Rightarrow> None)"

definition va_llong :: "arg list \<Rightarrow> (u64 \<times> arg list) option" where
  "va_llong ap = (case ap of ALongLong w # ap \<Rightarrow> Some (w, ap) | _ \<Rightarrow> None)"

definition va_ptr :: "arg list \<Rightarrow> (u64 \<times> u8 list \<times> arg list) option" where
  "va_ptr ap = (case ap of APtr a bs # ap \<Rightarrow> Some (a, bs, ap) | _ \<Rightarrow> None)"

text \<open>The bytes of a C string up to its terminator.\<close>

fun until_nul :: "u8 list \<Rightarrow> u8 list option" where
  "until_nul [] = None"
| "until_nul (c # bs) = (if c = 0 then Some [] else map_option ((#) c) (until_nul bs))"

definition NULL_TEXT :: "u8 list" where
  "NULL_TEXT = [40, 110, 117, 108, 108, 41]"

text \<open>\<open>if (!s) s = "(null)"\<close>, and the characters of the string.\<close>

definition string_arg :: "u64 \<Rightarrow> u8 list \<Rightarrow> u8 list option" where
  "string_arg a bs = (if a = 0 then Some NULL_TEXT else until_nul bs)"

text \<open>\<open>-val\<close> for a negative value, as the unsigned number it is converted to; the least value overflows.\<close>

definition neg32 :: "u32 \<Rightarrow> u32 option" where
  "neg32 w = (if sint w = - 2147483648 then None else Some (- w))"

definition neg64 :: "u64 \<Rightarrow> u64 option" where
  "neg64 w = (if sint w = - 9223372036854775808 then None else Some (- w))"

text \<open>The length modifiers: none, \<open>l\<close> or \<open>ll\<close>, and the format behind them.\<close>

definition modifiers :: "u8 list \<Rightarrow> (bool \<times> bool \<times> u8 list) option" where
  "modifiers f = do {
     c \<leftarrow> ld8 f 0;
     if c = 108 then do {
       c2 \<leftarrow> ld8 f 1;
       Some (if c2 = 108 then (True, True, drop 2 f) else (True, False, drop 1 f))
     }
     else Some (False, False, f)
   }"

section \<open>Model: \<open>snprintf\<close>\<close>

text \<open>\<open>buf\<close> of a conversion, 64 cleared bytes; the digits of a signed value, behind a sign if it has one.\<close>

definition signed_buf :: "bool \<Rightarrow> u64 option \<Rightarrow> u64 \<Rightarrow> u8 list option" where
  "signed_buf negative opp val =
     (if negative then do { m \<leftarrow> opp; buf \<leftarrow> st8 0 45 (replicate 64 0); ulltoa_at 1 m buf 10 False }
      else ulltoa val (replicate 64 0) 10 False)"

definition dec_buf :: "bool \<Rightarrow> bool \<Rightarrow> arg list \<Rightarrow> (u8 list \<times> arg list) option" where
  "dec_buf lflag llflag ap =
     (if llflag then do {
        (w, ap) \<leftarrow> va_llong ap;
        buf \<leftarrow> signed_buf (sint w < 0) (neg64 w) w;
        Some (buf, ap)
      }
      else if lflag then do {
        (w, ap) \<leftarrow> va_long ap;
        buf \<leftarrow> signed_buf (sint w < 0) (neg64 w) w;
        Some (buf, ap)
      }
      else do {
        (w, ap) \<leftarrow> va_int ap;
        buf \<leftarrow> signed_buf (sint w < 0) (map_option ucast (neg32 w)) (ucast w);
        Some (buf, ap)
      })"

definition uns_buf :: "bool \<Rightarrow> bool \<Rightarrow> int \<Rightarrow> bool \<Rightarrow> arg list \<Rightarrow> (u8 list \<times> arg list) option" where
  "uns_buf lflag llflag base upper ap = do {
     (v, ap) \<leftarrow> (if llflag then va_llong ap else if lflag then va_long ap
                 else do { (w, ap) \<leftarrow> va_int ap; Some (ucast w, ap) });
     buf \<leftarrow> ulltoa v (replicate 64 0) base upper;
     Some (buf, ap)
   }"

definition ptr_buf :: "u64 \<Rightarrow> u8 list option" where
  "ptr_buf a = do {
     buf \<leftarrow> strcpy (replicate 64 0) [48, 120, 0];
     tmp \<leftarrow> ulltoa a (replicate 32 0) 16 False;
     k \<leftarrow> strlen buf;
     strncat buf tmp (64 - k - 1)
   }"

text \<open>The characters a conversion puts out: \<open>p\<close> is the conversion character.\<close>

definition snprintf_conv :: "bool \<Rightarrow> bool \<Rightarrow> u8 \<Rightarrow> arg list \<Rightarrow> (u8 list \<times> arg list) option" where
  "snprintf_conv lflag llflag p ap =
     (if p = 115 then do { (a, bs, ap) \<leftarrow> va_ptr ap; t \<leftarrow> string_arg a bs; Some (t, ap) }
      else if p = 100 \<or> p = 105 then do {
        (buf, ap) \<leftarrow> dec_buf lflag llflag ap; t \<leftarrow> until_nul buf; Some (t, ap) }
      else if p = 117 then do {
        (buf, ap) \<leftarrow> uns_buf lflag llflag 10 False ap; t \<leftarrow> until_nul buf; Some (t, ap) }
      else if p = 120 \<or> p = 88 then do {
        (buf, ap) \<leftarrow> uns_buf lflag llflag 16 (p = 88) ap; t \<leftarrow> until_nul buf; Some (t, ap) }
      else if p = 112 then do {
        (a, _, ap) \<leftarrow> va_ptr ap; buf \<leftarrow> ptr_buf a; t \<leftarrow> until_nul buf; Some (t, ap) }
      else if p = 99 then do { (w, ap) \<leftarrow> va_int ap; Some ([ucast w], ap) }
      else if p = 37 then Some ([37], ap)
      else Some ([37, p], ap))"

text \<open>
  One character out: it is stored while there is room (\<open>rem\<close>), and counted in any case; the count is an \<open>int\<close>.
\<close>

record snprintf_st =
  sn_str :: "u8 list"
  sn_out :: nat
  sn_rem :: nat
  sn_total :: int

definition put_char :: "u8 \<Rightarrow> snprintf_st \<Rightarrow> snprintf_st option" where
  "put_char c st = do {
     st \<leftarrow> (if 0 < sn_rem st then do {
              str \<leftarrow> st8 (sn_out st) c (sn_str st);
              Some (st\<lparr>sn_str := str, sn_out := sn_out st + 1, sn_rem := sn_rem st - 1\<rparr>)
            } else Some st);
     if sn_total st = INT_MAX then None else Some (st\<lparr>sn_total := sn_total st + 1\<rparr>)
   }"

fun put_chars :: "u8 list \<Rightarrow> snprintf_st \<Rightarrow> snprintf_st option" where
  "put_chars [] st = Some st"
| "put_chars (c # cs) st = do { st \<leftarrow> put_char c st; put_chars cs st }"

lemma modifiers_length: "modifiers f = Some (l, ll, f') \<Longrightarrow> length f' \<le> length f"
  by (auto simp: modifiers_def Option.bind_eq_Some_conv split: if_splits)

function snprintf_loop :: "u8 list \<Rightarrow> arg list \<Rightarrow> snprintf_st \<Rightarrow> snprintf_st option" where
  "snprintf_loop p ap st = do {
     c \<leftarrow> ld8 p 0;
     if c = 0 then Some st
     else do {
       c2 \<leftarrow> (if c = 37 then ld8 p 1 else Some 0);
       if c = 37 \<and> c2 \<noteq> 0 then do {
         (lflag, llflag, p') \<leftarrow> modifiers (drop 1 p);
         d \<leftarrow> ld8 p' 0;
         (t, ap) \<leftarrow> snprintf_conv lflag llflag d ap;
         st \<leftarrow> put_chars t st;
         snprintf_loop (drop 1 p') ap st
       }
       else do { st \<leftarrow> put_char c st; snprintf_loop (drop 1 p) ap st }
     }
   }"
  by pat_completeness auto
termination
  by (relation "measure (\<lambda>(p, ap, st). length p)") (auto simp: ld8_def split: if_splits dest!: modifiers_length)

declare snprintf_loop.simps [simp del]

text \<open>\<open>snprintf\<close> returns its value and the destination array; a null destination is \<open>None\<close>.\<close>

definition snprintf ::
  "u8 list option \<Rightarrow> nat \<Rightarrow> u8 list \<Rightarrow> arg list \<Rightarrow> (int \<times> u8 list option) option" where
  "snprintf str sz fmt ap =
     (case str of
        None \<Rightarrow> Some (0, None)
      | Some str \<Rightarrow>
          if sz = 0 then Some (0, Some str)
          else do {
            st \<leftarrow> snprintf_loop fmt ap \<lparr>sn_str = str, sn_out = 0, sn_rem = sz - 1, sn_total = 0\<rparr>;
            str \<leftarrow> st8 (sn_out st) 0 (sn_str st);
            Some (sn_total st, Some str)
          })"

section \<open>Model: printing numbers\<close>

text \<open>
  The digits go into an array, least significant first, and from there to \<open>putc\<close>, one \<open>write\<close> each. Only
  elements that were stored are read back.
\<close>

definition digits_out :: "nat \<Rightarrow> u64 \<Rightarrow> int \<Rightarrow> bool \<Rightarrow> u8 list list option" where
  "digits_out cap n base upper = do {
     (i, buf) \<leftarrow> put_digits (if upper then hex_upper else hex_lower) (of_int base) n 0 (replicate cap 0);
     Some (map (\<lambda>c. [c]) (rev (take i buf)))
   }"

definition print_uint :: "u32 \<Rightarrow> int \<Rightarrow> bool \<Rightarrow> u8 list list option" where
  "print_uint n base upper = (if n = 0 then Some [[48]] else digits_out 32 (ucast n) base upper)"

definition print_uint_padded :: "u32 \<Rightarrow> int \<Rightarrow> bool \<Rightarrow> int \<Rightarrow> u8 \<Rightarrow> u8 list list option" where
  "print_uint_padded n base upper width pad = do {
     ds \<leftarrow> (if n = 0 then Some [[48]] else digits_out 32 (ucast n) base upper);
     let padding_needed = nat (width - int (length ds));
     Some (replicate padding_needed (if pad = 48 then [48] else [32]) @ ds)
   }"

definition print_int :: "u32 \<Rightarrow> u8 list list option" where
  "print_int n =
     (if sint n < 0 then do { m \<leftarrow> neg32 n; ds \<leftarrow> print_uint m 10 False; Some ([45] # ds) }
      else print_uint n 10 False)"

definition print_ulong :: "u64 \<Rightarrow> int \<Rightarrow> bool \<Rightarrow> u8 list list option" where
  "print_ulong n base upper = (if n = 0 then Some [[48]] else digits_out 64 n base upper)"

definition print_ulonglong :: "u64 \<Rightarrow> int \<Rightarrow> bool \<Rightarrow> u8 list list option" where
  "print_ulonglong n base upper = (if n = 0 then Some [[48]] else digits_out 64 n base upper)"

definition print_long :: "u64 \<Rightarrow> u8 list list option" where
  "print_long n =
     (if sint n < 0 then do { m \<leftarrow> neg64 n; ds \<leftarrow> print_ulong m 10 False; Some ([45] # ds) }
      else print_ulong n 10 False)"

section \<open>Model: \<open>printf\<close>\<close>

text \<open>A run of literal characters, and the format from the \<open>%\<close> or the terminator on.\<close>

fun lit_run :: "u8 list \<Rightarrow> (u8 list \<times> u8 list) option" where
  "lit_run [] = None"
| "lit_run (c # f) =
     (if c \<noteq> 0 \<and> c \<noteq> 37 then map_option (\<lambda>(a, r). (c # a, r)) (lit_run f) else Some ([], c # f))"

text \<open>
  The case \<open>x\<close> looks for a zero and a width behind itself: \<open>*fmt\<close> is still the \<open>x\<close> there. It takes an
  \<open>unsigned int\<close> whatever the modifiers.
\<close>

definition printf_hex :: "u8 list \<Rightarrow> arg list \<Rightarrow> (u8 list list \<times> arg list \<times> u8 list) option" where
  "printf_hex f ap = do {
     c \<leftarrow> ld8 f 0;
     let (pad, f) = (if c = 48 then (48, drop 1 f) else (32, f));
     c \<leftarrow> ld8 f 0;
     let (width, f) = (if 48 \<le> sint c \<and> sint c \<le> 57 then (sint c - 48, drop 1 f) else (0, f));
     (w, ap) \<leftarrow> va_int ap;
     out \<leftarrow> print_uint_padded w 16 False width pad;
     Some (out, ap, f)
   }"

text \<open>One conversion at \<open>f\<close>: what is written, the arguments left and where \<open>fmt\<close> is.\<close>

definition printf_conv ::
  "bool \<Rightarrow> bool \<Rightarrow> u8 list \<Rightarrow> arg list \<Rightarrow> (u8 list list \<times> arg list \<times> u8 list) option" where
  "printf_conv longmod longlongmod f ap = do {
     c \<leftarrow> ld8 f 0;
     if c = 99 then do { (w, ap) \<leftarrow> va_int ap; Some ([[ucast w]], ap, f) }
     else if c = 115 then do { (a, bs, ap) \<leftarrow> va_ptr ap; t \<leftarrow> string_arg a bs; Some ([t], ap, f) }
     else if c = 100 \<or> c = 105 then
       if longlongmod then do {
         (n, ap) \<leftarrow> va_llong ap;
         if sint n < 0 then do { m \<leftarrow> neg64 n; ds \<leftarrow> print_ulonglong m 10 False; Some ([45] # ds, ap, f) }
         else do { ds \<leftarrow> print_ulonglong n 10 False; Some (ds, ap, f) }
       }
       else if longmod then do { (n, ap) \<leftarrow> va_long ap; ds \<leftarrow> print_long n; Some (ds, ap, f) }
       else do { (n, ap) \<leftarrow> va_int ap; ds \<leftarrow> print_int n; Some (ds, ap, f) }
     else if c = 117 then
       if longlongmod then do { (n, ap) \<leftarrow> va_llong ap; ds \<leftarrow> print_ulonglong n 10 False; Some (ds, ap, f) }
       else if longmod then do { (n, ap) \<leftarrow> va_long ap; ds \<leftarrow> print_ulong n 10 False; Some (ds, ap, f) }
       else do { (n, ap) \<leftarrow> va_int ap; ds \<leftarrow> print_uint n 10 False; Some (ds, ap, f) }
     else if c = 120 then printf_hex f ap
     else if c = 88 then
       if longlongmod then do { (n, ap) \<leftarrow> va_llong ap; ds \<leftarrow> print_ulonglong n 16 True; Some (ds, ap, f) }
       else if longmod then do { (n, ap) \<leftarrow> va_long ap; ds \<leftarrow> print_ulong n 16 True; Some (ds, ap, f) }
       else do { (n, ap) \<leftarrow> va_int ap; ds \<leftarrow> print_uint n 16 True; Some (ds, ap, f) }
     else if c = 37 then Some ([[37]], ap, f)
     else Some ([37] # (if c \<noteq> 0 then [[c]] else []), ap, f)
   }"

lemma lit_run_length: "lit_run f = Some (a, r) \<Longrightarrow> length r \<le> length f"
proof (induction f arbitrary: a r)
  case (Cons c f)
  then show ?case by (auto split: if_splits)
qed simp

lemma printf_conv_length: "printf_conv l ll f ap = Some (out, ap', f') \<Longrightarrow> length f' \<le> length f"
  by (auto simp: printf_conv_def printf_hex_def Option.bind_eq_Some_conv Let_def split: if_splits)

function printf_writes :: "u8 list \<Rightarrow> arg list \<Rightarrow> u8 list list option" where
  "printf_writes fmt ap = do {
     c \<leftarrow> ld8 fmt 0;
     if c = 0 then Some []
     else if c \<noteq> 37 then do {
       (run, r) \<leftarrow> lit_run (drop 1 fmt);
       out \<leftarrow> printf_writes r ap;
       Some ((c # run) # out)
     }
     else do {
       (longmod, longlongmod, f) \<leftarrow> modifiers (drop 1 fmt);
       (out, ap, f) \<leftarrow> printf_conv longmod longlongmod f ap;
       e \<leftarrow> ld8 f 0;
       more \<leftarrow> printf_writes (if e \<noteq> 0 then drop 1 f else f) ap;
       Some (out @ more)
     }
   }"
  by pat_completeness auto
termination
  by (relation "measure (\<lambda>(fmt, ap). length fmt)")
    (auto simp: ld8_def neq_Nil_conv split: if_splits dest!: modifiers_length lit_run_length printf_conv_length)

declare printf_writes.simps [simp del]

definition console :: "'w kernel \<Rightarrow> u8 list list \<Rightarrow> 'w machine \<Rightarrow> 'w machine" where
  "console K out s = foldl (\<lambda>s bs. snd (sys_write K 1 bs s)) s out"

definition printf :: "'w kernel \<Rightarrow> u8 list \<Rightarrow> arg list \<Rightarrow> 'w machine \<Rightarrow> (int \<times> 'w machine) option" where
  "printf K fmt ap s = do { out \<leftarrow> printf_writes fmt ap; Some (0, console K out s) }"

section \<open>Model: \<open>sprintf\<close>\<close>

text \<open>The digits of a positive \<open>int\<close>, least significant first, into \<open>buf\<close>.\<close>

function put_dec :: "nat \<Rightarrow> nat \<Rightarrow> u8 list \<Rightarrow> (nat \<times> u8 list) option" where
  "put_dec val i buf =
     (if 0 < val then do { buf \<leftarrow> st8 i (48 + of_nat (val mod 10)) buf; put_dec (val div 10) (i + 1) buf }
      else Some (i, buf))"
  by pat_completeness auto
termination by (relation "measure (\<lambda>(val, i, buf). val)") auto

declare put_dec.simps [simp del]

text \<open>
  A signed value is cut to an \<open>int\<close> first, whatever the modifiers; an unsigned one to an \<open>unsigned int\<close>.
\<close>

definition cut_arg :: "bool \<Rightarrow> bool \<Rightarrow> arg list \<Rightarrow> (u32 \<times> arg list) option" where
  "cut_arg longmod longlongmod ap =
     (if longlongmod then do { (n, ap) \<leftarrow> va_llong ap; Some (ucast n, ap) }
      else if longmod then do { (n, ap) \<leftarrow> va_long ap; Some (ucast n, ap) }
      else va_int ap)"

definition sprintf_dec :: "u32 \<Rightarrow> u8 list option" where
  "sprintf_dec w = do {
     m \<leftarrow> (if sint w < 0 then neg32 w else Some w);
     (i, buf) \<leftarrow> (if m = 0 then Some (1, 48 # replicate 31 0) else put_dec (unat m) 0 (replicate 32 0));
     Some ((if sint w < 0 then [45] else []) @ rev (take i buf))
   }"

definition sprintf_uns :: "u32 \<Rightarrow> int \<Rightarrow> bool \<Rightarrow> u8 list option" where
  "sprintf_uns w base upper = do {
     (i, buf) \<leftarrow> (if w = 0 then Some (1, 48 # replicate 31 0)
                  else put_digits (if upper then hex_upper else hex_lower) (of_int base) (ucast w) 0 (replicate 32 0));
     Some (rev (take i buf))
   }"

definition sprintf_conv :: "bool \<Rightarrow> bool \<Rightarrow> u8 \<Rightarrow> arg list \<Rightarrow> (u8 list \<times> arg list) option" where
  "sprintf_conv longmod longlongmod c ap =
     (if c = 99 then do { (w, ap) \<leftarrow> va_int ap; Some ([ucast w], ap) }
      else if c = 115 then do { (a, bs, ap) \<leftarrow> va_ptr ap; t \<leftarrow> string_arg a bs; Some (t, ap) }
      else if c = 100 \<or> c = 105 then do {
        (w, ap) \<leftarrow> cut_arg longmod longlongmod ap; t \<leftarrow> sprintf_dec w; Some (t, ap) }
      else if c = 117 \<or> c = 120 \<or> c = 88 then do {
        (w, ap) \<leftarrow> cut_arg longmod longlongmod ap;
        t \<leftarrow> sprintf_uns w (if c = 117 then 10 else 16) (c = 88);
        Some (t, ap) }
      else if c = 37 then Some ([37], ap)
      else Some (37 # (if c \<noteq> 0 then [c] else []), ap))"

text \<open>\<open>out\<close> is the offset in the destination.\<close>

function sprintf_loop :: "u8 list \<Rightarrow> arg list \<Rightarrow> nat \<Rightarrow> u8 list \<Rightarrow> (nat \<times> u8 list) option" where
  "sprintf_loop fmt ap out str = do {
     c \<leftarrow> ld8 fmt 0;
     if c = 0 then Some (out, str)
     else if c \<noteq> 37 then do {
       (run, r) \<leftarrow> lit_run (drop 1 fmt);
       str \<leftarrow> wr out (c # run) str;
       sprintf_loop r ap (out + length (c # run)) str
     }
     else do {
       (longmod, longlongmod, f) \<leftarrow> modifiers (drop 1 fmt);
       d \<leftarrow> ld8 f 0;
       (t, ap) \<leftarrow> sprintf_conv longmod longlongmod d ap;
       str \<leftarrow> wr out t str;
       sprintf_loop (if d \<noteq> 0 then drop 1 f else f) ap (out + length t) str
     }
   }"
  by pat_completeness auto
termination
  by (relation "measure (\<lambda>(fmt, ap, out, str). length fmt)")
    (auto simp: ld8_def neq_Nil_conv split: if_splits dest!: modifiers_length lit_run_length)

declare sprintf_loop.simps [simp del]

definition sprintf :: "u8 list option \<Rightarrow> u8 list \<Rightarrow> arg list \<Rightarrow> (int \<times> u8 list option) option" where
  "sprintf str fmt ap =
     (case str of
        None \<Rightarrow> Some (-1, None)
      | Some str \<Rightarrow> do {
          (out, str) \<leftarrow> sprintf_loop fmt ap 0 str;
          str \<leftarrow> st8 out 0 str;
          Some (sint (of_nat out :: u32), Some str)
        })"

end
