(* ===== verification/Print_Format.thy ===== *)
theory Print_Format
  imports Libc_Print
begin

text \<open>
  What the print engines of \<open>Libc_Print\<close> print. A format together with its arguments is a list of pieces:
  literal characters and conversions with their values; \<open>render\<close> is the text it stands for. \<open>snprintf\<close> returns
  its length and stores what fits, \<open>printf\<close> writes it in chunks, and \<open>sprintf\<close> stores it after cutting every
  number to 32 bits, past the end of the array where it does not fit.
\<close>

section \<open>Formats and their text\<close>

datatype width = Plain | L | LL

datatype piece =
  Lit u8
| Percent
| Chr u32
| Str u64 "u8 list"
| Dec width int
| Uns width nat
| Hex bool width nat
| Pointer u64 "u8 list"
| Unknown u8

text \<open>
  \<open>Unknown c\<close> is a \<open>%\<close> with a character behind it that is no conversion; it takes no argument. Field widths
  are among them: \<open>%02x\<close> is \<open>Unknown 48\<close> and two literal characters.
\<close>

fun width_chars :: "width \<Rightarrow> u8 list" where
  "width_chars Plain = []"
| "width_chars L = [108]"
| "width_chars LL = [108, 108]"

fun num_arg :: "width \<Rightarrow> int \<Rightarrow> arg" where
  "num_arg Plain v = AInt (of_int v)"
| "num_arg L v = ALong (of_int v)"
| "num_arg LL v = ALongLong (of_int v)"

fun format_of :: "piece \<Rightarrow> u8 list" where
  "format_of (Lit c) = [c]"
| "format_of Percent = [37, 37]"
| "format_of (Chr w) = [37, 99]"
| "format_of (Str a bs) = [37, 115]"
| "format_of (Dec l v) = 37 # width_chars l @ [100]"
| "format_of (Uns l v) = 37 # width_chars l @ [117]"
| "format_of (Hex upper l v) = 37 # width_chars l @ [if upper then 88 else 120]"
| "format_of (Pointer a bs) = [37, 112]"
| "format_of (Unknown c) = [37, c]"

fun arg_of :: "piece \<Rightarrow> arg list" where
  "arg_of (Chr w) = [AInt w]"
| "arg_of (Str a bs) = [APtr a bs]"
| "arg_of (Dec l v) = [num_arg l v]"
| "arg_of (Uns l v) = [num_arg l (int v)]"
| "arg_of (Hex upper l v) = [num_arg l (int v)]"
| "arg_of (Pointer a bs) = [APtr a bs]"
| "arg_of _ = []"

fun text_of :: "piece \<Rightarrow> u8 list" where
  "text_of (Lit c) = [c]"
| "text_of Percent = [37]"
| "text_of (Chr w) = [ucast w]"
| "text_of (Str a bs) = (if a = 0 then NULL_TEXT else takeWhile (\<lambda>c. c \<noteq> 0) bs)"
| "text_of (Dec l v) = show_int v"
| "text_of (Uns l v) = show_num False 10 v"
| "text_of (Hex upper l v) = show_num upper 16 v"
| "text_of (Pointer a bs) = [48, 120] @ show_num False 16 (unat a)"
| "text_of (Unknown c) = [37, c]"

fun width_bits :: "width \<Rightarrow> nat" where
  "width_bits Plain = 32"
| "width_bits L = 64"
| "width_bits LL = 64"

fun piece_ok :: "piece \<Rightarrow> bool" where
  "piece_ok (Lit c) \<longleftrightarrow> c \<noteq> 0 \<and> c \<noteq> 37"
| "piece_ok (Str a bs) \<longleftrightarrow> a = 0 \<or> 0 \<in> set bs"
| "piece_ok (Dec l v) \<longleftrightarrow> - (2 ^ (width_bits l - 1)) < v \<and> v < 2 ^ (width_bits l - 1)"
| "piece_ok (Uns l v) \<longleftrightarrow> v < 2 ^ width_bits l"
| "piece_ok (Hex upper l v) \<longleftrightarrow> v < 2 ^ width_bits l"
| "piece_ok (Unknown c) \<longleftrightarrow> c \<notin> {0, 37, 88, 99, 100, 105, 108, 112, 115, 117, 120}"
| "piece_ok _ \<longleftrightarrow> True"

definition format :: "piece list \<Rightarrow> u8 list" where
  "format ps = concat (map format_of ps) @ [0]"

definition args :: "piece list \<Rightarrow> arg list" where
  "args ps = concat (map arg_of ps)"

definition render :: "piece list \<Rightarrow> u8 list" where
  "render ps = concat (map text_of ps)"

section \<open>Numbers\<close>

lemma show_num_nonzero:
  assumes "2 \<le> b" "b \<le> 16"
  shows "0 \<notin> set (show_num upper b v)"
proof -
  obtain ds where ds: "show_num upper b v = map (digit_char upper) ds" "\<forall>d\<in>set ds. d < b"
    by (rule show_num_digits [OF assms(1), of upper v])
  have "digit_char upper d \<noteq> 0" if "d \<in> set ds" for d
    using ds(2) assms(2) that by (intro digit_char_props(1)) force
  then show ?thesis using ds(1) by auto
qed

lemma length_numeral_of: "2 \<le> b \<Longrightarrow> v < b ^ n \<Longrightarrow> length (numeral_of b v) \<le> n"
proof (induction b v arbitrary: n rule: numeral_of.induct)
  case (1 b v)
  show ?case
  proof (cases "v = 0 \<or> n = 0")
    case True
    with 1 show ?thesis by (auto simp: numeral_of.simps [of b 0])
  next
    case False
    then obtain m where n: "n = Suc m" by (cases n) auto
    have "v div b < b ^ m"
      using 1 n by (simp add: less_mult_imp_div_less mult.commute)
    then have "length (numeral_of b (v div b)) \<le> m" using 1 False by simp
    then show ?thesis using False 1 n by (subst numeral_of.simps) simp
  qed
qed

lemma length_show_num: "2 \<le> b \<Longrightarrow> v < b ^ n \<Longrightarrow> 1 \<le> n \<Longrightarrow> length (show_num upper b v) \<le> n"
  using length_numeral_of [of b v n] by (simp add: show_num_def)

text \<open>A 64-bit number has at most 20 decimal and 16 hexadecimal digits, a 32-bit one 10 and 8.\<close>

lemma length_show_num_64:
  "v < 2 ^ 64 \<Longrightarrow> length (show_num upper 10 v) \<le> 20"
  "v < 2 ^ 64 \<Longrightarrow> length (show_num upper 16 v) \<le> 16"
  by (rule length_show_num; simp)+

lemma length_show_num_32:
  "v < 2 ^ 32 \<Longrightarrow> length (show_num upper 10 v) \<le> 10"
  "v < 2 ^ 32 \<Longrightarrow> length (show_num upper 16 v) \<le> 8"
  by (rule length_show_num; simp)+

lemma until_nul_append: "0 \<notin> set s \<Longrightarrow> until_nul (s @ 0 # r) = Some s"
  by (induction s) auto

lemma until_nul_takeWhile: "0 \<in> set bs \<Longrightarrow> until_nul bs = Some (takeWhile (\<lambda>c. c \<noteq> 0) bs)"
  by (induction bs) auto

lemma until_nul_overwrite: "0 \<notin> set s \<Longrightarrow> until_nul (overwrite 0 (s @ [0]) p) = Some s"
  using until_nul_append [of s "drop (Suc (length s)) p"] by (simp add: overwrite_def)

lemma string_arg_eq:
  "a = 0 \<or> 0 \<in> set bs \<Longrightarrow> string_arg a bs = Some (if a = 0 then NULL_TEXT else takeWhile (\<lambda>c. c \<noteq> 0) bs)"
  by (auto simp: string_arg_def until_nul_takeWhile)

lemma ulltoa_64:
  assumes b: "b = 10 \<or> b = 16" and n: "n \<ge> 32"
  shows "ulltoa x (replicate n 0) (int b) upper = Some (overwrite 0 (show_num upper b (unat x) @ [0]) (replicate n 0))"
proof -
  have "length (show_num upper b (unat x)) \<le> 20"
    using length_show_num_64 [of "unat x" upper] unat_u64_less [of x] b by auto
  with b n show ?thesis unfolding ulltoa_def by (intro ulltoa_at_eq) auto
qed

lemma signed_buf_pos:
  "signed_buf False opp w = Some (overwrite 0 (show_num False 10 (unat w) @ [0]) (replicate 64 0))"
  using ulltoa_64 [of 10 64 w False] by (simp add: signed_buf_def)

lemma signed_buf_neg:
  "signed_buf True (Some m) w =
     Some (overwrite 0 ((45 # show_num False 10 (unat m)) @ [0]) (replicate 64 0))"
proof -
  let ?n = "show_num False 10 (unat m)"
  have l: "length ?n \<le> 20" using length_show_num_64 [of "unat m" False] unat_u64_less [of m] by auto
  have "ulltoa_at 1 m (overwrite 0 [45] (replicate 64 0)) (int 10) False =
      Some (overwrite 1 (?n @ [0]) (overwrite 0 [45] (replicate 64 0)))"
    by (rule ulltoa_at_eq) (use l in simp_all)
  moreover have "overwrite 1 (?n @ [0]) (overwrite 0 [45] (replicate 64 0)) =
      overwrite 0 ((45 # ?n) @ [0]) (replicate 64 0)"
    using overwrite_overwrite [of 0 "[45]" "?n @ [0]" "replicate 64 0"] l by simp
  ultimately show ?thesis by (simp add: signed_buf_def st8_overwrite)
qed

lemma sint_of_int_u32: "- 2147483648 \<le> v \<Longrightarrow> v < 2147483648 \<Longrightarrow> sint (of_int v :: u32) = v"
  by (simp add: signed_of_int signed_take_bit_int_eq_self)

lemma sint_of_int_u64:
  "- 9223372036854775808 \<le> v \<Longrightarrow> v < 9223372036854775808 \<Longrightarrow> sint (of_int v :: u64) = v"
  by (simp add: signed_of_int signed_take_bit_int_eq_self)

lemma unat_of_int_64: "0 \<le> v \<Longrightarrow> v < 18446744073709551616 \<Longrightarrow> unat (of_int v :: u64) = nat v"
  by (simp add: unsigned_of_int take_bit_int_eq_self)

lemma unat_of_int_32: "0 \<le> v \<Longrightarrow> v < 4294967296 \<Longrightarrow> unat (of_int v :: u32) = nat v"
  by (simp add: unsigned_of_int take_bit_int_eq_self)

lemma neg32_of_int: "- 2147483648 < v \<Longrightarrow> v < 2147483648 \<Longrightarrow> neg32 (of_int v) = Some (of_int (- v))"
  by (simp add: neg32_def sint_of_int_u32)

lemma neg64_of_int:
  "- 9223372036854775808 < v \<Longrightarrow> v < 9223372036854775808 \<Longrightarrow> neg64 (of_int v) = Some (of_int (- v))"
  by (simp add: neg64_def sint_of_int_u64)

section \<open>The conversions of \<open>snprintf\<close>\<close>

lemma dec_buf_eq:
  assumes "piece_ok (Dec l v)"
  shows "dec_buf (l \<noteq> Plain) (l = LL) (num_arg l v # ap) =
    Some (overwrite 0 (show_int v @ [0]) (replicate 64 0), ap)"
proof (cases "v < 0")
  case True
  then show ?thesis using assms
    by (cases l)
      (simp_all add: dec_buf_def va_int_def va_long_def va_llong_def show_int_def sint_of_int_u32 sint_of_int_u64
        neg32_of_int neg64_of_int signed_buf_neg unat_of_int_64 unat_of_int_u64 del: of_int_minus)
next
  case False
  then show ?thesis using assms
    by (cases l)
      (simp_all add: dec_buf_def va_int_def va_long_def va_llong_def show_int_def sint_of_int_u32 sint_of_int_u64
        signed_buf_pos unat_of_int_64 unat_of_int_u64)
qed

lemma uns_buf_eq:
  assumes "v < 2 ^ width_bits l" "b = 10 \<or> b = 16"
  shows "uns_buf (l \<noteq> Plain) (l = LL) (int b) upper (num_arg l (int v) # ap) =
    Some (overwrite 0 (show_num upper b v @ [0]) (replicate 64 0), ap)"
  using assms ulltoa_64 [of b 64 "of_nat v" upper] ulltoa_64 [of b 64 "ucast (of_nat v :: u32)" upper]
    unat_of_int_64 [of "int v"] unat_of_int_u64 [of "int v"]
  by (cases l) (simp_all add: uns_buf_def va_int_def va_long_def va_llong_def)

lemma show_int_nonzero: "0 \<notin> set (show_int v)"
  by (simp add: show_int_def show_num_nonzero)

lemma ptr_buf_eq:
  "ptr_buf a = Some (overwrite 0 ((48 # 120 # show_num False 16 (unat a)) @ [0]) (replicate 64 0))"
proof -
  let ?n = "show_num False 16 (unat a)" let ?z = "replicate 64 0"
  have l: "length ?n \<le> 16" using length_show_num_64 [of "unat a" False] unat_u64_less [of a] by auto
  have z: "0 \<notin> set ?n" by (simp add: show_num_nonzero)
  let ?b = "overwrite 0 [48, 120, 0] ?z" let ?t = "overwrite 0 (?n @ [0]) (replicate 32 0)"
  have "strcpy ?z [48, 120, 0] = Some ?b"
    using strcpy_cstr [of "[48, 120]" "[48, 120, 0]" ?z] by simp
  moreover have "ulltoa a (replicate 32 0) 16 False = Some ?t" using ulltoa_64 [of 16 32 a False] by simp
  moreover have "cstr [48, 120] ?b" by (simp add: overwrite_def)
  moreover have "cstr ?n ?t" by (rule overwrite_cstr [OF z])
  moreover have "overwrite 2 (?n @ [0]) ?b = overwrite 0 ((48 # 120 # ?n) @ [0]) ?z"
    using l by (simp add: overwrite_def numeral_2_eq_2)
  ultimately show ?thesis
    using strncat_cstr [of "[48, 120]" ?b ?n ?t 61] l by (simp add: ptr_buf_def strlen_cstr numeral_2_eq_2)
qed

text \<open>The conversion character, and the characters it puts out.\<close>

fun conv_char :: "piece \<Rightarrow> u8" where
  "conv_char (Chr w) = 99"
| "conv_char (Str a bs) = 115"
| "conv_char (Dec l v) = 100"
| "conv_char (Uns l v) = 117"
| "conv_char (Hex upper l v) = (if upper then 88 else 120)"
| "conv_char (Pointer a bs) = 112"
| "conv_char (Unknown c) = c"
| "conv_char _ = 37"

fun width_of :: "piece \<Rightarrow> width" where
  "width_of (Dec l v) = l"
| "width_of (Uns l v) = l"
| "width_of (Hex upper l v) = l"
| "width_of _ = Plain"

lemma format_of_conv: "(\<forall>c. x \<noteq> Lit c) \<Longrightarrow> format_of x = 37 # width_chars (width_of x) @ [conv_char x]"
  by (cases x) auto

lemma conv_char_neq: "piece_ok x \<Longrightarrow> conv_char x \<noteq> 0" "piece_ok x \<Longrightarrow> conv_char x \<noteq> 108"
  by (cases x; simp)+

lemma snprintf_conv_eq:
  assumes "piece_ok x" "\<forall>c. x \<noteq> Lit c"
  shows "snprintf_conv (width_of x \<noteq> Plain) (width_of x = LL) (conv_char x) (arg_of x @ ap) = Some (text_of x, ap)"
proof (cases x)
  case (Dec l v)
  then show ?thesis using dec_buf_eq [of l v ap] assms
    by (simp add: snprintf_conv_def until_nul_overwrite show_int_nonzero)
next
  case (Uns l v)
  then show ?thesis using uns_buf_eq [of v l 10 False ap] assms
    by (simp add: snprintf_conv_def until_nul_overwrite show_num_nonzero)
next
  case (Hex upper l v)
  then show ?thesis using uns_buf_eq [of v l 16 upper ap] assms
    by (cases upper) (simp_all add: snprintf_conv_def until_nul_overwrite show_num_nonzero)
next
  case (Pointer a bs)
  then show ?thesis using until_nul_overwrite [of "48 # 120 # show_num False 16 (unat a)" "replicate 64 0"]
    by (simp add: snprintf_conv_def va_ptr_def ptr_buf_eq show_num_nonzero)
qed (use assms in \<open>auto simp: snprintf_conv_def va_int_def va_ptr_def string_arg_eq\<close>)

lemma modifiers_format:
  "c \<noteq> 108 \<Longrightarrow> modifiers (width_chars l @ c # f) = Some (l \<noteq> Plain, l = LL, c # f)"
  by (cases l) (auto simp: modifiers_def ld8_def)

lemma put_chars_append: "put_chars (as @ bs) st = do { st \<leftarrow> put_chars as st; put_chars bs st }"
  by (induction as arbitrary: st) (auto split: Option.bind_splits)

lemma snprintf_loop_pieces:
  "list_all piece_ok ps \<Longrightarrow>
   snprintf_loop (concat (map format_of ps) @ 0 # r) (args ps @ ap) st = put_chars (render ps) st"
proof (induction ps arbitrary: st)
  case Nil
  then show ?case by (simp add: snprintf_loop.simps [of "0 # r"] ld8_def render_def)
next
  case (Cons x ps)
  let ?f = "concat (map format_of ps) @ 0 # r"
  have IH: "snprintf_loop ?f (args ps @ ap) = put_chars (render ps)" using Cons by (intro ext) simp
  have f: "?f \<noteq> []" by simp
  show ?case
  proof (cases "\<exists>c. x = Lit c")
    case True
    then obtain c where x: "x = Lit c" "c \<noteq> 0" "c \<noteq> 37" using Cons.prems by auto
    then show ?thesis using IH
      by (simp add: snprintf_loop.simps [of "c # ?f"] ld8_def args_def render_def)
  next
    case False
    then have conv: "snprintf_conv (width_of x \<noteq> Plain) (width_of x = LL) (conv_char x) (arg_of x @ args ps @ ap) =
      Some (text_of x, args ps @ ap)" using Cons.prems by (intro snprintf_conv_eq) auto
    let ?g = "width_chars (width_of x) @ conv_char x # ?f"
    have g: "ld8 (37 # ?g) 1 = Some (hd ?g)" "hd ?g \<noteq> 0"
      using conv_char_neq [of x] Cons.prems by (cases "width_of x"; simp add: ld8_def)+
    have "snprintf_loop (37 # ?g) (arg_of x @ args ps @ ap) st =
       do { st \<leftarrow> put_chars (text_of x) st; put_chars (render ps) st }"
      using g conv IH modifiers_format [of "conv_char x" "width_of x" ?f] conv_char_neq [of x] Cons.prems
      by (subst snprintf_loop.simps) (simp add: ld8_def)
    then show ?thesis using False by (simp add: format_of_conv args_def render_def put_chars_append)
  qed
qed

text \<open>Storing what fits.\<close>

lemma put_chars_eq:
  "sn_out st + sn_rem st < length (sn_str st) \<Longrightarrow> sn_total st + int (length cs) \<le> INT_MAX \<Longrightarrow>
   put_chars cs st = Some (st\<lparr>sn_str := overwrite (sn_out st) (take (sn_rem st) cs) (sn_str st),
     sn_out := sn_out st + min (sn_rem st) (length cs), sn_rem := sn_rem st - length cs,
     sn_total := sn_total st + int (length cs)\<rparr>)"
proof (induction cs arbitrary: st)
  case Nil
  then show ?case by simp
next
  case (Cons c cs)
  show ?case
  proof (cases "sn_rem st")
    case 0
    with Cons.prems Cons.IH [of "st\<lparr>sn_total := sn_total st + 1\<rparr>"] show ?thesis
      by (simp add: put_char_def algebra_simps)
  next
    case (Suc k)
    let ?s = "st\<lparr>sn_str := overwrite (sn_out st) [c] (sn_str st), sn_out := sn_out st + 1, sn_rem := k,
      sn_total := sn_total st + 1\<rparr>"
    have "put_char c st = Some ?s" using Cons.prems Suc by (simp add: put_char_def st8_overwrite)
    moreover have "overwrite (Suc (sn_out st)) (take k cs) (overwrite (sn_out st) [c] (sn_str st)) =
        overwrite (sn_out st) (c # take k cs) (sn_str st)"
      using overwrite_overwrite [of "sn_out st" "[c]" "take k cs" "sn_str st"] Cons.prems Suc by simp
    ultimately show ?thesis using Cons.IH [of ?s] Cons.prems Suc by (simp add: algebra_simps)
  qed
qed

lemma snprintf_eq:
  assumes ok: "list_all piece_ok ps" and sz: "0 < sz" "sz \<le> length str" and len: "int (length (render ps)) \<le> INT_MAX"
  shows "snprintf (Some str) sz (format ps) (args ps) =
    Some (int (length (render ps)), Some (overwrite 0 (take (sz - 1) (render ps) @ [0]) str))"
proof -
  let ?t = "take (sz - 1) (render ps)"
  have "put_chars (render ps) \<lparr>sn_str = str, sn_out = 0, sn_rem = sz - 1, sn_total = 0\<rparr> =
    Some \<lparr>sn_str = overwrite 0 ?t str, sn_out = length ?t, sn_rem = sz - 1 - length (render ps),
      sn_total = int (length (render ps))\<rparr>"
    using put_chars_eq [of "\<lparr>sn_str = str, sn_out = 0, sn_rem = sz - 1, sn_total = 0\<rparr>" "render ps"] sz len
    by (simp add: min.commute)
  moreover have "st8 (length ?t) 0 (overwrite 0 ?t str) = Some (overwrite 0 (?t @ [0]) str)"
    using overwrite_overwrite [of 0 ?t "[0]" str] sz by (subst st8_overwrite) auto
  ultimately show ?thesis
    using snprintf_loop_pieces [OF ok, of "[]" "[]"] sz by (simp add: snprintf_def format_def)
qed

section \<open>What \<open>printf\<close> writes\<close>

abbreviation singles :: "u8 list \<Rightarrow> u8 list list" where
  "singles cs \<equiv> map (\<lambda>c. [c]) cs"

lemma concat_singles [simp]: "concat (singles cs) = cs"
  by (induction cs) auto

lemma digits_out_eq:
  assumes n: "n \<noteq> 0" "cap \<ge> 32" and b: "b = 10 \<or> b = 16"
  shows "digits_out cap n (int b) upper = Some (singles (show_num upper b (unat n)))"
proof -
  let ?ds = "map (digit_char upper) (numeral_of b (unat n))"
  have v: "show_num upper b (unat n) = ?ds" using n by (simp add: show_num_def unat_eq_0)
  have l: "length ?ds \<le> 20"
    using length_show_num_64 [of "unat n" upper] unat_u64_less [of n] b v by auto
  have "put_digits (if upper then hex_upper else hex_lower) (of_nat b) n 0 (replicate cap 0) =
      Some (length ?ds, overwrite 0 (rev ?ds) (replicate cap 0))"
    using put_digits_eq [of b 0 n "replicate cap 0" upper] l n b by auto
  then show ?thesis using v l n by (simp add: digits_out_def overwrite_def flip: rev_map)
qed

lemma unat_ucast_u64: "unat (ucast (w :: u32) :: u64) = unat w"
  by (simp add: unsigned_ucast_eq take_bit_nat_eq_self_iff less_le_trans [OF unat_u32_less])

lemma ucast_u64_0: "(ucast (w :: u32) :: u64) = 0 \<longleftrightarrow> w = 0"
  by (simp only: unat_ucast_u64 flip: unat_eq_0)

lemma print_uint_eq:
  "b = 10 \<or> b = 16 \<Longrightarrow> print_uint w (int b) upper = Some (singles (show_num upper b (unat w)))"
  using digits_out_eq [of "ucast w" 32 b upper]
  by (cases "w = 0") (auto simp: print_uint_def show_num_def unat_ucast_u64 ucast_u64_0)

lemma print_ulong_eq:
  "b = 10 \<or> b = 16 \<Longrightarrow> print_ulong w (int b) upper = Some (singles (show_num upper b (unat w)))"
  "b = 10 \<or> b = 16 \<Longrightarrow> print_ulonglong w (int b) upper = Some (singles (show_num upper b (unat w)))"
  using digits_out_eq [of w 64 b upper]
  by (cases "w = 0"; auto simp: print_ulong_def print_ulonglong_def show_num_def)+

text \<open>\<open>print_uint_padded\<close> right-justifies the numeral in its width.\<close>

lemma print_uint_padded_eq:
  assumes "b = 10 \<or> b = 16"
  shows "print_uint_padded w (int b) upper width pad =
    Some (singles (replicate (nat (width - int (length (show_num upper b (unat w))))) (if pad = 48 then 48 else 32)
      @ show_num upper b (unat w)))"
  using digits_out_eq [of "ucast w" 32 b upper] assms
  by (cases "w = 0") (auto simp: print_uint_padded_def show_num_def unat_ucast_u64 ucast_u64_0 Let_def)

text \<open>
  The pieces \<open>printf\<close> knows: its \<open>%x\<close> takes an \<open>unsigned int\<close> whatever the modifiers, and it has no \<open>%p\<close>.
\<close>

fun printf_knows :: "piece \<Rightarrow> bool" where
  "printf_knows (Hex upper l v) \<longleftrightarrow> upper \<or> l = Plain"
| "printf_knows (Pointer a bs) \<longleftrightarrow> False"
| "printf_knows _ \<longleftrightarrow> True"

lemma print_int_eq:
  "- 2147483648 < v \<Longrightarrow> v < 2147483648 \<Longrightarrow> print_int (of_int v) = Some (singles (show_int v))"
  using print_uint_eq [of 10 "of_int v" False] print_uint_eq [of 10 "of_int (- v)" False]
  by (simp add: print_int_def show_int_def sint_of_int_u32 neg32_of_int unat_of_int_32 del: of_int_minus)

lemma print_long_eq:
  assumes "- 9223372036854775808 < v" "v < 9223372036854775808"
  shows "print_long (of_int v) = Some (singles (show_int v))"
  using print_ulong_eq [of 10 "of_int v" False] print_ulong_eq [of 10 "of_int (- v)" False] assms
  by (simp add: print_long_def show_int_def sint_of_int_u64 neg64_of_int unat_of_int_64 del: of_int_minus)

lemma printf_conv_eq:
  assumes "piece_ok x" "\<forall>c. x \<noteq> Lit c" "printf_knows x"
  obtains out where "printf_conv (width_of x \<noteq> Plain) (width_of x = LL) (conv_char x # f) (arg_of x @ ap) =
    Some (out, ap, conv_char x # f)" "concat out = text_of x"
proof (cases x)
  case (Dec l v)
  show ?thesis
    by (rule that [of "singles (show_int v)"])
      (use Dec assms(1) print_ulong_eq(2) [of 10 "of_int v" False] print_ulong_eq(2) [of 10 "of_int (- v)" False] in
        \<open>cases l; simp add: printf_conv_def ld8_def va_int_def va_long_def va_llong_def print_int_eq print_long_eq
          sint_of_int_u64 neg64_of_int unat_of_int_64 show_int_def del: of_int_minus\<close>)+
next
  case (Uns l v)
  show ?thesis
    by (rule that [of "singles (show_num False 10 v)"])
      (use Uns assms(1) print_uint_eq [of 10 "of_nat v" False] print_ulong_eq [of 10 "of_nat v" False]
        unat_of_int_32 [of "int v"] unat_of_int_64 [of "int v"] in
        \<open>cases l; simp add: printf_conv_def ld8_def va_int_def va_long_def va_llong_def\<close>)+
next
  case (Hex upper l v)
  show ?thesis
    by (rule that [of "singles (show_num upper 16 v)"])
      (use Hex assms(1,3) print_uint_eq [of 16 "of_nat v" upper] print_ulong_eq [of 16 "of_nat v" upper]
        print_uint_padded_eq [of 16 "of_nat v" False 0 32] unat_of_int_32 [of "int v"] unat_of_int_64 [of "int v"] in
        \<open>cases l; cases upper; simp add: printf_conv_def printf_hex_def ld8_def va_int_def va_long_def va_llong_def\<close>)+
next
  case (Str a bs)
  show ?thesis
    by (rule that [of "[text_of x]"])
      (use Str assms(1) in \<open>auto simp: printf_conv_def ld8_def va_ptr_def string_arg_eq\<close>)
qed (use assms that [of "[text_of x]"] in \<open>auto simp: printf_conv_def ld8_def va_int_def\<close>)

text \<open>A literal character joins the run behind it.\<close>

lemma printf_writes_lit:
  assumes c: "c \<noteq> 0" "c \<noteq> 37" and f: "printf_writes f ap = Some out"
  obtains out' where "printf_writes (c # f) ap = Some out'" "concat out' = c # concat out"
proof (cases f)
  case Nil
  with f show ?thesis by (simp add: printf_writes.simps [of "[]"] ld8_def)
next
  case (Cons d g)
  show ?thesis
  proof (cases "d \<noteq> 0 \<and> d \<noteq> 37")
    case True
    with f Cons obtain run r more where r: "lit_run g = Some (run, r)" "printf_writes r ap = Some more"
      and out: "out = (d # run) # more"
      by (subst (asm) printf_writes.simps) (auto simp: ld8_def elim!: run_elims)
    have "printf_writes (c # f) ap = Some ((c # d # run) # more)"
      using c True Cons r by (subst printf_writes.simps) (simp add: ld8_def)
    then show ?thesis by (rule that) (simp add: out)
  next
    case False
    have "printf_writes (c # f) ap = Some ([c] # out)"
      using c False Cons f by (subst printf_writes.simps) (auto simp: ld8_def)
    then show ?thesis by (rule that) simp
  qed
qed

lemma printf_writes_pieces:
  assumes "list_all piece_ok ps" "list_all printf_knows ps"
  shows "\<exists>out. printf_writes (concat (map format_of ps) @ 0 # r) (args ps @ ap) = Some out \<and> concat out = render ps"
  using assms
proof (induction ps)
  case Nil
  then show ?case by (simp add: printf_writes.simps [of "0 # r"] ld8_def render_def)
next
  case (Cons x ps)
  let ?f = "concat (map format_of ps) @ 0 # r"
  obtain out where out: "printf_writes ?f (args ps @ ap) = Some out" "concat out = render ps"
    using Cons by auto
  show ?case
  proof (cases "\<exists>c. x = Lit c")
    case True
    then obtain c where x: "x = Lit c" "c \<noteq> 0" "c \<noteq> 37" using Cons.prems by auto
    from printf_writes_lit [OF x(2,3) out(1)] obtain out'
      where "printf_writes (c # ?f) (args ps @ ap) = Some out'" "concat out' = c # concat out" .
    then show ?thesis using x out by (simp add: args_def render_def)
  next
    case False
    then obtain o1 where o1: "printf_conv (width_of x \<noteq> Plain) (width_of x = LL) (conv_char x # ?f)
        (arg_of x @ args ps @ ap) = Some (o1, args ps @ ap, conv_char x # ?f)" "concat o1 = text_of x"
      using Cons.prems printf_conv_eq [of x ?f "args ps @ ap"] by auto
    have "printf_writes (37 # width_chars (width_of x) @ conv_char x # ?f) (arg_of x @ args ps @ ap) = Some (o1 @ out)"
      using o1(1) out(1) modifiers_format [of "conv_char x" "width_of x" ?f] conv_char_neq [of x] Cons.prems
      by (subst printf_writes.simps) (simp add: ld8_def)
    then show ?thesis using False o1(2) out(2) by (simp add: format_of_conv args_def render_def)
  qed
qed

section \<open>What \<open>sprintf\<close> stores\<close>

text \<open>Every number is cut to 32 bits.\<close>

fun cut_piece :: "piece \<Rightarrow> piece" where
  "cut_piece (Dec l v) = Dec Plain (sint (of_int v :: u32))"
| "cut_piece (Uns l v) = Uns Plain (v mod 2 ^ 32)"
| "cut_piece (Hex upper l v) = Hex upper Plain (v mod 2 ^ 32)"
| "cut_piece x = x"

fun sprintf_knows :: "piece \<Rightarrow> bool" where
  "sprintf_knows (Pointer a bs) \<longleftrightarrow> False"
| "sprintf_knows x \<longleftrightarrow> piece_ok (cut_piece x)"

lemma decimal_char: "d < 10 \<Longrightarrow> 48 + of_nat d = digit_char False d"
proof -
  have "list_all (\<lambda>d. 48 + of_nat d = digit_char False d) [0..<10]" by code_simp
  then show "d < 10 \<Longrightarrow> ?thesis" by (simp add: list_all_iff)
qed

lemma put_dec_eq:
  "i + length (numeral_of 10 v) \<le> length buf \<Longrightarrow>
   put_dec v i buf = Some (i + length (numeral_of 10 v), overwrite i (rev (map (digit_char False) (numeral_of 10 v))) buf)"
proof (induction v i buf rule: put_dec.induct)
  case (1 v i buf)
  show ?case
  proof (cases "v = 0")
    case True
    then show ?thesis by (simp add: put_dec.simps [of 0] numeral_of.simps [of 10 0])
  next
    case False
    let ?q = "numeral_of 10 (v div 10)" let ?c = "digit_char False (v mod 10)"
    have n: "numeral_of 10 v = ?q @ [v mod 10]" using False by (subst numeral_of.simps) simp
    have c: "48 + of_nat (v mod 10) = ?c" by (rule decimal_char) simp
    have s: "st8 i (48 + of_nat (v mod 10)) buf = Some (overwrite i [?c] buf)"
      unfolding c using 1(2) n by (intro st8_overwrite) simp
    have "overwrite (i + 1) (rev (map (digit_char False) ?q)) (overwrite i [?c] buf) =
        overwrite i (?c # rev (map (digit_char False) ?q)) buf"
      using overwrite_overwrite [of i "[?c]" "rev (map (digit_char False) ?q)" buf] 1(2) n by simp
    then show ?thesis using 1(1) [OF _ s] 1(2) False s n by (subst put_dec.simps) simp
  qed
qed

lemma sprintf_dec_eq:
  assumes "sint w \<noteq> - 2147483648"
  shows "sprintf_dec w = Some (show_int (sint w))"
proof -
  obtain m where m: "(if sint w < 0 then neg32 w else Some w) = Some m" "unat m = nat \<bar>sint w\<bar>"
  proof (cases "sint w < 0")
    case True
    have "- 2147483648 < sint w" using assms sint_greater_eq [of w] by simp
    then have "unat (of_int (- sint w) :: u32) = nat (- sint w)" using True by (intro unat_of_int_32) simp_all
    then show ?thesis using that [of "- w"] True assms by (simp add: neg32_def)
  next
    case False
    then have "unat (of_int (sint w) :: u32) = nat (sint w)" using sint_less [of w] by (intro unat_of_int_32) simp_all
    then show ?thesis using that [of w] False by simp
  qed
  have "length (numeral_of 10 (unat m)) \<le> 10" using unat_u32_less [of m] by (intro length_numeral_of) simp_all
  then have "put_dec (unat m) 0 (replicate 32 0) = Some (length (numeral_of 10 (unat m)),
      overwrite 0 (rev (map (digit_char False) (numeral_of 10 (unat m)))) (replicate 32 0))"
    using put_dec_eq [of 0 "unat m" "replicate 32 0"] by simp
  then have "sprintf_dec w = Some ((if sint w < 0 then [45] else []) @ show_num False 10 (unat m))"
    using m(1) by (auto simp: sprintf_dec_def show_num_def unat_eq_0 overwrite_def simp flip: rev_map)
  then show ?thesis using m(2) by (simp add: show_int_def)
qed

lemma sprintf_uns_eq:
  assumes b: "b = 10 \<or> b = 16"
  shows "sprintf_uns w (int b) upper = Some (show_num upper b (unat w))"
proof (cases "w = 0")
  case False
  have "length (numeral_of b (unat w)) \<le> 10"
    using b unat_u32_less [of w] by (intro length_numeral_of) auto
  then have "put_digits (if upper then hex_upper else hex_lower) (of_nat b) (ucast w) 0 (replicate 32 0) =
      Some (length (numeral_of b (unat w)), overwrite 0 (rev (map (digit_char upper) (numeral_of b (unat w)))) (replicate 32 0))"
    using put_digits_eq [of b 0 "ucast w" "replicate 32 0" upper] b by (auto simp: unat_ucast_u64)
  then show ?thesis using False by (simp add: sprintf_uns_def show_num_def unat_eq_0 overwrite_def flip: rev_map)
qed (simp add: sprintf_uns_def show_num_def)

lemma ucast_of_int: "(ucast (of_int v :: u64) :: u32) = of_int v"
  by (rule bit_word_eqI) (auto simp: bit_simps)

lemma cut_arg_eq:
  "cut_arg (l \<noteq> Plain) (l = LL) (num_arg l v # ap) = Some (of_int v, ap)"
  by (cases l) (simp_all add: cut_arg_def va_int_def va_long_def va_llong_def ucast_of_int del: of_int_minus)

lemma unat_of_nat_cut: "unat (of_nat v :: u32) = v mod 2 ^ 32"
  by (simp add: unat_of_nat take_bit_nat_def)

lemma sprintf_conv_eq:
  assumes ok: "sprintf_knows x" "\<forall>c. x \<noteq> Lit c"
  shows "sprintf_conv (width_of x \<noteq> Plain) (width_of x = LL) (conv_char x) (arg_of x @ ap) =
    Some (text_of (cut_piece x), ap)"
proof (cases x)
  case (Dec l v)
  then show ?thesis using ok sprintf_dec_eq [of "of_int v"] by (simp add: sprintf_conv_def cut_arg_eq)
next
  case (Uns l v)
  then show ?thesis using sprintf_uns_eq [of 10 "of_nat v" False] cut_arg_eq [of l "int v" ap]
    by (simp add: sprintf_conv_def unat_of_nat_cut)
next
  case (Hex upper l v)
  then show ?thesis using sprintf_uns_eq [of 16 "of_nat v" upper] cut_arg_eq [of l "int v" ap]
    by (cases upper) (simp_all add: sprintf_conv_def unat_of_nat_cut)
qed (use ok in \<open>auto simp: sprintf_conv_def va_int_def va_ptr_def string_arg_eq\<close>)

lemma wr_append_bytes: "wr out (as @ bs) str = do { str \<leftarrow> wr out as str; wr (out + length as) bs str }"
proof (cases "out + length as + length bs \<le> length str")
  case True
  then have "wr out as str = Some (overwrite out as str)"
    "wr (out + length as) bs (overwrite out as str) = Some (overwrite (out + length as) bs (overwrite out as str))"
    "wr out (as @ bs) str = Some (overwrite out (as @ bs) str)"
    by (intro wr_overwrite; simp)+
  with overwrite_overwrite [OF True] show ?thesis by simp
next
  case False
  then have n: "wr out (as @ bs) str = None" by (simp add: wr_None)
  show ?thesis
  proof (cases "wr out as str")
    case (Some s)
    with False wr_length [OF Some] have "wr (out + length as) bs s = None" by (simp add: wr_None)
    with n Some show ?thesis by simp
  qed (simp add: n)
qed

text \<open>A literal character is stored, whatever run it belongs to.\<close>

lemma sprintf_loop_lit:
  assumes c: "c \<noteq> 0" "c \<noteq> 37"
  shows "sprintf_loop (c # f) ap out str = do { str \<leftarrow> wr out [c] str; sprintf_loop f ap (out + 1) str }"
proof (cases f)
  case Nil
  then show ?thesis
    using c by (subst sprintf_loop.simps, subst sprintf_loop.simps) (simp add: ld8_def split: Option.bind_split)
next
  case (Cons d g)
  show ?thesis
  proof (cases "d \<noteq> 0 \<and> d \<noteq> 37")
    case False
    then have "lit_run f = Some ([], f)" using Cons by auto
    then show ?thesis using c by (subst sprintf_loop.simps) (simp add: ld8_def)
  next
    case True
    have eq: "sprintf_loop f ap (out + 1) s = do {
        (run, r) \<leftarrow> lit_run g; s \<leftarrow> wr (out + 1) (d # run) s; sprintf_loop r ap (out + 2 + length run) s }" for s
      using True Cons by (subst sprintf_loop.simps) (simp add: ld8_def)
    have "sprintf_loop (c # f) ap out str = do {
        (run, r) \<leftarrow> lit_run g; s \<leftarrow> wr out (c # d # run) str; sprintf_loop r ap (out + 2 + length run) s }"
      using True c Cons by (subst sprintf_loop.simps) (cases "lit_run g"; simp add: ld8_def split: prod.split)
    then show ?thesis unfolding eq
      using wr_append_bytes [of out "[c]" "d # run" str for run] by (cases "lit_run g"; cases "wr out [c] str") auto
  qed
qed

lemma sprintf_knows_ok: "sprintf_knows x \<Longrightarrow> conv_char x \<noteq> 0 \<and> conv_char x \<noteq> 108"
  by (cases x) auto

lemma sprintf_loop_pieces:
  "list_all sprintf_knows ps \<Longrightarrow> out \<le> length str \<Longrightarrow>
   sprintf_loop (concat (map format_of ps) @ 0 # r) (args ps @ ap) out str =
     map_option (Pair (out + length (render (map cut_piece ps)))) (wr out (render (map cut_piece ps)) str)"
proof (induction ps arbitrary: out str)
  case Nil
  then show ?case by (simp add: sprintf_loop.simps [of "0 # r"] ld8_def render_def wr_overwrite)
next
  case (Cons x ps)
  let ?f = "concat (map format_of ps) @ 0 # r" let ?t = "text_of (cut_piece x)"
  have IH: "sprintf_loop ?f (args ps @ ap) (out + length ?t) s =
      map_option (Pair (out + length ?t + length (render (map cut_piece ps))))
        (wr (out + length ?t) (render (map cut_piece ps)) s)" if "wr out ?t str = Some s" for s
    using Cons that by (intro Cons.IH) (auto simp: wr_def split: if_splits)
  have "sprintf_loop (format_of x @ ?f) (arg_of x @ args ps @ ap) out str =
      do { s \<leftarrow> wr out ?t str; sprintf_loop ?f (args ps @ ap) (out + length ?t) s }"
  proof (cases "\<exists>c. x = Lit c")
    case True
    then show ?thesis using Cons.prems sprintf_loop_lit by auto
  next
    case False
    then have conv: "sprintf_conv (width_of x \<noteq> Plain) (width_of x = LL) (conv_char x) (arg_of x @ args ps @ ap) =
      Some (?t, args ps @ ap)" using Cons.prems by (intro sprintf_conv_eq) auto
    have "sprintf_loop (37 # width_chars (width_of x) @ conv_char x # ?f) (arg_of x @ args ps @ ap) out str =
        do { s \<leftarrow> wr out ?t str; sprintf_loop ?f (args ps @ ap) (out + length ?t) s }"
      using conv modifiers_format [of "conv_char x" "width_of x" ?f] sprintf_knows_ok [of x] Cons.prems
      by (subst sprintf_loop.simps) (simp add: ld8_def)
    then show ?thesis using False by (simp add: format_of_conv)
  qed
  then show ?case using IH wr_append_bytes [of out ?t "render (map cut_piece ps)" str]
    by (cases "wr out ?t str") (simp_all add: args_def render_def ac_simps)
qed

lemma sprintf_eq:
  assumes ok: "list_all sprintf_knows ps"
  defines "t \<equiv> render (map cut_piece ps)"
  shows "sprintf (Some str) (format ps) (args ps) =
    (if length t < length str then Some (sint (of_nat (length t) :: u32), Some (overwrite 0 (t @ [0]) str)) else None)"
proof -
  have l: "sprintf_loop (format ps) (args ps) 0 str = map_option (Pair (length t)) (wr 0 t str)"
    using sprintf_loop_pieces [OF ok, of 0 str "[]" "[]"] by (simp add: t_def format_def)
  show ?thesis
  proof (cases "length t < length str")
    case True
    then have "st8 (length t) 0 (overwrite 0 t str) = Some (overwrite 0 (t @ [0]) str)"
      using overwrite_overwrite [of 0 t "[0]" str] by (simp add: st8_overwrite)
    with l True show ?thesis by (simp add: sprintf_def wr_overwrite)
  next
    case False
    with l show ?thesis by (cases "wr 0 t str") (simp_all add: sprintf_def st8_None wr_length)
  qed
qed

end
