(* ===== verification/Console.thy ===== *)
theory Console
  imports Print_Format
begin

text \<open>
  The messages of the daemon. \<open>src/main.c\<close>, \<open>src/dhcp.c\<close> and \<open>src/api.c\<close> report what they do with \<open>printf\<close>: each
  such call is a sequence of writes to the standard output, and changes nothing of the process. The locale
  \<open>message\<close> states that contract; the theories that print interpret it on each of their messages.
\<close>

section \<open>Model\<close>

text \<open>A string constant; its address is not null, which is all that \<open>printf\<close> looks at.\<close>

definition c_str :: "string \<Rightarrow> u8 list" where
  "c_str t = map of_char t @ [0]"

definition str_arg :: "string \<Rightarrow> arg" where
  "str_arg t = APtr 1 (c_str t)"

definition newline :: string where
  "newline = [CHR 0x0A]"

text \<open>The four bytes of an address, as the messages pass them: \<open>(ip>>24)&0xFF\<close> and so on.\<close>

definition ip_args :: "u32 \<Rightarrow> arg list" where
  "ip_args ip = [AInt (drop_bit 24 ip AND 0xFF), AInt (drop_bit 16 ip AND 0xFF), AInt (drop_bit 8 ip AND 0xFF),
     AInt (ip AND 0xFF)]"

text \<open>\<open>printf(t)\<close> of a line without conversions.\<close>

definition say :: "'w kernel \<Rightarrow> string \<Rightarrow> 'w machine \<Rightarrow> (int \<times> 'w machine) option" where
  "say K t s = printf K (c_str (t @ newline)) [] s"

section \<open>The contract of a message\<close>

lemma console_statics: "same_statics s (console K out s)"
proof (induction out arbitrary: s)
  case Nil
  then show ?case by (simp add: console_def)
next
  case (Cons bs out)
  have "same_statics s (snd (sys_write K 1 bs s))" by (rule sys_write_statics [OF prod.collapse [symmetric]])
  also have "same_statics (snd (sys_write K 1 bs s)) (console K (bs # out) s)"
    using Cons [of "snd (sys_write K 1 bs s)"] by (simp add: console_def)
  finally show ?case .
qed

locale message =
  fixes K :: "'w kernel" and speak :: "'w machine \<Rightarrow> (int \<times> 'w machine) option" and words :: "u8 list"
  assumes says: "\<exists>out. speak s = Some (0, console K out s) \<and> concat out = words"
begin

lemma speaks:
  obtains s' where "speak s = Some (0, s')" "same_statics s s'"
  using says [of s] console_statics by blast

lemma statics: "speak s = Some (r, s') \<Longrightarrow> same_statics s s'"
  using says [of s] console_statics by auto

lemma keeps_net: "speak s = Some (r, s') \<Longrightarrow> g_net s' = g_net s"
  using statics [of s] by (simp add: same_statics_def)

end

lemma printf_pieces:
  assumes "list_all piece_ok ps" "list_all printf_knows ps" "fmt = format ps" "as = args ps @ ap"
  shows "\<exists>out. printf K fmt as s = Some (0, console K out s) \<and> concat out = render ps"
  using printf_writes_pieces [OF assms(1,2), of "[]" ap] assms(3,4) by (auto simp: printf_def format_def)

lemma message_pieces:
  assumes "list_all piece_ok ps" "list_all printf_knows ps" "fmt = format ps" "as = args ps @ ap"
  shows "message K (printf K fmt as) (render ps)"
  using printf_pieces [OF assms] by unfold_locales

lemma messageI:
  assumes "fmt = format ps" "as = args ps @ ap" "words = render ps" "list_all piece_ok ps" "list_all printf_knows ps"
  shows "message K (printf K fmt as) words"
  using message_pieces [OF assms(4,5,1,2)] assms(3) by simp

text \<open>Literal text, and an address in dotted decimal.\<close>

definition lits :: "string \<Rightarrow> piece list" where
  "lits t = map (\<lambda>c. Lit (of_char c)) t"

definition quad :: "u32 \<Rightarrow> piece list" where
  "quad ip = [Uns Plain (unat (drop_bit 24 ip AND 0xFF)), Lit 46, Uns Plain (unat (drop_bit 16 ip AND 0xFF)), Lit 46,
     Uns Plain (unat (drop_bit 8 ip AND 0xFF)), Lit 46, Uns Plain (unat (ip AND 0xFF))]"

definition dotted_quad :: "u32 \<Rightarrow> u8 list" where
  "dotted_quad ip = show_num False 10 (unat (drop_bit 24 ip AND 0xFF)) @ [46] @
     show_num False 10 (unat (drop_bit 16 ip AND 0xFF)) @ [46] @
     show_num False 10 (unat (drop_bit 8 ip AND 0xFF)) @ [46] @ show_num False 10 (unat (ip AND 0xFF))"

definition plain :: "string \<Rightarrow> bool" where
  "plain t \<longleftrightarrow> list_all (\<lambda>c. (of_char c :: u8) \<noteq> 0 \<and> (of_char c :: u8) \<noteq> 37) t"

definition bytes_of :: "string \<Rightarrow> u8 list" where
  "bytes_of t = map of_char t"

lemma quad_ok: "list_all piece_ok (quad ip)" "list_all printf_knows (quad ip)"
  using unat_u32_less by (simp_all add: quad_def)

lemma quad_args: "args (quad ip) = ip_args ip"
  by (simp add: quad_def args_def ip_args_def)

lemma quad_render: "render (quad ip) = dotted_quad ip"
  by (simp add: quad_def render_def dotted_quad_def)

lemma lits_ok: "list_all printf_knows (lits t)" "plain t \<Longrightarrow> list_all piece_ok (lits t)"
  by (simp_all add: lits_def plain_def list_all_iff)

lemma lits_args: "args (lits t) = []"
  by (induction t) (simp_all add: lits_def args_def)

lemma lits_render: "render (lits t) = bytes_of t"
  by (induction t) (simp_all add: lits_def render_def bytes_of_def)

lemma format_lits: "c_str t = format (lits t)"
  by (induction t) (simp_all add: lits_def format_def c_str_def)

lemma pieces_append:
  "args (ps @ qs) = args ps @ args qs" "render (ps @ qs) = render ps @ render qs"
  "args (x # qs) = arg_of x @ args qs" "render (x # qs) = text_of x @ render qs"
  by (simp_all add: args_def render_def)

lemma plain_append: "plain (s @ t) \<longleftrightarrow> plain s \<and> plain t"
  by (simp add: plain_def)

lemma plain_newline: "plain newline"
  by (simp add: plain_def newline_def)

lemma newline_ok: "list_all piece_ok (lits newline)"
  by (simp add: lits_ok plain_newline)

lemmas message_simps = newline_ok quad_ok quad_args quad_render lits_ok lits_args lits_render pieces_append plain_append
  plain_newline

lemmas format_simps = c_str_def lits_def format_def quad_def newline_def

lemma message_say: "plain t \<Longrightarrow> message K (say K t) (bytes_of (t @ newline))"
  using message_pieces [of "lits (t @ newline)" "c_str (t @ newline)" "[]" "[]" K]
  by (simp add: message_simps format_lits say_def [abs_def])

end
