(* ===== verification/Dhcp.thy ===== *)
theory Dhcp
  imports Udp Console
begin

text \<open>
  \<open>src/dhcp.c\<close>: the DHCP client. Its state is \<open>n_dhcp_state\<close>, \<open>n_dhcp_xid\<close> and \<open>n_dhcp_server\<close>; an
  acknowledged lease sets the four addresses of the host. In this file the message types are macros
  that shadow the states \<open>DHCP_DISCOVER\<close>, \<open>DHCP_OFFER\<close> and \<open>DHCP_REQUEST\<close> of the header; the values
  agree, so that the model can keep the states and number the messages.
\<close>

section \<open>Model\<close>

definition DHCP_MAGIC :: u32 where [simp]: "DHCP_MAGIC = 0x63825363"
definition BOOT_REQUEST :: u8 where [simp]: "BOOT_REQUEST = 1"
definition BOOT_REPLY :: u8 where [simp]: "BOOT_REPLY = 2"

definition OPT_SUBNET :: u8 where [simp]: "OPT_SUBNET = 1"
definition OPT_ROUTER :: u8 where [simp]: "OPT_ROUTER = 3"
definition OPT_DNS :: u8 where [simp]: "OPT_DNS = 6"
definition OPT_REQ_IP :: u8 where [simp]: "OPT_REQ_IP = 50"
definition OPT_MSG_TYPE :: u8 where [simp]: "OPT_MSG_TYPE = 53"
definition OPT_SERVER_ID :: u8 where [simp]: "OPT_SERVER_ID = 54"
definition OPT_END :: u8 where [simp]: "OPT_END = 255"

definition MSG_DISCOVER :: u8 where [simp]: "MSG_DISCOVER = 1"
definition MSG_OFFER :: u8 where [simp]: "MSG_OFFER = 2"
definition MSG_REQUEST :: u8 where [simp]: "MSG_REQUEST = 3"
definition MSG_ACK :: u8 where [simp]: "MSG_ACK = 5"
definition MSG_NAK :: u8 where [simp]: "MSG_NAK = 6"

definition DHCP_FIXED_LEN :: nat where [simp]: "DHCP_FIXED_LEN = 236"

text \<open>\<open>dhcp_build_base\<close> is not called; its last statement only reads the four bytes of the cookie.\<close>

definition dhcp_build_base :: "u8 list \<Rightarrow> u32 \<Rightarrow> 'w machine \<Rightarrow> u8 list option" where
  "dhcp_build_base pkt xid s = do {
     pkt \<leftarrow> wr 0 (replicate DHCP_FIXED_LEN 0) pkt;
     pkt \<leftarrow> st8 0 BOOT_REQUEST pkt;
     pkt \<leftarrow> st8 1 1 pkt;
     pkt \<leftarrow> st8 2 6 pkt;
     pkt \<leftarrow> st8 3 0 pkt;
     pkt \<leftarrow> st32 4 (htonl xid) pkt;
     pkt \<leftarrow> st16 8 0 pkt;
     pkt \<leftarrow> st16 10 (htons 0x8000) pkt;
     mac \<leftarrow> rd (n_mac (g_net s)) 0 6;
     pkt \<leftarrow> wr 28 mac pkt;
     _ \<leftarrow> ld32 pkt (236 - 4 + 4);
     Some pkt
   }"

text \<open>An option with a 4-byte address at \<open>opt\<close>, and the pointer behind it.\<close>

definition put_addr_opt :: "u8 \<Rightarrow> u32 \<Rightarrow> u8 list \<Rightarrow> nat \<Rightarrow> (u8 list \<times> nat) option" where
  "put_addr_opt tag a pkt opt = do {
     pkt \<leftarrow> st8 opt tag pkt;
     pkt \<leftarrow> st8 (opt + 1) 4 pkt;
     pkt \<leftarrow> st32 (opt + 2) (htonl a) pkt;
     Some (pkt, opt + 6)
   }"

definition dhcp_send ::
  "'w kernel \<Rightarrow> u8 \<Rightarrow> u32 \<Rightarrow> u32 \<Rightarrow> 'w machine \<Rightarrow> (int \<times> 'w machine) option" where
  "dhcp_send K msg_type req_ip server_id s = do {
     let pkt = replicate (DHCP_FIXED_LEN + 64) 0;
     pkt \<leftarrow> st8 0 BOOT_REQUEST pkt;
     pkt \<leftarrow> st8 1 1 pkt;
     pkt \<leftarrow> st8 2 6 pkt;
     pkt \<leftarrow> st8 3 0 pkt;
     pkt \<leftarrow> st32 4 (htonl (n_dhcp_xid (g_net s))) pkt;
     pkt \<leftarrow> st16 10 (htons 0x8000) pkt;
     mac \<leftarrow> rd (n_mac (g_net s)) 0 6;
     pkt \<leftarrow> wr 28 mac pkt;
     pkt \<leftarrow> st32 DHCP_FIXED_LEN (htonl DHCP_MAGIC) pkt;
     let opt = DHCP_FIXED_LEN + 4;
     pkt \<leftarrow> st8 opt OPT_MSG_TYPE pkt;
     pkt \<leftarrow> st8 (opt + 1) 1 pkt;
     pkt \<leftarrow> st8 (opt + 2) msg_type pkt;
     let opt = opt + 3;
     (pkt, opt) \<leftarrow>
       (if msg_type = MSG_REQUEST then do {
          (pkt, opt) \<leftarrow> (if req_ip \<noteq> 0 then put_addr_opt OPT_REQ_IP req_ip pkt opt else Some (pkt, opt));
          (if server_id \<noteq> 0 then put_addr_opt OPT_SERVER_ID server_id pkt opt else Some (pkt, opt))
        } else Some (pkt, opt));
     pkt \<leftarrow> st8 opt OPT_END pkt;
     let total_len = opt + 1;
     udp_tx K IP_BCAST DHCP_PORT_CLIENT DHCP_PORT_SERVER pkt (of_nat total_len) s
   }"

text \<open>The messages with values in them.\<close>

definition say_discover :: "'w kernel \<Rightarrow> u32 \<Rightarrow> 'w machine \<Rightarrow> (int \<times> 'w machine) option" where
  "say_discover K xid s = printf K (c_str (''[DHCP] DISCOVER sent (xid=0x%x)'' @ newline)) [AInt xid] s"

definition say_offer :: "'w kernel \<Rightarrow> u32 \<Rightarrow> u32 \<Rightarrow> 'w machine \<Rightarrow> (int \<times> 'w machine) option" where
  "say_offer K your_ip server s =
     printf K (c_str (''[DHCP] OFFER: %u.%u.%u.%u from server %u.%u.%u.%u'' @ newline))
       (ip_args your_ip @ ip_args server) s"

definition say_ack ::
  "'w kernel \<Rightarrow> u32 \<Rightarrow> u32 \<Rightarrow> u32 \<Rightarrow> u32 \<Rightarrow> 'w machine \<Rightarrow> (int \<times> 'w machine) option" where
  "say_ack K ip netmask gateway dns s =
     printf K (c_str (''[DHCP] ACK: IP=%u.%u.%u.%u mask=%u.%u.%u.%u gw=%u.%u.%u.%u dns=%u.%u.%u.%u'' @ newline))
       (ip_args ip @ ip_args netmask @ ip_args gateway @ ip_args dns) s"

definition dhcp_start :: "'w kernel \<Rightarrow> 'w machine \<Rightarrow> (unit \<times> 'w machine) option" where
  "dhcp_start K s = do {
     let (t, s) = time_ms K s;
     let s = set_net (g_net s\<lparr>n_dhcp_xid := ucast (t XOR 0xABCD1234), n_dhcp_state := DHCP_DISCOVER,
               n_ip := 0, n_netmask := 0, n_gateway := 0, n_dns := 0\<rparr>) s;
     let (_, s) = udp_bind DHCP_PORT_CLIENT s;
     (_, s) \<leftarrow> dhcp_send K MSG_DISCOVER 0 0 s;
     (_, s) \<leftarrow> say_discover K (n_dhcp_xid (g_net s)) s;
     Some ((), s)
   }"

text \<open>The scan of the options from index \<open>i\<close>.\<close>

function opt32_loop :: "u8 list \<Rightarrow> int \<Rightarrow> u8 \<Rightarrow> nat \<Rightarrow> u32 option" where
  "opt32_loop opts opts_len tag i =
     (if int i < opts_len then do {
        t \<leftarrow> ld8 opts i;
        if t = OPT_END then Some 0
        else if t = 0 then opt32_loop opts opts_len tag (i + 1)
        else if opts_len \<le> int (i + 1) then Some 0
        else do {
          l \<leftarrow> ld8 opts (i + 1);
          if t = tag \<and> 4 \<le> l then do { v \<leftarrow> ld32 opts (i + 2); Some (ntohl v) }
          else opt32_loop opts opts_len tag (i + 2 + unat l)
        }
      } else Some 0)"
  by pat_completeness auto
termination
  by (relation "measure (\<lambda>(opts, opts_len, tag, i). nat (opts_len - int i))") auto

definition dhcp_get_opt32 :: "u8 list \<Rightarrow> int \<Rightarrow> u8 \<Rightarrow> u32 option" where
  "dhcp_get_opt32 opts opts_len tag = opt32_loop opts opts_len tag 0"

function msg_type_loop :: "u8 list \<Rightarrow> int \<Rightarrow> nat \<Rightarrow> u8 option" where
  "msg_type_loop opts opts_len i =
     (if int i < opts_len then do {
        t \<leftarrow> ld8 opts i;
        if t = OPT_END then Some 0
        else if t = 0 then msg_type_loop opts opts_len (i + 1)
        else if opts_len \<le> int (i + 1) then Some 0
        else do {
          l \<leftarrow> ld8 opts (i + 1);
          if t = OPT_MSG_TYPE \<and> 1 \<le> l then ld8 opts (i + 2)
          else msg_type_loop opts opts_len (i + 2 + unat l)
        }
      } else Some 0)"
  by pat_completeness auto
termination
  by (relation "measure (\<lambda>(opts, opts_len, i). nat (opts_len - int i))") auto

definition dhcp_get_msg_type :: "u8 list \<Rightarrow> int \<Rightarrow> u8 option" where
  "dhcp_get_msg_type opts opts_len = msg_type_loop opts opts_len 0"

declare opt32_loop.simps [simp del] msg_type_loop.simps [simp del]

text \<open>What a message does, by its type and the options found in it: the second half of \<open>dhcp_rx\<close>.\<close>

definition dhcp_react ::
  "'w kernel \<Rightarrow> u32 \<Rightarrow> u8 \<Rightarrow> u32 \<Rightarrow> u32 \<Rightarrow> u32 \<Rightarrow> u32 \<Rightarrow> u32 \<Rightarrow> 'w machine \<Rightarrow> (unit \<times> 'w machine) option" where
  "dhcp_react K src_ip msg_type your_ip server_id subnet router dns s =
     (if msg_type = MSG_OFFER \<and> n_dhcp_state (g_net s) = DHCP_DISCOVER then do {
        let s = set_net (g_net s\<lparr>n_dhcp_server := (if server_id \<noteq> 0 then server_id else src_ip)\<rparr>) s;
        (_, s) \<leftarrow> say_offer K your_ip (n_dhcp_server (g_net s)) s;
        let s = set_net (g_net s\<lparr>n_dhcp_state := DHCP_REQUEST\<rparr>) s;
        (_, s) \<leftarrow> dhcp_send K MSG_REQUEST your_ip (n_dhcp_server (g_net s)) s;
        (_, s) \<leftarrow> say K ''[DHCP] REQUEST sent'' s;
        Some ((), s)
      }
      else if msg_type = MSG_ACK \<and> n_dhcp_state (g_net s) = DHCP_REQUEST then do {
        let s = set_net (g_net s\<lparr>n_ip := your_ip,
            n_netmask := (if subnet \<noteq> 0 then subnet else 0xFFFFFF00),
            n_gateway := (if router \<noteq> 0 then router else 0),
            n_dns := (if dns \<noteq> 0 then dns else 0),
            n_dhcp_state := DHCP_BOUND\<rparr>) s;
        (_, s) \<leftarrow> say_ack K (n_ip (g_net s)) (n_netmask (g_net s)) (n_gateway (g_net s)) (n_dns (g_net s)) s;
        arp_announce K s
      }
      else if msg_type = MSG_NAK then do {
        (_, s) \<leftarrow> say K ''[DHCP] NAK received, retrying'' s;
        Some ((), set_net (g_net s\<lparr>n_dhcp_state := DHCP_FAILED\<rparr>) s)
      }
      else Some ((), s))"

definition dhcp_rx ::
  "'w kernel \<Rightarrow> u32 \<Rightarrow> u8 list \<Rightarrow> int \<Rightarrow> 'w machine \<Rightarrow> (unit \<times> 'w machine) option" where
  "dhcp_rx K src_ip data len s =
     (if len < int DHCP_FIXED_LEN + 4 then Some ((), s)
      else do {
        oper \<leftarrow> ld8 data 0;
        if oper \<noteq> BOOT_REPLY then Some ((), s)
        else do {
          xid \<leftarrow> ld32 data 4;
          if ntohl xid \<noteq> n_dhcp_xid (g_net s) then Some ((), s)
          else do {
            magic \<leftarrow> ld32 data DHCP_FIXED_LEN;
            if ntohl magic \<noteq> DHCP_MAGIC then Some ((), s)
            else do {
              opts \<leftarrow> adv data (DHCP_FIXED_LEN + 4);
              let opts_len = len - int DHCP_FIXED_LEN - 4;
              msg_type \<leftarrow> dhcp_get_msg_type opts opts_len;
              your_ip \<leftarrow> ld32 data 16;
              let your_ip = ntohl your_ip;
              server_id \<leftarrow> dhcp_get_opt32 opts opts_len OPT_SERVER_ID;
              subnet \<leftarrow> dhcp_get_opt32 opts opts_len OPT_SUBNET;
              router \<leftarrow> dhcp_get_opt32 opts opts_len OPT_ROUTER;
              dns \<leftarrow> dhcp_get_opt32 opts opts_len OPT_DNS;
              dhcp_react K src_ip msg_type your_ip server_id subnet router dns s
            }
          }
        }
      })"

definition dhcp_bound :: "'w machine \<Rightarrow> bool" where
  "dhcp_bound s \<longleftrightarrow> n_dhcp_state (g_net s) = DHCP_BOUND"

section \<open>The messages\<close>

interpretation say_discover: message K "say_discover K xid"
    "bytes_of ''[DHCP] DISCOVER sent (xid=0x'' @ show_num False 16 (unat xid) @ bytes_of '')'' @ bytes_of newline"
    for K xid
  unfolding say_discover_def [abs_def]
  by (rule messageI [where ap = "[]" and ps = "lits ''[DHCP] DISCOVER sent (xid=0x'' @ Hex False Plain (unat xid) #
        lits '')'' @ lits newline"])
    (simp add: format_simps, simp_all add: message_simps plain_def unat_u32_less)

interpretation say_offer: message K "say_offer K your_ip server"
    "bytes_of ''[DHCP] OFFER: '' @ dotted_quad your_ip @ bytes_of '' from server '' @ dotted_quad server @
       bytes_of newline" for K your_ip server
  unfolding say_offer_def [abs_def]
  by (rule messageI [where ap = "[]" and ps = "lits ''[DHCP] OFFER: '' @ quad your_ip @ lits '' from server '' @ quad server @
        lits newline"])
    (simp add: format_simps, simp_all add: message_simps plain_def)

interpretation say_ack: message K "say_ack K ip netmask gateway dns"
    "bytes_of ''[DHCP] ACK: IP='' @ dotted_quad ip @ bytes_of '' mask='' @ dotted_quad netmask @ bytes_of '' gw='' @
       dotted_quad gateway @ bytes_of '' dns='' @ dotted_quad dns @ bytes_of newline" for K ip netmask gateway dns
  unfolding say_ack_def [abs_def]
  by (rule messageI [where ap = "[]" and ps = "lits ''[DHCP] ACK: IP='' @ quad ip @ lits '' mask='' @ quad netmask @
        lits '' gw='' @ quad gateway @ lits '' dns='' @ quad dns @ lits newline"])
    (simp add: format_simps, simp_all add: message_simps plain_def)

interpretation say_request: message K "say K ''[DHCP] REQUEST sent''" "bytes_of (''[DHCP] REQUEST sent'' @ newline)" for K
  by (rule message_say) (simp add: plain_def)

interpretation say_nak: message K "say K ''[DHCP] NAK received, retrying''"
    "bytes_of (''[DHCP] NAK received, retrying'' @ newline)" for K
  by (rule message_say) (simp add: plain_def)

section \<open>The packets sent\<close>

definition dhcp_options :: "u8 \<Rightarrow> u32 \<Rightarrow> u32 \<Rightarrow> u8 list" where
  "dhcp_options msg req_ip server_id =
     [OPT_MSG_TYPE, 1, msg] @
     (if msg = MSG_REQUEST \<and> req_ip \<noteq> 0 then [OPT_REQ_IP, 4] @ be32 req_ip else []) @
     (if msg = MSG_REQUEST \<and> server_id \<noteq> 0 then [OPT_SERVER_ID, 4] @ be32 server_id else []) @
     [OPT_END]"

definition dhcp_packet :: "u32 \<Rightarrow> u8 list \<Rightarrow> u8 list \<Rightarrow> u8 list" where
  "dhcp_packet xid mac opts =
     [BOOT_REQUEST, 1, 6, 0] @ be32 xid @ [0, 0] @ be16 0x8000 @ replicate 16 0 @
     mac @ replicate 202 0 @ be32 DHCP_MAGIC @ opts"

lemma dhcp_options_length: "4 \<le> length (dhcp_options msg r i)" "length (dhcp_options msg r i) \<le> 16"
  by (simp_all add: dhcp_options_def)

lemma dhcp_packet_length: "length mac = 6 \<Longrightarrow> length (dhcp_packet xid mac opts) = 240 + length opts"
  by (simp add: dhcp_packet_def)

text \<open>Writing an address option behind what is written.\<close>

lemma put_addr_opt_filled:
  assumes "opt = length pre" "6 \<le> n"
  shows "put_addr_opt tag a (filled pre (replicate n 0)) opt =
    Some (filled (pre @ [tag, 4] @ be32 a) (replicate (n - 6) 0), opt + 6)"
  using assms by (simp add: put_addr_opt_def st8_def st32_def wire_simps mem_simps)

lemma dhcp_send_eq:
  assumes mac: "length (n_mac (g_net s)) = 6"
  shows "dhcp_send K msg req_ip server_id s =
    (let pkt = dhcp_packet (n_dhcp_xid (g_net s)) (n_mac (g_net s)) (dhcp_options msg req_ip server_id)
     in udp_tx K IP_BCAST DHCP_PORT_CLIENT DHCP_PORT_SERVER pkt (of_nat (length pkt)) s)"
proof -
  let ?m = "n_mac (g_net s)"
  have e: "replicate 300 0 = filled [] (replicate 300 0)" by (simp add: filled_def)
  have mac': "rd ?m 0 6 = Some ?m" using mac by (simp add: rd_def)
  have z: "replicate 2 (0 :: u8) = [0, 0]" by (simp add: numeral_2_eq_2)
  have tail: "udp_tx K d a b (filled p r) n s = udp_tx K d a b p n s" if "unat n = length p"
    for d a b p r n
    using that by (simp add: udp_tx_def rd_def filled_def Let_def cong: if_cong)
  show ?thesis
    unfolding dhcp_send_def Let_def
    by (simp, subst e) (simp add: st8_def st16_def st32_def wire_simps mem_simps mac mac' z
        put_addr_opt_filled tail dhcp_packet_def dhcp_options_def)
qed

text \<open>The uncalled builder agrees with what is sent: it fills in the fixed part of the same packet.\<close>

lemma dhcp_build_base_eq:
  assumes "length (n_mac (g_net s)) = 6" "240 \<le> length pkt"
  shows "dhcp_build_base pkt xid s =
    Some (take 236 (dhcp_packet xid (n_mac (g_net s)) opts) @ drop 236 pkt)"
proof -
  let ?m = "n_mac (g_net s)"
  have mac: "rd ?m 0 6 = Some ?m" using assms by (simp add: rd_def)
  have z: "le16 0 = [0, 0]" "replicate 2 (0 :: u8) = [0, 0]" by (simp_all add: le16_def numeral_2_eq_2)
  have e: "wr 0 (replicate 236 0) pkt = Some (filled [] (replicate 236 0 @ drop 236 pkt))"
    using assms by (simp add: wr_def filled_def)
  have ld: "\<exists>v. ld32 (filled p r) 236 = Some v" if "240 \<le> length p + length r" for p r
    using that by (simp add: ld32_def rd_def)
  obtain v where v: "ld32 (filled (1 # 1 # 6 # 0 # be32 xid @ 0 # 0 # be16 32768 @ replicate 16 0 @ ?m)
      (replicate 202 0 @ drop 236 pkt)) 236 = Some v"
    using ld [of "1 # 1 # 6 # 0 # be32 xid @ 0 # 0 # be16 32768 @ replicate 16 0 @ ?m"
        "replicate 202 0 @ drop 236 pkt"] assms by auto
  show ?thesis
    unfolding dhcp_build_base_def
    by (simp add: e st8_def st16_def st32_def wire_simps mem_simps mac assms z v)
      (simp add: filled_def dhcp_packet_def assms)
qed

section \<open>Options\<close>

text \<open>
  An options field: pads and tagged values, up to an end mark. \<open>find_opt32\<close> and \<open>find_msg_type\<close> say
  what the client looks for: the first value with the tag that is long enough.
\<close>

datatype dhcp_opt = Pad | Opt u8 "u8 list"

primrec enc_opt :: "dhcp_opt \<Rightarrow> u8 list" where
  "enc_opt Pad = [0]"
| "enc_opt (Opt t v) = t # of_nat (length v) # v"

primrec opt_ok :: "dhcp_opt \<Rightarrow> bool" where
  "opt_ok Pad \<longleftrightarrow> True"
| "opt_ok (Opt t v) \<longleftrightarrow> t \<noteq> 0 \<and> t \<noteq> OPT_END \<and> length v < 256"

definition enc_opts :: "dhcp_opt list \<Rightarrow> u8 list" where
  "enc_opts opl = concat (map enc_opt opl)"

fun find_opt32 :: "u8 \<Rightarrow> dhcp_opt list \<Rightarrow> u32" where
  "find_opt32 tag [] = 0"
| "find_opt32 tag (Pad # opl) = find_opt32 tag opl"
| "find_opt32 tag (Opt t v # opl) =
     (if t = tag \<and> 4 \<le> length v then of_be32 (take 4 v) else find_opt32 tag opl)"

fun find_msg_type :: "dhcp_opt list \<Rightarrow> u8" where
  "find_msg_type [] = 0"
| "find_msg_type (Pad # opl) = find_msg_type opl"
| "find_msg_type (Opt t (b # v) # opl) = (if t = OPT_MSG_TYPE then b else find_msg_type opl)"
| "find_msg_type (Opt t [] # opl) = find_msg_type opl"

lemma length_byte:
  assumes "n < 256"
  shows "unat (of_nat n :: u8) = n"
  using assms by (simp add: unat_of_nat take_bit_nat_eq_self_iff)

lemma opt32_loop_options:
  "\<forall>x\<in>set opl. opt_ok x \<Longrightarrow> int (length (pre @ enc_opts opl)) < opts_len \<Longrightarrow>
   opt32_loop (pre @ enc_opts opl @ OPT_END # rest) opts_len tag (length pre) = Some (find_opt32 tag opl)"
proof (induction opl arbitrary: pre)
  case Nil
  then show ?case by (simp add: opt32_loop.simps [of _ _ _ "length pre"] enc_opts_def ld8_def)
next
  case (Cons x opl)
  show ?case
  proof (cases x)
    case Pad
    have "opt32_loop ((pre @ [0]) @ enc_opts opl @ OPT_END # rest) opts_len tag (length (pre @ [0])) =
        Some (find_opt32 tag opl)"
      using Cons Pad by (intro Cons.IH) (auto simp: enc_opts_def)
    with Pad Cons.prems show ?thesis
      by (simp add: opt32_loop.simps [of _ _ _ "length pre"] enc_opts_def ld8_def)
  next
    case (Opt t v)
    let ?l = "of_nat (length v) :: u8"
    have ok: "t \<noteq> 0" "t \<noteq> 255" "unat ?l = length v"
      using Cons.prems Opt length_byte by auto
    have "4 \<le> ?l \<longleftrightarrow> 4 \<le> length v" using ok(3) by (simp add: word_le_nat_alt)
    moreover have "opt32_loop ((pre @ t # ?l # v) @ enc_opts opl @ OPT_END # rest) opts_len tag
        (length (pre @ t # ?l # v)) = Some (find_opt32 tag opl)"
      using Cons Opt by (intro Cons.IH) (auto simp: enc_opts_def)
    moreover have "ld32 (pre @ t' # ?l # v @ r) (Suc (Suc (length pre))) = Some (of_le32 (take 4 v))"
      if "4 \<le> length v" for r t'
      using that by (simp add: ld32_def rd_def)
    ultimately show ?thesis
      using Cons.prems Opt ok
      by (simp add: opt32_loop.simps [of _ _ _ "length pre"] enc_opts_def ld8_def nth_append wire_simps)
  qed
qed

lemma dhcp_get_opt32_options:
  assumes "\<forall>x\<in>set opl. opt_ok x" "int (length (enc_opts opl)) < opts_len"
  shows "dhcp_get_opt32 (enc_opts opl @ OPT_END # rest) opts_len tag = Some (find_opt32 tag opl)"
  using opt32_loop_options [of opl "[]" opts_len rest tag] assms by (simp add: dhcp_get_opt32_def)

lemma msg_type_loop_options:
  "\<forall>x\<in>set opl. opt_ok x \<Longrightarrow> int (length (pre @ enc_opts opl)) < opts_len \<Longrightarrow>
   msg_type_loop (pre @ enc_opts opl @ OPT_END # rest) opts_len (length pre) = Some (find_msg_type opl)"
proof (induction opl arbitrary: pre)
  case Nil
  then show ?case by (simp add: msg_type_loop.simps [of _ _ "length pre"] enc_opts_def ld8_def)
next
  case (Cons x opl)
  show ?case
  proof (cases x)
    case Pad
    have "msg_type_loop ((pre @ [0]) @ enc_opts opl @ OPT_END # rest) opts_len (length (pre @ [0])) =
        Some (find_msg_type opl)"
      using Cons Pad by (intro Cons.IH) (auto simp: enc_opts_def)
    with Pad Cons.prems show ?thesis
      by (simp add: msg_type_loop.simps [of _ _ "length pre"] enc_opts_def ld8_def)
  next
    case (Opt t v)
    let ?l = "of_nat (length v) :: u8"
    have ok: "t \<noteq> 0" "t \<noteq> 255" "unat ?l = length v"
      using Cons.prems Opt length_byte by auto
    have "1 \<le> ?l \<longleftrightarrow> v \<noteq> []" using ok(3) by (cases v) (auto simp: word_le_nat_alt)
    moreover have "msg_type_loop ((pre @ t # ?l # v) @ enc_opts opl @ OPT_END # rest) opts_len
        (length (pre @ t # ?l # v)) = Some (find_msg_type opl)"
      using Cons Opt by (intro Cons.IH) (auto simp: enc_opts_def)
    ultimately show ?thesis
      using Cons.prems Opt ok
      by (cases v) (simp_all add: msg_type_loop.simps [of _ _ "length pre"] enc_opts_def ld8_def nth_append)
  qed
qed

lemma dhcp_get_msg_type_options:
  assumes "\<forall>x\<in>set opl. opt_ok x" "int (length (enc_opts opl)) < opts_len"
  shows "dhcp_get_msg_type (enc_opts opl @ OPT_END # rest) opts_len = Some (find_msg_type opl)"
  using msg_type_loop_options [of opl "[]" opts_len rest] assms by (simp add: dhcp_get_msg_type_def)

text \<open>
  On any bytes whatever, the scans stay within 4 bytes (1 byte) behind the options field: an option
  cut off by the end of the field is still read.
\<close>

lemma opt32_loop_in_bounds:
  "opts_len + 4 \<le> int (length opts) \<Longrightarrow> \<exists>v. opt32_loop opts opts_len tag i = Some v"
proof (induction opts opts_len tag i rule: opt32_loop.induct)
  case (1 opts opts_len tag i)
  show ?case
  proof (cases "int (i + 1) < opts_len")
    case False
    with 1 show ?thesis
      by (subst opt32_loop.simps) (auto simp: ld8_def opt32_loop.simps [of _ _ _ "i + 1"]
          opt32_loop.simps [of _ _ _ "Suc i"])
  next
    case True
    with "1.prems" obtain t l v where t: "ld8 opts i = Some t" and l: "ld8 opts (i + 1) = Some l"
      and v: "ld32 opts (i + 2) = Some v"
      by (auto simp: ld8_def ld32_def rd_def)
    with True 1(1) [OF _ t] 1(2) [OF _ t _ _ _ l] "1.prems" show ?thesis
      by (subst opt32_loop.simps) auto
  qed
qed

lemma msg_type_loop_in_bounds:
  "opts_len + 1 \<le> int (length opts) \<Longrightarrow> \<exists>v. msg_type_loop opts opts_len i = Some v"
proof (induction opts opts_len i rule: msg_type_loop.induct)
  case (1 opts opts_len i)
  show ?case
  proof (cases "int (i + 1) < opts_len")
    case False
    with 1 show ?thesis
      by (subst msg_type_loop.simps) (auto simp: ld8_def msg_type_loop.simps [of _ _ "i + 1"]
          msg_type_loop.simps [of _ _ "Suc i"])
  next
    case True
    with "1.prems" obtain t l v where t: "ld8 opts i = Some t" and l: "ld8 opts (i + 1) = Some l"
      and v: "ld8 opts (i + 2) = Some v"
      by (auto simp: ld8_def)
    with True 1(1) [OF _ t] 1(2) [OF _ t _ _ _ l] "1.prems" show ?thesis
      by (subst msg_type_loop.simps) auto
  qed
qed

lemma dhcp_get_opt32_in_bounds:
  "opts_len + 4 \<le> int (length opts) \<Longrightarrow> \<exists>v. dhcp_get_opt32 opts opts_len tag = Some v"
  unfolding dhcp_get_opt32_def by (rule opt32_loop_in_bounds)

lemma dhcp_get_msg_type_in_bounds:
  "opts_len + 1 \<le> int (length opts) \<Longrightarrow> \<exists>v. dhcp_get_msg_type opts opts_len = Some v"
  unfolding dhcp_get_msg_type_def by (rule msg_type_loop_in_bounds)

section \<open>Messages received\<close>

text \<open>A well-formed server message in the first \<open>len\<close> bytes of \<open>data\<close>.\<close>

definition dhcp_msg :: "u8 list \<Rightarrow> int \<Rightarrow> u32 \<Rightarrow> u32 \<Rightarrow> dhcp_opt list \<Rightarrow> bool" where
  "dhcp_msg data len xid your_ip opl \<longleftrightarrow>
     240 \<le> len \<and> nat len \<le> length data \<and> data ! 0 = BOOT_REPLY \<and>
     take 4 (drop 4 data) = be32 xid \<and> take 4 (drop 16 data) = be32 your_ip \<and>
     take 4 (drop 236 data) = be32 DHCP_MAGIC \<and>
     (\<forall>x\<in>set opl. opt_ok x) \<and> int (length (enc_opts opl)) < len - 240 \<and>
     take (length (enc_opts opl) + 1) (drop 240 data) = enc_opts opl @ [OPT_END]"

text \<open>A message for the client is one to react to, with the first options of its tags.\<close>

lemma dhcp_rx_eq:
  assumes msg: "dhcp_msg data len xid your_ip opl"
  shows "dhcp_rx K src_ip data len s =
    (if xid = n_dhcp_xid (g_net s) then dhcp_react K src_ip (find_msg_type opl) your_ip
       (find_opt32 OPT_SERVER_ID opl) (find_opt32 OPT_SUBNET opl) (find_opt32 OPT_ROUTER opl) (find_opt32 OPT_DNS opl) s
     else Some ((), s))"
proof -
  define n where "n = length (enc_opts opl)"
  have len: "\<not> len < 240" "240 \<le> length data" using msg by (auto simp: dhcp_msg_def)
  have n: "n + 1 \<le> length (drop 240 data)" using msg by (auto simp: dhcp_msg_def n_def)
  have "drop 240 data = take (n + 1) (drop 240 data) @ drop (n + 1) (drop 240 data)"
    by (simp only: append_take_drop_id)
  moreover have "take (n + 1) (drop 240 data) = enc_opts opl @ [OPT_END]"
    using msg by (simp only: dhcp_msg_def n_def)
  ultimately obtain rest where rest: "drop 240 data = enc_opts opl @ OPT_END # rest"
    by (metis append.assoc append_Cons append_Nil)
  have ok: "\<forall>x\<in>set opl. opt_ok x" "int (length (enc_opts opl)) < len - 236 - 4"
    using msg by (auto simp: dhcp_msg_def)
  have loads: "ld8 data 0 = Some 2" "ld32 data 4 = Some (of_le32 (be32 xid))"
    "ld32 data 16 = Some (of_le32 (be32 your_ip))" "ld32 data 236 = Some (of_le32 (be32 0x63825363))"
    "adv data 240 = Some (enc_opts opl @ OPT_END # rest)"
    using msg len by (auto simp: ld8_def ld32_def rd_def dhcp_msg_def adv_def rest)
  show ?thesis
    unfolding dhcp_rx_def
    using loads dhcp_get_opt32_options [OF ok, of rest] dhcp_get_msg_type_options [OF ok, of rest]
    by (simp add: len wire_simps Let_def)
qed

section \<open>The state machine\<close>

text \<open>
  The steps a received message can make. There is no way out of \<open>DHCP_FAILED\<close> and no retransmission:
  only \<open>dhcp_start\<close> leads back to \<open>DHCP_DISCOVER\<close>.
\<close>

inductive dhcp_step :: "dhcp_state_t \<Rightarrow> dhcp_state_t \<Rightarrow> bool" where
  ignore: "dhcp_step d d"
| offer: "dhcp_step DHCP_DISCOVER DHCP_REQUEST"
| ack: "dhcp_step DHCP_REQUEST DHCP_BOUND"
| nak: "dhcp_step d DHCP_FAILED"

code_pred dhcp_step .

inductive_cases dhcp_step_bound: "dhcp_step d DHCP_BOUND"
inductive_cases dhcp_step_request: "dhcp_step d DHCP_REQUEST"
inductive_simps dhcp_step_failed: "dhcp_step DHCP_FAILED d"

text \<open>The steps go forward in the order of the enumeration.\<close>

lemma dhcp_step_forward: "dhcp_step d d' \<Longrightarrow> d \<le> d'"
proof (induction rule: dhcp_step.induct)
  case (nak d)
  then show ?case by (cases d) (simp_all add: less_eq_dhcp_state_t_def)
qed (simp_all add: less_eq_dhcp_state_t_def)

lemma dhcp_steps_forward: "dhcp_step\<^sup>*\<^sup>* d d' \<Longrightarrow> d \<le> d'"
  by (induction rule: rtranclp_induct) (auto dest: dhcp_step_forward)

lemma dhcp_send_only:
  assumes wf: "link_wf (g_net s)" and run: "dhcp_send K msg r i s = Some (st, s')"
  shows "tx_only s s'"
  using run wf by (auto simp: dhcp_send_eq link_wf_def Let_def intro: udp_tx_only)

lemma dhcp_send_returns:
  assumes live: "live K \<mu>" and wf: "link_wf (g_net s)"
  obtains st s' where "dhcp_send K msg r i s = Some (st, s')" "tx_only s s'"
proof -
  let ?p = "dhcp_packet (n_dhcp_xid (g_net s)) (n_mac (g_net s)) (dhcp_options msg r i)"
  have mac: "length (n_mac (g_net s)) = 6" using wf by (simp add: link_wf_def)
  then have l: "length ?p \<le> 256" using dhcp_packet_length dhcp_options_length by simp
  then have u: "unat (of_nat (length ?p) :: u16) = length ?p"
    by (simp add: unat_of_nat take_bit_nat_eq_self_iff)
  have "unat (of_nat (length ?p) :: u16) \<le> length ?p" "unat (of_nat (length ?p) :: u16) \<le> 1458"
    unfolding u using l by simp_all
  then obtain st s' where "udp_tx K IP_BCAST DHCP_PORT_CLIENT DHCP_PORT_SERVER ?p (of_nat (length ?p)) s
      = Some (st, s')" "tx_only s s'"
    by (rule udp_tx_returns [OF live wf])
  then show ?thesis using that dhcp_send_eq [OF mac, of K msg r i] by (simp add: Let_def)
qed

text \<open>
  Every reaction: either nothing changes, or the state of the machine changes, and the server and the addresses
  with it.
\<close>

lemma dhcp_react_cases:
  assumes wf: "link_wf (g_net s)" and run: "dhcp_react K src_ip msg your_ip sid subnet router dns s = Some ((), s')"
  obtains (ignored) "s' = s"
  | (offered) c where "msg = MSG_OFFER" "n_dhcp_state (g_net s) = DHCP_DISCOVER" "arp_wf c"
      "g_net s' = g_net s\<lparr>n_arp_cache := c, n_dhcp_server := (if sid \<noteq> 0 then sid else src_ip),
         n_dhcp_state := DHCP_REQUEST\<rparr>"
  | (acked) "msg = MSG_ACK" "n_dhcp_state (g_net s) = DHCP_REQUEST"
      "g_net s' = g_net s\<lparr>n_ip := your_ip, n_netmask := (if subnet \<noteq> 0 then subnet else 0xFFFFFF00),
         n_gateway := router, n_dns := dns, n_dhcp_state := DHCP_BOUND\<rparr>"
  | (refused) "msg = MSG_NAK" "g_net s' = g_net s\<lparr>n_dhcp_state := DHCP_FAILED\<rparr>" "g_ip_id s' = g_ip_id s"
proof -
  consider "msg = MSG_OFFER" "n_dhcp_state (g_net s) = DHCP_DISCOVER"
    | "msg = MSG_ACK" "n_dhcp_state (g_net s) = DHCP_REQUEST" | "msg = MSG_NAK"
    | "s' = s" using run unfolding dhcp_react_def by (auto split: if_splits)
  then show thesis
  proof cases
    case 1
    let ?sv = "if sid \<noteq> 0 then sid else src_ip"
    let ?s1 = "set_net (g_net s\<lparr>n_dhcp_server := ?sv\<rparr>) s"
    let ?q = "\<lambda>s. set_net (g_net s\<lparr>n_dhcp_state := DHCP_REQUEST\<rparr>) s"
    from run 1 obtain b c st t u where say: "say_offer K your_ip (n_dhcp_server (g_net ?s1)) ?s1 = Some (b, t)"
        "say K ''[DHCP] REQUEST sent'' u = Some (c, s')"
      and send: "dhcp_send K MSG_REQUEST your_ip (n_dhcp_server (g_net (?q t))) (?q t) = Some (st, u)"
      unfolding dhcp_react_def Let_def by (auto elim!: run_bind_pairE)
    have t: "g_net t = g_net ?s1" using say(1) by (rule say_offer.keeps_net)
    then have wf1: "link_wf (g_net (?q t))" using wf by (simp add: set_net_def link_wf_def)
    then have "arp_wf (n_arp_cache (g_net (?q t)))" by (simp add: link_wf_def)
    then obtain e where "g_net u = g_net (?q t)\<lparr>n_arp_cache := e\<rparr>" "arp_wf e"
      using dhcp_send_only [OF wf1 send] by (metis tx_onlyE)
    with 1 t say_request.keeps_net [OF say(2)] show ?thesis
      by (intro offered [of e]) (auto simp: set_net_def)
  next
    case 2
    let ?m = "if subnet \<noteq> 0 then subnet else 0xFFFFFF00"
    let ?s1 = "set_net (g_net s\<lparr>n_ip := your_ip, n_netmask := ?m, n_gateway := router, n_dns := dns,
      n_dhcp_state := DHCP_BOUND\<rparr>) s"
    have z: "(if x \<noteq> 0 then x else 0) = x" for x :: u32 by simp
    from run 2 obtain b t where say: "say_ack K (n_ip (g_net ?s1)) (n_netmask (g_net ?s1)) (n_gateway (g_net ?s1))
        (n_dns (g_net ?s1)) ?s1 = Some (b, t)" and ann: "arp_announce K t = Some ((), s')"
      unfolding dhcp_react_def Let_def z by (auto elim!: run_bind_pairE)
    have "same_statics t s'" using ann unfolding arp_announce_def by (rule arp_send_statics)
    with 2 say_ack.keeps_net [OF say] show ?thesis
      by (intro acked) (auto simp: same_statics_def set_net_def)
  next
    case 3
    with run obtain c t where "say K ''[DHCP] NAK received, retrying'' s = Some (c, t)"
      "s' = set_net (g_net t\<lparr>n_dhcp_state := DHCP_FAILED\<rparr>) t"
      unfolding dhcp_react_def by (auto elim!: run_bind_pairE)
    with 3 say_nak.statics [of K s c t] show ?thesis by (intro refused) (auto simp: set_net_def same_statics_def)
  qed (rule ignored)
qed

text \<open>
  The messages that may move the machine: \<open>dhcp_reply data len xid msg\<close> says that the first \<open>len\<close> bytes of
  \<open>data\<close> are a reply of a server to the transaction \<open>xid\<close>, with the cookie and the message type \<open>msg\<close>.
  \<open>dhcp_yiaddr\<close> is the address it gives.
\<close>

definition dhcp_reply :: "u8 list \<Rightarrow> int \<Rightarrow> u32 \<Rightarrow> u8 \<Rightarrow> bool" where
  "dhcp_reply data len xid msg \<longleftrightarrow>
     240 \<le> len \<and> 240 \<le> length data \<and> data ! 0 = BOOT_REPLY \<and> of_be32 (take 4 (drop 4 data)) = xid \<and>
     of_be32 (take 4 (drop 236 data)) = DHCP_MAGIC \<and> dhcp_get_msg_type (drop 240 data) (len - 240) = Some msg"

definition dhcp_yiaddr :: "u8 list \<Rightarrow> u32" where
  "dhcp_yiaddr data = of_be32 (take 4 (drop 16 data))"

lemma dhcp_rx_reacts:
  assumes run: "dhcp_rx K src_ip data len s = Some ((), s')"
  obtains (ignored) "s' = s"
  | (reacted) msg sid subnet router dns where "dhcp_reply data len (n_dhcp_xid (g_net s)) msg"
      "dhcp_react K src_ip msg (dhcp_yiaddr data) sid subnet router dns s = Some ((), s')"
proof -
  have ld: "ld32 data k = Some v \<Longrightarrow> v = of_le32 (take 4 (drop k data))" for k v
    by (auto simp: ld32_def rd_def split: if_splits)
  from run consider "s' = s"
    | b xid magic opts your_ip msg sid subnet router dns where "\<not> len < int DHCP_FIXED_LEN + 4"
      "ld8 data 0 = Some b" "\<not> b \<noteq> BOOT_REPLY" "ld32 data 4 = Some xid" "\<not> ntohl xid \<noteq> n_dhcp_xid (g_net s)"
      "ld32 data DHCP_FIXED_LEN = Some magic" "\<not> ntohl magic \<noteq> DHCP_MAGIC"
      "adv data (DHCP_FIXED_LEN + 4) = Some opts"
      "dhcp_get_msg_type opts (len - int DHCP_FIXED_LEN - 4) = Some msg" "ld32 data 16 = Some your_ip"
      "dhcp_react K src_ip msg (ntohl your_ip) sid subnet router dns s = Some ((), s')"
    unfolding dhcp_rx_def Let_def by (elim run_ifE run_bindE run_Some_unitE) blast+
  then show thesis
  proof cases
    case 1
    then show ?thesis by (rule ignored)
  next
    case 2
    have "opts = drop 240 data" "240 \<le> length data" "b = data ! 0"
      using 2(2,8) by (auto simp: adv_def ld8_def split: if_splits)
    with 2 ld [OF 2(4)] ld [OF 2(6)] have "dhcp_reply data len (n_dhcp_xid (g_net s)) msg"
      by (simp add: dhcp_reply_def wire_simps)
    moreover have "ntohl your_ip = dhcp_yiaddr data" using ld [OF 2(10)] by (simp add: dhcp_yiaddr_def wire_simps)
    ultimately show ?thesis using 2(11) by (intro reacted) simp_all
  qed
qed

text \<open>Every run of \<open>dhcp_rx\<close>, on any bytes: what changes, and the message it takes.\<close>

lemma dhcp_rx_cases:
  assumes wf: "link_wf (g_net s)" and run: "dhcp_rx K src_ip data len s = Some ((), s')"
  obtains (ignored) "s' = s"
  | (offered) c server where "dhcp_reply data len (n_dhcp_xid (g_net s)) MSG_OFFER"
      "n_dhcp_state (g_net s) = DHCP_DISCOVER" "arp_wf c"
      "g_net s' = g_net s\<lparr>n_arp_cache := c, n_dhcp_server := server, n_dhcp_state := DHCP_REQUEST\<rparr>"
  | (acked) netmask gw dns where "dhcp_reply data len (n_dhcp_xid (g_net s)) MSG_ACK"
      "n_dhcp_state (g_net s) = DHCP_REQUEST" "netmask \<noteq> 0"
      "g_net s' = g_net s\<lparr>n_ip := dhcp_yiaddr data, n_netmask := netmask,
         n_gateway := gw, n_dns := dns, n_dhcp_state := DHCP_BOUND\<rparr>"
  | (refused) "dhcp_reply data len (n_dhcp_xid (g_net s)) MSG_NAK"
      "g_net s' = g_net s\<lparr>n_dhcp_state := DHCP_FAILED\<rparr>" "g_ip_id s' = g_ip_id s"
  using run
proof (cases rule: dhcp_rx_reacts)
  case (reacted msg sid subnet router dns)
  note reply = reacted(1)
  show thesis
    using wf reacted(2)
  proof (cases rule: dhcp_react_cases)
    case (offered c)
    with reply show ?thesis by (intro that(2)) simp_all
  next
    case acked
    then show ?thesis
      using reply by (intro that(3) [where netmask = "if subnet \<noteq> 0 then subnet else 0xFFFFFF00"]) auto
  next
    case refused
    with reply show ?thesis by (intro that(4)) simp_all
  qed (rule that(1))
qed (rule that(1))

text \<open>
  Nothing moves the machine, or the address of the host, but a reply of the right type to its transaction.
\<close>

lemma dhcp_rx_authentic:
  assumes "link_wf (g_net s)" "dhcp_rx K src_ip data len s = Some ((), s')"
  shows "s' = s \<or> n_ip (g_net s') = n_ip (g_net s) \<and>
      (dhcp_reply data len (n_dhcp_xid (g_net s)) MSG_OFFER \<and>
         n_dhcp_state (g_net s) = DHCP_DISCOVER \<and> n_dhcp_state (g_net s') = DHCP_REQUEST \<or>
       dhcp_reply data len (n_dhcp_xid (g_net s)) MSG_NAK \<and> n_dhcp_state (g_net s') = DHCP_FAILED) \<or>
    n_ip (g_net s') = dhcp_yiaddr data \<and> dhcp_reply data len (n_dhcp_xid (g_net s)) MSG_ACK \<and>
      n_dhcp_state (g_net s) = DHCP_REQUEST \<and> n_dhcp_state (g_net s') = DHCP_BOUND"
  using assms by (rule dhcp_rx_cases) auto

lemma dhcp_rx_step:
  assumes wf: "link_wf (g_net s)" and run: "dhcp_rx K src_ip data len s = Some ((), s')"
  shows "dhcp_step (n_dhcp_state (g_net s)) (n_dhcp_state (g_net s'))"
  using wf run by (rule dhcp_rx_cases) (auto intro: dhcp_step.intros)

lemma dhcp_rx_link_wf:
  assumes wf: "link_wf (g_net s)" and run: "dhcp_rx K src_ip data len s = Some ((), s')"
  shows "link_wf (g_net s')" "n_udp_binds (g_net s') = n_udp_binds (g_net s)"
    "n_dns_done (g_net s') = n_dns_done (g_net s)"
  using wf run by (rule dhcp_rx_cases; use wf in \<open>simp add: link_wf_def\<close>)+

lemma arp_announce_returns:
  assumes live: "live K \<mu>" and wf: "link_wf (g_net s)"
  obtains s' where "arp_announce K s = Some ((), s')" "same_statics s s'"
proof -
  have mac: "length (n_mac (g_net s)) = 6" using wf by (simp add: link_wf_def)
  show ?thesis
    by (rule arp_send_returns [OF live mac, of bcast ARP_OP_REQUEST "n_ip (g_net s)" "n_ip (g_net s)"])
      (auto simp: bcast_def arp_announce_def intro: that)
qed

lemma dhcp_react_returns:
  assumes live: "live K \<mu>" and wf: "link_wf (g_net s)"
  obtains s' where "dhcp_react K src_ip msg your_ip sid subnet router dns s = Some ((), s')"
proof -
  let ?s1 = "set_net (g_net s\<lparr>n_dhcp_server := (if sid \<noteq> 0 then sid else src_ip)\<rparr>) s"
  let ?q = "\<lambda>s. set_net (g_net s\<lparr>n_dhcp_state := DHCP_REQUEST\<rparr>) s"
  let ?s2 = "set_net (g_net s\<lparr>n_ip := your_ip, n_netmask := (if subnet \<noteq> 0 then subnet else 0xFFFFFF00),
    n_gateway := (if router \<noteq> 0 then router else 0), n_dns := (if dns \<noteq> 0 then dns else 0),
    n_dhcp_state := DHCP_BOUND\<rparr>) s"
  obtain t where t: "say_offer K your_ip (n_dhcp_server (g_net ?s1)) ?s1 = Some (0, t)" "same_statics ?s1 t"
    by (rule say_offer.speaks)
  have "link_wf (g_net (?q t))" using wf t(2) by (simp add: link_wf_def set_net_def same_statics_def)
  then obtain st u where u: "dhcp_send K MSG_REQUEST your_ip (n_dhcp_server (g_net (?q t))) (?q t) = Some (st, u)"
    by (rule dhcp_send_returns [OF live])
  obtain v where v: "say K ''[DHCP] REQUEST sent'' u = Some (0, v)" by (rule say_request.speaks)
  obtain a where a: "say_ack K (n_ip (g_net ?s2)) (n_netmask (g_net ?s2)) (n_gateway (g_net ?s2))
      (n_dns (g_net ?s2)) ?s2 = Some (0, a)" "same_statics ?s2 a" by (rule say_ack.speaks)
  have "link_wf (g_net a)" using wf a(2) by (simp add: link_wf_def set_net_def same_statics_def)
  then obtain b where b: "arp_announce K a = Some ((), b)" by (rule arp_announce_returns [OF live])
  obtain c where c: "say K ''[DHCP] NAK received, retrying'' s = Some (0, c)" by (rule say_nak.speaks)
  have "\<exists>s'. dhcp_react K src_ip msg your_ip sid subnet router dns s = Some ((), s')"
    using t(1) u v a(1) b c by (simp add: dhcp_react_def Let_def del: if_split)
  then show ?thesis using that by blast
qed

text \<open>A message with four readable bytes behind it is handled, whatever its bytes.\<close>

lemma dhcp_rx_returns:
  assumes live: "live K \<mu>" and wf: "link_wf (g_net s)" and len: "len + 4 \<le> int (length data)"
  obtains s' where "dhcp_rx K src_ip data len s = Some ((), s')"
proof (cases "len < 240")
  case True
  then show ?thesis by (intro that [of s]) (simp add: dhcp_rx_def)
next
  case False
  let ?opts = "drop 240 data" and ?n = "len - 240"
  have n: "?n + 4 \<le> int (length ?opts)" "?n + 1 \<le> int (length ?opts)" using len False by auto
  have "data \<noteq> []" using len False by auto
  with len False obtain b xid magic your_ip where loads: "ld8 data 0 = Some b" "ld32 data 4 = Some xid"
    "ld32 data 236 = Some magic" "ld32 data 16 = Some your_ip" "adv data 240 = Some ?opts"
    by (auto simp: ld8_def ld32_def rd_def adv_def)
  obtain mt where mt: "dhcp_get_msg_type ?opts ?n = Some mt"
    using dhcp_get_msg_type_in_bounds [OF n(2)] by auto
  obtain sid mask gw dns where opts: "dhcp_get_opt32 ?opts ?n 54 = Some sid"
    "dhcp_get_opt32 ?opts ?n 1 = Some mask" "dhcp_get_opt32 ?opts ?n 3 = Some gw"
    "dhcp_get_opt32 ?opts ?n 6 = Some dns"
    using dhcp_get_opt32_in_bounds [OF n(1), of 54] dhcp_get_opt32_in_bounds [OF n(1), of 1]
      dhcp_get_opt32_in_bounds [OF n(1), of 3] dhcp_get_opt32_in_bounds [OF n(1), of 6] by auto
  obtain s' where "dhcp_react K src_ip mt (ntohl your_ip) sid mask gw dns s = Some ((), s')"
    by (rule dhcp_react_returns [OF live wf])
  then have "\<exists>s'. dhcp_rx K src_ip data len s = Some ((), s')"
    using False by (simp add: dhcp_rx_def loads mt opts Let_def)
  then show ?thesis using that by blast
qed

text \<open>
  The handshake. A client that discovers and receives an offer for its transaction asks for the
  offered address at the offering server; the acknowledgement binds it to the acknowledged address,
  with the mask, router and name server of the options, and is announced.
\<close>

lemma dhcp_offer_asks:
  assumes live: "live K \<mu>" and wf: "link_wf (g_net s)"
    and s: "n_dhcp_state (g_net s) = DHCP_DISCOVER"
    and offer: "dhcp_msg d l (n_dhcp_xid (g_net s)) yi opl" "find_msg_type opl = MSG_OFFER"
      "find_opt32 OPT_SERVER_ID opl = server" "server \<noteq> 0"
    and pkt: "pkt = dhcp_packet (n_dhcp_xid (g_net s)) (n_mac (g_net s)) (dhcp_options MSG_REQUEST yi server)"
  obtains t st u s1 where
    "say_offer K yi server (set_net (g_net s\<lparr>n_dhcp_server := server\<rparr>) s) = Some (0, t)"
    "udp_tx K IP_BCAST DHCP_PORT_CLIENT DHCP_PORT_SERVER pkt (of_nat (length pkt))
      (set_net (g_net t\<lparr>n_dhcp_state := DHCP_REQUEST\<rparr>) t) = Some (st, u)"
    "say K ''[DHCP] REQUEST sent'' u = Some (0, s1)"
    "dhcp_rx K src d l s = Some ((), s1)"
    "n_dhcp_state (g_net s1) = DHCP_REQUEST" "n_dhcp_xid (g_net s1) = n_dhcp_xid (g_net s)" "link_wf (g_net s1)"
proof -
  let ?s0 = "set_net (g_net s\<lparr>n_dhcp_server := server\<rparr>) s"
  obtain t where t: "say_offer K yi server ?s0 = Some (0, t)" "same_statics ?s0 t" by (rule say_offer.speaks)
  let ?t = "set_net (g_net t\<lparr>n_dhcp_state := DHCP_REQUEST\<rparr>) t"
  have wft: "link_wf (g_net ?t)" using wf t(2) by (simp add: link_wf_def set_net_def same_statics_def)
  obtain st u where send: "dhcp_send K MSG_REQUEST yi server ?t = Some (st, u)" "tx_only ?t u"
    by (rule dhcp_send_returns [OF live wft])
  have "length (n_mac (g_net ?t)) = 6" using wft by (simp add: link_wf_def)
  from dhcp_send_eq [OF this, of K MSG_REQUEST yi server] send(1)
  have tx: "udp_tx K IP_BCAST DHCP_PORT_CLIENT DHCP_PORT_SERVER pkt (of_nat (length pkt)) ?t = Some (st, u)"
    using t(2) unfolding pkt Let_def by (simp add: set_net_def same_statics_def)
  obtain s1 where say1: "say K ''[DHCP] REQUEST sent'' u = Some (0, s1)" "same_statics u s1"
    by (rule say_request.speaks)
  have sv: "n_dhcp_server (g_net ?s0) = server" "n_dhcp_server (g_net ?t) = server"
    using t(2) by (simp_all add: set_net_def same_statics_def)
  have r1: "dhcp_rx K src d l s = Some ((), s1)"
    using offer s t(1) send(1) say1(1) sv by (simp add: dhcp_rx_eq [OF offer(1)] dhcp_react_def Let_def)
  have "n_dhcp_state (g_net s1) = DHCP_REQUEST" "n_dhcp_xid (g_net s1) = n_dhcp_xid (g_net s)" "link_wf (g_net s1)"
    using send(2) tx_only_link_wf [OF send(2) wft] s t(2) say1(2)
    by (auto simp: set_net_def same_statics_def elim!: tx_onlyE)
  with t(1) tx say1(1) r1 that show ?thesis by blast
qed

lemma dhcp_ack_binds:
  assumes live: "live K \<mu>" and wf: "link_wf (g_net s)"
    and s: "n_dhcp_state (g_net s) = DHCP_REQUEST"
    and ack: "dhcp_msg d l (n_dhcp_xid (g_net s)) yi opl" "find_msg_type opl = MSG_ACK"
      "find_opt32 OPT_SUBNET opl = nm" "nm \<noteq> 0"
  obtains s' where "dhcp_rx K src d l s = Some ((), s')"
    "g_net s' = g_net s\<lparr>n_ip := yi, n_netmask := nm, n_gateway := find_opt32 OPT_ROUTER opl,
       n_dns := find_opt32 OPT_DNS opl, n_dhcp_state := DHCP_BOUND\<rparr>"
proof -
  let ?s2 = "set_net (g_net s\<lparr>n_ip := yi, n_netmask := nm, n_gateway := find_opt32 OPT_ROUTER opl,
    n_dns := find_opt32 OPT_DNS opl, n_dhcp_state := DHCP_BOUND\<rparr>) s"
  obtain v where v: "say_ack K yi nm (find_opt32 OPT_ROUTER opl) (find_opt32 OPT_DNS opl) ?s2 = Some (0, v)"
    "same_statics ?s2 v" by (rule say_ack.speaks)
  have "link_wf (g_net v)" using wf v(2) by (simp add: link_wf_def set_net_def same_statics_def)
  then obtain s' where ann: "arp_announce K v = Some ((), s')" "same_statics v s'"
    by (rule arp_announce_returns [OF live])
  have z: "(if x \<noteq> 0 then x else 0) = x" for x :: u32 by simp
  have "dhcp_rx K src d l s = Some ((), s')"
    using ack s v(1) ann(1) by (simp add: dhcp_rx_eq [OF ack(1)] dhcp_react_def Let_def z set_net_def)
  moreover have "g_net s' = g_net ?s2" using ann(2) v(2) by (simp add: same_statics_def)
  ultimately show ?thesis using that by (simp add: set_net_def)
qed

section \<open>Starting\<close>

lemma dhcp_start_post:
  assumes wf: "link_wf (g_net s)" "binds_wf (n_udp_binds (g_net s))" and run: "dhcp_start K s = Some ((), s')"
  shows "link_wf (g_net s') \<and> binds_wf (n_udp_binds (g_net s')) \<and>
    n_dhcp_state (g_net s') = DHCP_DISCOVER \<and> n_ip (g_net s') = 0 \<and> n_netmask (g_net s') = 0 \<and>
    n_gateway (g_net s') = 0 \<and> n_dns (g_net s') = 0 \<and>
    n_fd (g_net s') = n_fd (g_net s) \<and> n_mac (g_net s') = n_mac (g_net s)"
proof -
  obtain t s1 where t: "time_ms K s = (t, s1)" by fastforce
  let ?s2 = "set_net (g_net s1\<lparr>n_dhcp_xid := ucast (t XOR 0xABCD1234), n_dhcp_state := DHCP_DISCOVER,
               n_ip := 0, n_netmask := 0, n_gateway := 0, n_dns := 0\<rparr>) s1"
  let ?s3 = "snd (udp_bind DHCP_PORT_CLIENT ?s2)"
  obtain st u where send: "dhcp_send K MSG_DISCOVER 0 0 ?s3 = Some (st, u)" and u: "same_statics u s'"
    using run t
    by (auto simp: dhcp_start_def Let_def elim!: run_elims split: prod.splits dest: say_discover.statics)
  have n3: "g_net ?s3 = g_net ?s2\<lparr>n_udp_binds := snd (binds_bind DHCP_PORT_CLIENT (n_udp_binds (g_net s)))\<rparr>"
    using time_ms_net [OF t] by (simp add: udp_bind_def Let_def set_binds_def set_net_def split: prod.split)
  have wf3: "link_wf (g_net ?s3)" "binds_wf (n_udp_binds (g_net ?s3))"
    using wf ports.bind_inv time_ms_net [OF t] unfolding n3 by (simp_all add: link_wf_def set_net_def)
  note only = dhcp_send_only [OF wf3(1) send]
  have "n_dhcp_state (g_net ?s3) = DHCP_DISCOVER" "n_ip (g_net ?s3) = 0" "n_netmask (g_net ?s3) = 0"
    "n_gateway (g_net ?s3) = 0" "n_dns (g_net ?s3) = 0"
    "n_fd (g_net ?s3) = n_fd (g_net s)" "n_mac (g_net ?s3) = n_mac (g_net s)"
    unfolding n3 using time_ms_net [OF t] by (simp_all add: set_net_def)
  with tx_only_link_wf [OF only wf3(1)] wf3(2) only u show ?thesis by (auto elim!: tx_onlyE simp: same_statics_def)
qed

lemma dhcp_start_returns:
  assumes live: "live K \<mu>" and wf: "link_wf (g_net s)"
  obtains s' where "dhcp_start K s = Some ((), s')"
proof -
  obtain t s1 where t: "time_ms K s = (t, s1)" by fastforce
  let ?s2 = "set_net (g_net s1\<lparr>n_dhcp_xid := ucast (t XOR 0xABCD1234), n_dhcp_state := DHCP_DISCOVER,
               n_ip := 0, n_netmask := 0, n_gateway := 0, n_dns := 0\<rparr>) s1"
  let ?s3 = "snd (udp_bind DHCP_PORT_CLIENT ?s2)"
  have "link_wf (g_net ?s3)"
    using wf time_ms_net [OF t]
    by (simp add: udp_bind_def Let_def set_binds_def set_net_def link_wf_def split: prod.split)
  then obtain st u where "dhcp_send K MSG_DISCOVER 0 0 ?s3 = Some (st, u)"
    by (rule dhcp_send_returns [OF live])
  moreover obtain s' where "say_discover K (n_dhcp_xid (g_net u)) u = Some (0, s')" by (rule say_discover.speaks)
  ultimately show ?thesis using t that by (simp add: dhcp_start_def Let_def prod.case_eq_if)
qed

end
