(* ===== verification/Dns.thy ===== *)
theory Dns
  imports Udp
begin

text \<open>
  \<open>src/dns.c\<close> but for the waiting loop of \<open>dns_resolve\<close>: the query built for a name, and the answer
  parsed. Pointers into the message are offsets, compared as addresses in a flat memory; loads are
  checked against the bytes there are.
\<close>

section \<open>Model\<close>

text \<open>\<open>while (*dot && *dot != '.') dot++;\<close>\<close>

fun label_span :: "u8 list \<Rightarrow> nat option" where
  "label_span [] = None"
| "label_span (c # cs) = (if c = 0 \<or> c = 46 then Some 0 else map_option Suc (label_span cs))"

lemma label_span_pos: "label_span s = Some n \<Longrightarrow> s ! 0 \<noteq> 0 \<Longrightarrow> s ! n \<noteq> 46 \<Longrightarrow> 0 < n"
  by (cases s) (auto split: if_splits)

text \<open>The loop over the labels: \<open>Inl\<close> is the early return, \<open>Inr\<close> the offset behind the last label.\<close>

function build_labels :: "u8 list \<Rightarrow> u8 list \<Rightarrow> nat \<Rightarrow> int \<Rightarrow> ((int + nat) \<times> u8 list) option" where
  "build_labels s buf p mx = do {
     c \<leftarrow> ld8 s 0;
     if c = 0 then Some (Inr p, buf)
     else do {
       n \<leftarrow> label_span s;
       if mx \<le> int p + 1 + int n + 5 then Some (Inl (-1), buf)
       else do {
         buf \<leftarrow> st8 p (of_nat n) buf;
         bs \<leftarrow> rd s 0 n;
         buf \<leftarrow> wr (p + 1) bs buf;
         s \<leftarrow> adv s n;
         c \<leftarrow> ld8 s 0;
         s \<leftarrow> (if c = 46 then adv s 1 else Some s);
         build_labels s buf (p + 1 + n) mx
       }
     }
   }"
  by pat_completeness auto
termination
  by (relation "measure (\<lambda>(s, buf, p, mx). length s)")
    (auto simp: ld8_def adv_def dest: label_span_pos split: if_splits)

declare build_labels.simps [simp del]

definition dns_build_query :: "u8 list \<Rightarrow> int \<Rightarrow> u16 \<Rightarrow> u8 list \<Rightarrow> (int \<times> u8 list) option" where
  "dns_build_query buf mx txid name =
     (if mx < 12 then Some (-1, buf)
      else do {
        buf \<leftarrow> st16 0 (htons txid) buf;
        buf \<leftarrow> st16 2 (htons 0x0100) buf;
        buf \<leftarrow> st16 4 (htons 1) buf;
        buf \<leftarrow> st16 6 0 buf;
        buf \<leftarrow> st16 8 0 buf;
        buf \<leftarrow> st16 10 0 buf;
        (r, buf) \<leftarrow> build_labels name buf 12 mx;
        (case r of
           Inl e \<Rightarrow> Some (e, buf)
         | Inr p \<Rightarrow> do {
             buf \<leftarrow> st8 p 0 buf;
             buf \<leftarrow> st16 (p + 1) (htons 1) buf;
             buf \<leftarrow> st16 (p + 3) (htons 1) buf;
             Some (int (p + 5), buf)
           })
      })"

text \<open>The loop that skips the name of the question, and the label \<open>answers\<close> it may jump to.\<close>

function skip_question :: "u8 list \<Rightarrow> int \<Rightarrow> nat \<Rightarrow> nat option" where
  "skip_question data len p =
     (if int p < len then do {
        c \<leftarrow> ld8 data p;
        if c = 0 then Some (p + 1 + 4)
        else if c AND 0xC0 = 0xC0 then Some (p + 2)
        else skip_question data len (p + 1 + unat c)
      } else Some (p + 1 + 4))"
  by pat_completeness auto
termination
  by (relation "measure (\<lambda>(data, len, p). nat (len - int p))") auto

function skip_labels :: "u8 list \<Rightarrow> int \<Rightarrow> nat \<Rightarrow> nat option" where
  "skip_labels data len p =
     (if int p < len then do {
        c \<leftarrow> ld8 data p;
        if c = 0 then Some p else skip_labels data len (p + 1 + unat c)
      } else Some p)"
  by pat_completeness auto
termination
  by (relation "measure (\<lambda>(data, len, p). nat (len - int p))") auto

declare skip_question.simps [simp del] skip_labels.simps [simp del]

text \<open>The loop over the answers with \<open>n\<close> of them to go: \<open>Some a\<close> is the address found.\<close>

fun answers_loop :: "u8 list \<Rightarrow> int \<Rightarrow> nat \<Rightarrow> nat \<Rightarrow> u32 option option" where
  "answers_loop data len 0 p = Some None"
| "answers_loop data len (Suc n) p =
     (if int p < len then do {
        c \<leftarrow> ld8 data p;
        p \<leftarrow> (if c AND 0xC0 = 0xC0 then Some (p + 2)
             else do { q \<leftarrow> skip_labels data len p; Some (q + 1) });
        if len < int (p + 10) then Some None
        else do {
          rtype \<leftarrow> ld16 data p;
          rdlen \<leftarrow> ld16 data (p + 8);
          let p = p + 10;
          if ntohs rtype = 1 \<and> ntohs rdlen = 4 \<and> int (p + 4) \<le> len then do {
            a \<leftarrow> ld32 data p;
            Some (Some (ntohl a))
          }
          else answers_loop data len n (p + unat (ntohs rdlen))
        }
      } else Some None)"

definition set_dns_done :: "int \<Rightarrow> 'w machine \<Rightarrow> 'w machine" where
  "set_dns_done d s = set_net (g_net s\<lparr>n_dns_done := d\<rparr>) s"

definition dns_rx :: "u32 \<Rightarrow> u8 list \<Rightarrow> int \<Rightarrow> 'w machine \<Rightarrow> (unit \<times> 'w machine) option" where
  "dns_rx src_ip data len s =
     (if len < 12 then Some ((), s)
      else do {
        txid \<leftarrow> ld16 data 0;
        flags \<leftarrow> ld16 data 2;
        ancount \<leftarrow> ld16 data 6;
        if ntohs txid \<noteq> n_dns_txid (g_net s) then Some ((), s)
        else if ntohs flags AND 0x8000 = 0 then Some ((), s)
        else if ntohs ancount = 0 then Some ((), set_dns_done (-1) s)
        else do {
          p \<leftarrow> skip_question data len 12;
          r \<leftarrow> answers_loop data len (unat (ntohs ancount)) p;
          (case r of
             Some a \<Rightarrow> Some ((), set_net (g_net s\<lparr>n_dns_result := a, n_dns_done := 1\<rparr>) s)
           | None \<Rightarrow> Some ((), set_dns_done (-1) s))
        }
      })"

section \<open>Safety\<close>

text \<open>
  Whatever bytes arrive, parsing them reads nothing outside the message and ends: jumps that a length
  byte makes beyond the end only stop the loops.
\<close>

lemma skip_question_returns: "len \<le> int (length data) \<Longrightarrow> \<exists>q. skip_question data len p = Some q"
proof (induction data len p rule: skip_question.induct)
  case (1 data len p)
  show ?case
  proof (cases "int p < len")
    case False
    then show ?thesis by (subst skip_question.simps) simp
  next
    case True
    with "1.prems" obtain c where c: "ld8 data p = Some c" by (auto simp: ld8_def)
    with True "1.IH" [OF True c] "1.prems" show ?thesis by (subst skip_question.simps) auto
  qed
qed

lemma skip_labels_returns: "len \<le> int (length data) \<Longrightarrow> \<exists>q. skip_labels data len p = Some q"
proof (induction data len p rule: skip_labels.induct)
  case (1 data len p)
  show ?case
  proof (cases "int p < len")
    case False
    then show ?thesis by (subst skip_labels.simps) simp
  next
    case True
    with "1.prems" obtain c where c: "ld8 data p = Some c" by (auto simp: ld8_def)
    with True "1.IH" [OF True c] "1.prems" show ?thesis by (subst skip_labels.simps) auto
  qed
qed

lemma answers_loop_returns: "len \<le> int (length data) \<Longrightarrow> \<exists>r. answers_loop data len n p = Some r"
proof (induction n arbitrary: p)
  case 0
  then show ?case by simp
next
  case (Suc n)
  show ?case
  proof (cases "int p < len")
    case False
    then show ?thesis by simp
  next
    case True
    with Suc.prems obtain c where c: "ld8 data p = Some c" by (auto simp: ld8_def)
    obtain q where q: "(if c AND 0xC0 = 0xC0 then Some (p + 2)
        else do { q \<leftarrow> skip_labels data len p; Some (q + 1) }) = Some q"
      using skip_labels_returns [OF Suc.prems, of p] by (cases "c AND 0xC0 = 0xC0") auto
    show ?thesis
    proof (cases "len < int (q + 10)")
      case True
      with \<open>int p < len\<close> c q show ?thesis by simp
    next
      case False
      with Suc.prems obtain rt rl where "ld16 data q = Some rt" "ld16 data (q + 8) = Some rl"
        by (auto simp: ld16_def rd_def)
      moreover have "int (q + 14) \<le> len \<Longrightarrow> \<exists>a. ld32 data (q + 10) = Some a"
        using Suc.prems by (auto simp: ld32_def rd_def)
      ultimately show ?thesis
        using True False c q Suc.IH [OF Suc.prems] by (auto simp: Let_def add.commute)
    qed
  qed
qed

lemma dns_rx_returns:
  assumes len: "len \<le> int (length data)"
  obtains s' where "dns_rx src_ip data len s = Some ((), s')"
proof (cases "len < 12")
  case True
  then show ?thesis by (intro that [of s]) (simp add: dns_rx_def)
next
  case False
  with len obtain t f a where l: "ld16 data 0 = Some t" "ld16 data 2 = Some f" "ld16 data 6 = Some a"
    by (auto simp: ld16_def rd_def)
  obtain p where p: "skip_question data len 12 = Some p" using skip_question_returns [OF len] by auto
  obtain r where r: "answers_loop data len (unat (ntohs a)) p = Some r"
    using answers_loop_returns [OF len] by auto
  have "\<exists>s'. dns_rx src_ip data len s = Some ((), s')"
    using False l p r by (auto simp: dns_rx_def Let_def split: option.split)
  then show ?thesis using that by blast
qed

lemma dns_rx_post:
  assumes run: "dns_rx src_ip data len s = Some ((), s')"
  obtains "s' = s" | d where "s' = set_dns_done d s" "d = -1"
    | a where "s' = set_net (g_net s\<lparr>n_dns_result := a, n_dns_done := 1\<rparr>) s"
  using run unfolding dns_rx_def Let_def
  by (auto elim!: run_elims split: if_splits option.splits)

section \<open>The query for a name\<close>

text \<open>Names on the wire: counted labels, then a zero. In C: the labels with dots between them.\<close>

definition enc_label :: "u8 list \<Rightarrow> u8 list" where
  "enc_label l = of_nat (length l) # l"

definition enc_labels :: "u8 list list \<Rightarrow> u8 list" where
  "enc_labels ls = concat (map enc_label ls)"

fun dotted :: "u8 list list \<Rightarrow> u8 list" where
  "dotted [] = []"
| "dotted [l] = l"
| "dotted (l # ls) = l @ 46 # dotted ls"

definition label_ok :: "u8 list \<Rightarrow> bool" where
  "label_ok l \<longleftrightarrow> l \<noteq> [] \<and> length l < 64 \<and> (\<forall>c\<in>set l. c \<noteq> 0 \<and> c \<noteq> 46)"

lemma enc_labels_simps [simp]:
  "enc_labels [] = []" "enc_labels (l # ls) = of_nat (length l) # l @ enc_labels ls"
  by (simp_all add: enc_labels_def enc_label_def)

lemma dotted_Cons: "ls \<noteq> [] \<Longrightarrow> dotted (l # ls) = l @ 46 # dotted ls"
  by (cases ls) auto

lemma label_span_ok:
  "\<forall>c\<in>set l. c \<noteq> 0 \<and> c \<noteq> 46 \<Longrightarrow> x = 0 \<or> x = 46 \<Longrightarrow> label_span (l @ x # r) = Some (length l)"
  by (induction l) auto

text \<open>One round of the loop: where it stops, and what it writes.\<close>

lemma build_labels_step:
  assumes l: "label_ok l" and x: "x = 0 \<or> x = 46"
  shows "build_labels (l @ x # s) (filled pre rest) (length pre) mx =
    (if mx \<le> int (length pre) + 1 + int (length l) + 5 then Some (Inl (-1), filled pre rest)
     else if length rest < 1 + length l then None
     else build_labels (if x = 46 then s else x # s)
            (filled (pre @ of_nat (length l) # l) (drop (1 + length l) rest))
            (length (pre @ of_nat (length l) # l)) mx)"
proof -
  obtain c l' where c: "l = c # l'" "c \<noteq> 0" using l by (cases l) (auto simp: label_ok_def)
  have span: "label_span (l @ x # s) = Some (length l)"
    using l x by (intro label_span_ok) (auto simp: label_ok_def)
  have io: "ld8 (l @ x # s) 0 = Some c" "rd (l @ x # s) 0 (length l) = Some l"
    "adv (l @ x # s) (length l) = Some (x # s)"
    using c by (auto simp: ld8_def rd_def adv_def)
  have nxt: "(if x = 46 then adv (x # s) 1 else Some (x # s)) = Some (if x = 46 then s else x # s)"
    by (simp add: adv_def)
  show ?thesis
  proof (cases "length rest < 1 + length l")
    case False
    then have "1 \<le> length rest" "length l \<le> length (drop 1 rest)" by auto
    then have "wr (length pre) [of_nat (length l)] (filled pre rest) =
        Some (filled (pre @ [of_nat (length l)]) (drop 1 rest))"
      "wr (length pre + 1) l (filled (pre @ [of_nat (length l)]) (drop 1 rest)) =
        Some (filled (pre @ of_nat (length l) # l) (drop (1 + length l) rest))"
      by (simp_all add: mem_simps add.commute)
    then show ?thesis
      using c(2) io span nxt False
      by (subst build_labels.simps) (simp add: st8_def ld8_def)
  next
    case True
    have "do { b \<leftarrow> wr (length pre) [of_nat (length l)] (filled pre rest); wr (length pre + 1) l b } = None"
      using True by (auto simp: wr_def filled_def)
    then show ?thesis
      using c(2) io span True
      by (subst build_labels.simps) (auto simp: st8_def Option.bind_eq_None_conv split: Option.bind_splits)
  qed
qed

lemma build_labels_dotted:
  "\<forall>l\<in>set ls. label_ok l \<Longrightarrow> length (enc_labels ls) \<le> length rest \<Longrightarrow>
   ls = [] \<or> int (length pre + length (enc_labels ls)) + 5 < mx \<Longrightarrow>
   build_labels (dotted ls @ 0 # r) (filled pre rest) (length pre) mx =
     Some (Inr (length pre + length (enc_labels ls)),
           filled (pre @ enc_labels ls) (drop (length (enc_labels ls)) rest))"
proof (induction ls arbitrary: pre rest)
  case Nil
  then show ?case by (subst build_labels.simps) (simp add: ld8_def)
next
  case (Cons l ls)
  define x where "x = (if ls = [] then 0 else 46 :: u8)"
  define s where "s = (if ls = [] then r else dotted ls @ 0 # r)"
  have str: "dotted (l # ls) @ 0 # r = l @ x # s"
    by (cases "ls = []") (simp_all add: x_def s_def dotted_Cons)
  have nxt: "(if x = 46 then s else x # s) = dotted ls @ 0 # r"
    by (cases "ls = []") (simp_all add: x_def s_def)
  let ?pre = "pre @ of_nat (length l) # l" and ?rest = "drop (1 + length l) rest"
  have "build_labels (dotted ls @ 0 # r) (filled ?pre ?rest) (length ?pre) mx =
     Some (Inr (length ?pre + length (enc_labels ls)),
           filled (?pre @ enc_labels ls) (drop (length (enc_labels ls)) ?rest))"
    using Cons.prems by (intro Cons.IH) auto
  moreover have "label_ok l" "x = 0 \<or> x = 46" using Cons.prems by (auto simp: x_def)
  ultimately show ?case
    using Cons.prems unfolding str by (simp add: build_labels_step nxt add.commute)
qed

lemma build_labels_too_long:
  "\<forall>l\<in>set ls. label_ok l \<Longrightarrow> mx \<le> int (length pre + length rest) \<Longrightarrow>
   ls \<noteq> [] \<Longrightarrow> mx \<le> int (length pre + length (enc_labels ls)) + 5 \<Longrightarrow>
   \<exists>buf. build_labels (dotted ls @ 0 # r) (filled pre rest) (length pre) mx = Some (Inl (-1), buf)"
proof (induction ls arbitrary: pre rest)
  case Nil
  then show ?case by simp
next
  case (Cons l ls)
  define x where "x = (if ls = [] then 0 else 46 :: u8)"
  define s where "s = (if ls = [] then r else dotted ls @ 0 # r)"
  have str: "dotted (l # ls) @ 0 # r = l @ x # s"
    by (cases "ls = []") (simp_all add: x_def s_def dotted_Cons)
  have nxt: "(if x = 46 then s else x # s) = dotted ls @ 0 # r"
    by (cases "ls = []") (simp_all add: x_def s_def)
  have l: "label_ok l" "x = 0 \<or> x = 46" using Cons.prems by (auto simp: x_def)
  show ?case
  proof (cases "mx \<le> int (length pre) + 1 + int (length l) + 5")
    case True
    with l show ?thesis unfolding str by (simp add: build_labels_step)
  next
    case False
    let ?pre = "pre @ of_nat (length l) # l" and ?rest = "drop (1 + length l) rest"
    have "ls \<noteq> []" using False Cons.prems by auto
    then obtain buf where "build_labels (dotted ls @ 0 # r) (filled ?pre ?rest) (length ?pre) mx = Some (Inl (-1), buf)"
      using Cons.IH [of ?pre ?rest] Cons.prems False by auto
    then show ?thesis
      using False l Cons.prems unfolding str by (simp add: build_labels_step nxt add.commute)
  qed
qed

definition dns_question :: "u8 list list \<Rightarrow> u16 \<Rightarrow> u16 \<Rightarrow> u8 list" where
  "dns_question ls qtype qclass = enc_labels ls @ [0] @ be16 qtype @ be16 qclass"

definition dns_query :: "u16 \<Rightarrow> u8 list list \<Rightarrow> u8 list" where
  "dns_query txid ls = be16 txid @ be16 0x0100 @ be16 1 @ replicate 6 0 @ dns_question ls 1 1"

lemma dns_query_length: "length (dns_query txid ls) = 17 + length (enc_labels ls)"
  by (simp add: dns_query_def dns_question_def)

text \<open>The query of a dotted name: a standard query with one question, for its address.\<close>

lemma dns_build_query_eq:
  assumes ls: "\<forall>l\<in>set ls. label_ok l"
    and room: "length (dns_query txid ls) < n" "n \<le> length buf"
  shows "dns_build_query buf (int n) txid (dotted ls @ 0 # r) =
    Some (int (length (dns_query txid ls)), dns_query txid ls @ drop (length (dns_query txid ls)) buf)"
proof -
  let ?e = "enc_labels ls"
  let ?pre = "be16 txid @ be16 256 @ be16 1 @ le16 0 @ le16 0 @ le16 0"
  have b: "buf = filled [] buf" by (simp add: filled_def)
  have len: "17 + length ?e < n" using room by (simp only: dns_query_length)
  have lbl: "build_labels (dotted ls @ 0 # r) (filled ?pre (drop 12 buf)) 12 (int n) =
     Some (Inr (12 + length ?e), filled (?pre @ ?e) (drop (length ?e) (drop 12 buf)))"
    using build_labels_dotted [OF ls, of "drop 12 buf" ?pre "int n" r] len room(2) by simp
  have q: "?pre @ ?e @ 0 # be16 1 @ be16 1 = dns_query txid ls"
    by (simp add: dns_query_def dns_question_def le16_def numeral_eq_Suc)
  have fin: "filled (be16 txid @ be16 256 @ be16 1 @ le16 0 @ le16 0 @ le16 0 @ ?e @ 0 # be16 1 @ be16 1) x =
      dns_query txid ls @ x" for x
    using q by (simp add: filled_def)
  have "dns_build_query (filled [] buf) (int n) txid (dotted ls @ 0 # r) =
      Some (int (length (dns_query txid ls)), dns_query txid ls @ drop (17 + length ?e) buf)"
    using len room(2) lbl
    by (simp add: dns_build_query_def st16_def st8_def wire_simps mem_simps fin dns_query_length add.commute)
  then show ?thesis by (simp add: filled_def dns_query_length)
qed

lemma dns_build_query_too_long:
  assumes ls: "\<forall>l\<in>set ls. label_ok l" "ls \<noteq> []"
    and room: "12 \<le> n" "n \<le> length buf" "n \<le> length (dns_query txid ls)"
  shows "\<exists>buf'. dns_build_query buf (int n) txid (dotted ls @ 0 # r) = Some (-1, buf')"
proof -
  let ?pre = "be16 txid @ be16 256 @ be16 1 @ le16 0 @ le16 0 @ le16 0"
  obtain buf' where lbl: "build_labels (dotted ls @ 0 # r) (filled ?pre (drop 12 buf)) 12 (int n) =
     Some (Inl (-1), buf')"
    using build_labels_too_long [OF ls(1), of "int n" ?pre "drop 12 buf" r] ls(2) room
    by (auto simp: dns_query_length)
  have "dns_build_query (filled [] buf) (int n) txid (dotted ls @ 0 # r) = Some (-1, buf')"
    using room lbl by (simp add: dns_build_query_def st16_def wire_simps mem_simps)
  then show ?thesis by (simp add: filled_def)
qed

section \<open>Responses\<close>

text \<open>
  A resource record: an owner name, which is a compression pointer or labels, type, class, time to
  live, data. \<open>first_a\<close> is what the resolver takes from an answer section.
\<close>

datatype rr_name = Ptr u8 u8 | Labels "u8 list list"

datatype rr = RR rr_name u16 u16 u32 "u8 list"

primrec enc_rr_name :: "rr_name \<Rightarrow> u8 list" where
  "enc_rr_name (Ptr a b) = [a, b]"
| "enc_rr_name (Labels ls) = enc_labels ls @ [0]"

primrec rr_name_ok :: "rr_name \<Rightarrow> bool" where
  "rr_name_ok (Ptr a b) \<longleftrightarrow> a AND 0xC0 = 0xC0"
| "rr_name_ok (Labels ls) \<longleftrightarrow> (\<forall>l\<in>set ls. label_ok l)"

primrec enc_rr :: "rr \<Rightarrow> u8 list" where
  "enc_rr (RR nm ty cl ttl d) =
     enc_rr_name nm @ be16 ty @ be16 cl @ be32 ttl @ be16 (of_nat (length d)) @ d"

primrec rr_ok :: "rr \<Rightarrow> bool" where
  "rr_ok (RR nm ty cl ttl d) \<longleftrightarrow> rr_name_ok nm \<and> length d < 65536"

fun first_a :: "rr list \<Rightarrow> u32 option" where
  "first_a [] = None"
| "first_a (RR nm ty cl ttl d # rrs) =
     (if ty = 1 \<and> length d = 4 then Some (of_be32 d) else first_a rrs)"

definition enc_rrs :: "rr list \<Rightarrow> u8 list" where
  "enc_rrs rrs = concat (map enc_rr rrs)"

lemma label_byte_not_pointer:
  assumes "n < 64"
  shows "(of_nat n :: u8) AND 0xC0 \<noteq> 0xC0"
proof
  assume "(of_nat n :: u8) AND 0xC0 = 0xC0"
  then have "(0xC0 :: u8) \<le> of_nat n" by (metis word_and_le2)
  then have "unat (0xC0 :: u8) \<le> unat (of_nat n :: u8)" by (simp only: word_le_nat_alt)
  with assms show False by (simp add: unat_of_nat)
qed

lemma label_byte:
  assumes "label_ok l"
  shows "unat (of_nat (length l) :: u8) = length l" "(of_nat (length l) :: u8) \<noteq> 0"
    "(of_nat (length l) :: u8) AND 0xC0 \<noteq> 0xC0"
proof -
  have l: "length l < 64" "0 < length l" using assms by (auto simp: label_ok_def)
  show u: "unat (of_nat (length l) :: u8) = length l"
    using l by (simp add: unat_of_nat take_bit_nat_eq_self_iff)
  then show "(of_nat (length l) :: u8) \<noteq> 0" using l by auto
  show "(of_nat (length l) :: u8) AND 0xC0 \<noteq> 0xC0" using l by (intro label_byte_not_pointer)
qed

lemma skip_question_labels:
  "\<forall>l\<in>set ls. label_ok l \<Longrightarrow> int (length (pre @ enc_labels ls)) < len \<Longrightarrow>
   skip_question (pre @ enc_labels ls @ 0 # r) len (length pre) = Some (length (pre @ enc_labels ls) + 5)"
proof (induction ls arbitrary: pre)
  case Nil
  then show ?case by (subst skip_question.simps) (simp add: ld8_def)
next
  case (Cons l ls)
  let ?pre = "pre @ of_nat (length l) # l"
  have "skip_question (?pre @ enc_labels ls @ 0 # r) len (length ?pre) =
      Some (length (?pre @ enc_labels ls) + 5)"
    using Cons.prems by (intro Cons.IH) auto
  with Cons.prems label_byte [of l] show ?case
    by (subst skip_question.simps) (simp add: ld8_def)
qed

lemma skip_labels_labels:
  "\<forall>l\<in>set ls. label_ok l \<Longrightarrow> int (length (pre @ enc_labels ls)) < len \<Longrightarrow>
   skip_labels (pre @ enc_labels ls @ 0 # r) len (length pre) = Some (length (pre @ enc_labels ls))"
proof (induction ls arbitrary: pre)
  case Nil
  then show ?case by (subst skip_labels.simps) (simp add: ld8_def)
next
  case (Cons l ls)
  let ?pre = "pre @ of_nat (length l) # l"
  have "skip_labels (?pre @ enc_labels ls @ 0 # r) len (length ?pre) = Some (length (?pre @ enc_labels ls))"
    using Cons.prems by (intro Cons.IH) auto
  with Cons.prems label_byte [of l] show ?case
    by (subst skip_labels.simps) (simp add: ld8_def)
qed

lemma enc_rrs_simps [simp]: "enc_rrs [] = []" "enc_rrs (x # xs) = enc_rr x @ enc_rrs xs"
  by (simp_all add: enc_rrs_def)

text \<open>Skipping the owner name of a record.\<close>

lemma skip_owner:
  assumes ok: "rr_name_ok nm" and len: "int (length (pre @ enc_rr_name nm)) \<le> len"
  obtains c where "ld8 (pre @ enc_rr_name nm @ r) (length pre) = Some c"
    "(if c AND 0xC0 = 0xC0 then Some (length pre + 2)
      else do { q \<leftarrow> skip_labels (pre @ enc_rr_name nm @ r) len (length pre); Some (q + 1) }) =
     Some (length (pre @ enc_rr_name nm))"
proof (cases nm)
  case (Ptr a b)
  with ok show ?thesis by (intro that [of a]) (simp_all add: ld8_def)
next
  case (Labels ls)
  have ls: "\<forall>l\<in>set ls. label_ok l" using ok Labels by simp
  have sk: "skip_labels (pre @ enc_labels ls @ 0 # r) len (length pre) = Some (length (pre @ enc_labels ls))"
    using ls len Labels by (intro skip_labels_labels) auto
  show ?thesis
  proof (cases ls)
    case Nil
    with Labels sk show ?thesis by (intro that [of 0]) (simp_all add: ld8_def)
  next
    case (Cons l ls')
    with Labels sk ls label_byte [of l] show ?thesis
      by (intro that [of "of_nat (length l)"]) (simp_all add: ld8_def)
  qed
qed

lemma answers_loop_rrs:
  "\<forall>x\<in>set rrs. rr_ok x \<Longrightarrow> int (length (pre @ enc_rrs rrs)) \<le> len \<Longrightarrow>
   answers_loop (pre @ enc_rrs rrs @ r) len (length rrs) (length pre) = Some (first_a rrs)"
proof (induction rrs arbitrary: pre)
  case Nil
  then show ?case by simp
next
  case (Cons x rrs)
  obtain nm ty cl ttl d where x: "x = RR nm ty cl ttl d" by (cases x)
  let ?n = "enc_rr_name nm" and ?q = "length (pre @ enc_rr_name nm)"
  let ?tl = "be16 ty @ be16 cl @ be32 ttl @ be16 (of_nat (length d)) @ d @ enc_rrs rrs @ r"
  have ok: "rr_name_ok nm" "length d < 65536" and len: "int (length (pre @ ?n)) \<le> len"
    using Cons.prems x by auto
  then have ud: "unat (of_nat (length d) :: u16) = length d"
    by (simp add: unat_of_nat take_bit_nat_eq_self_iff)
  have data: "pre @ enc_rrs (x # rrs) @ r = pre @ ?n @ ?tl" by (simp add: x)
  obtain c where c: "ld8 (pre @ ?n @ ?tl) (length pre) = Some c"
    and sk: "(if c AND 0xC0 = 0xC0 then Some (length pre + 2)
      else do { q \<leftarrow> skip_labels (pre @ ?n @ ?tl) len (length pre); Some (q + 1) }) = Some ?q"
    by (rule skip_owner [OF ok(1) len, of ?tl])
  have ld: "ld16 (pre @ ?n @ ?tl) ?q = Some (of_le16 (be16 ty))"
    "ld16 (pre @ ?n @ ?tl) (?q + 8) = Some (of_le16 (be16 (of_nat (length d))))"
    "length d = 4 \<Longrightarrow> ld32 (pre @ ?n @ ?tl) (?q + 10) = Some (of_le32 d)"
    by (simp_all add: ld16_def ld32_def rd_def)
  have bounds: "int (length pre) < len" "\<not> len < int (?q + 10)" "length d = 4 \<Longrightarrow> int (?q + 14) \<le> len"
    using Cons.prems x by auto
  have len4: "(of_nat (length d) :: u16) = 4 \<longleftrightarrow> length d = 4"
  proof
    assume "(of_nat (length d) :: u16) = 4"
    then have "unat (of_nat (length d) :: u16) = unat (4 :: u16)" by (rule arg_cong)
    then show "length d = 4" using ud by simp
  qed simp
  have "answers_loop ((pre @ enc_rr x) @ enc_rrs rrs @ r) len (length rrs) (length (pre @ enc_rr x)) =
      Some (first_a rrs)"
    using Cons.prems by (intro Cons.IH) auto
  then have rest: "answers_loop (pre @ ?n @ ?tl) len (length rrs) (?q + 10 + length d) = Some (first_a rrs)"
    by (simp add: x add.assoc)
  obtain D q where D: "pre @ ?n @ ?tl = D" and q: "?q = q" by blast
  have "answers_loop D len (Suc (length rrs)) (length pre) =
    (if ty = 1 \<and> length d = 4 then Some (Some (of_be32 d)) else Some (first_a rrs))"
    using c sk ld bounds rest ud len4 unfolding D q
    by (simp add: wire_simps Let_def add.commute)
  then show ?case unfolding data D by (simp add: x)
qed

text \<open>A response to the outstanding query gives the first address among its answers, or a failure.\<close>

definition dns_response ::
  "u16 \<Rightarrow> u16 \<Rightarrow> u16 \<Rightarrow> u16 \<Rightarrow> u8 list list \<Rightarrow> u16 \<Rightarrow> u16 \<Rightarrow> rr list \<Rightarrow> u8 list" where
  "dns_response txid flags ns ar ls qtype qclass rrs =
     be16 txid @ be16 flags @ be16 1 @ be16 (of_nat (length rrs)) @ be16 ns @ be16 ar @
     dns_question ls qtype qclass @ enc_rrs rrs"

lemma dns_rx_response:
  assumes ok: "\<forall>l\<in>set ls. label_ok l" "\<forall>x\<in>set rrs. rr_ok x" "length rrs < 65536"
    and flags: "flags AND 0x8000 \<noteq> 0"
    and len: "int (length (dns_response txid flags ns ar ls qt qc rrs)) \<le> len"
  shows "dns_rx src_ip (dns_response txid flags ns ar ls qt qc rrs @ r) len s = Some ((),
    if txid = n_dns_txid (g_net s) then
      (case first_a rrs of
         Some a \<Rightarrow> set_net (g_net s\<lparr>n_dns_result := a, n_dns_done := 1\<rparr>) s
       | None \<Rightarrow> set_dns_done (-1) s)
    else s)"
proof -
  let ?hdr = "be16 txid @ be16 flags @ be16 1 @ be16 (of_nat (length rrs)) @ be16 ns @ be16 ar"
  let ?D = "dns_response txid flags ns ar ls qt qc rrs @ r"
  have n: "unat (of_nat (length rrs) :: u16) = length rrs"
    using ok(3) by (simp add: unat_of_nat take_bit_nat_eq_self_iff)
  have lh: "length ?hdr = 12" by simp
  have ld: "ld16 ?D 0 = Some (of_le16 (be16 txid))" "ld16 ?D 2 = Some (of_le16 (be16 flags))"
    "ld16 ?D 6 = Some (of_le16 (be16 (of_nat (length rrs))))"
    by (simp_all add: dns_response_def ld16_def rd_def)
  have "skip_question (?hdr @ enc_labels ls @ 0 # be16 qt @ be16 qc @ enc_rrs rrs @ r) len (length ?hdr) =
      Some (length (?hdr @ enc_labels ls) + 5)"
    using ok len by (intro skip_question_labels) (auto simp: dns_response_def dns_question_def)
  then have sk: "skip_question ?D len 12 = Some (17 + length (enc_labels ls))"
    by (simp add: dns_response_def dns_question_def)
  let ?pre = "?hdr @ dns_question ls qt qc"
  have "answers_loop (?pre @ enc_rrs rrs @ r) len (length rrs) (length ?pre) = Some (first_a rrs)"
    using ok len by (intro answers_loop_rrs) (auto simp: dns_response_def)
  then have an: "answers_loop ?D len (length rrs) (17 + length (enc_labels ls)) = Some (first_a rrs)"
    by (simp add: dns_response_def dns_question_def)
  have zero: "(of_nat (length rrs) :: u16) = 0 \<longleftrightarrow> rrs = []"
  proof -
    have "(of_nat (length rrs) :: u16) = 0 \<longleftrightarrow> unat (of_nat (length rrs) :: u16) = 0"
      by (simp only: unat_eq_0)
    then show ?thesis unfolding n by simp
  qed
  have l12: "\<not> len < 12" using len by (simp add: dns_response_def)
  obtain D where D: "?D = D" by blast
  show ?thesis
    using ld sk an n zero l12 flags unfolding D
    by (cases "rrs = []") (auto simp: dns_rx_def wire_simps Let_def split: option.split)
qed

text \<open>Anything else leaves the resolver waiting: a foreign transaction, or a query.\<close>

lemma dns_rx_ignores:
  assumes "12 \<le> length data"
    and "of_be16 (take 2 data) \<noteq> n_dns_txid (g_net s) \<or> of_be16 (take 2 (drop 2 data)) AND 0x8000 = 0"
  shows "dns_rx src_ip data len s = Some ((), s)"
  using assms by (auto simp: dns_rx_def ld16_def rd_def wire_simps Let_def)

end
