(* ===== verification/Rx.thy ===== *)
theory Rx
  imports Icmp Dhcp Dns
begin

text \<open>
  The receive path: \<open>udp_rx\<close> of \<open>src/udp.c\<close>, \<open>ip_rx\<close> of \<open>src/ip.c\<close> and \<open>rx_once\<close> of \<open>src/main.c\<close>,
  which hand a frame down to ARP, ICMP, DHCP, DNS or a bound port. Lengths inside a packet are not
  checked against the bytes received: the lemmas say for which ones the accesses stay inside the frame
  array, and that a longer datagram is read from beyond it.
\<close>

section \<open>Model\<close>

definition udp_rx ::
  "'w kernel \<Rightarrow> u32 \<Rightarrow> u8 list \<Rightarrow> int \<Rightarrow> 'w machine \<Rightarrow> (unit \<times> 'w machine) option" where
  "udp_rx K src_ip data len s =
     (if len < 8 then Some ((), s)
      else do {
        src_port \<leftarrow> ld16 data 0;
        dst_port \<leftarrow> ld16 data 2;
        udp_len \<leftarrow> ld16 data 4;
        let src_port = ntohs src_port;
        let dst_port = ntohs dst_port;
        let payload_len = int (unat (ntohs udp_len)) - 8;
        if payload_len \<le> 0 then Some ((), s)
        else do {
          payload \<leftarrow> adv data 8;
          if dst_port = DHCP_PORT_CLIENT then dhcp_rx K src_ip payload payload_len s
          else if src_port = DNS_PORT then dns_rx src_ip payload payload_len s
          else udp_deliver src_ip src_port dst_port payload payload_len s
        }
      })"

definition ip_rx ::
  "'w kernel \<Rightarrow> u8 list \<Rightarrow> int \<Rightarrow> 'w machine \<Rightarrow> (unit \<times> 'w machine) option" where
  "ip_rx K frame len s =
     (if len < 34 then Some ((), s)
      else do {
        ip \<leftarrow> adv frame 14;
        b0 \<leftarrow> ld8 ip 0;
        proto \<leftarrow> ld8 ip 9;
        src_ip \<leftarrow> ld32 ip 12;
        dst_ip \<leftarrow> ld32 ip 16;
        tot_len \<leftarrow> ld16 ip 2;
        let ihl = (b0 AND 0x0F) * 4;
        let src_ip = ntohl src_ip;
        let dst_ip = ntohl dst_ip;
        if n_ip (g_net s) \<noteq> 0 \<and> dst_ip \<noteq> n_ip (g_net s) \<and> dst_ip \<noteq> IP_BCAST then Some ((), s)
        else do {
          let payload_len = int (unat (ntohs tot_len)) - int (unat ihl);
          if payload_len \<le> 0 then Some ((), s)
          else do {
            payload \<leftarrow> adv ip (unat ihl);
            mac \<leftarrow> adv frame 6;
            (_, s) \<leftarrow> arp_learn K src_ip mac s;
            if proto = IPPROTO_ICMP then icmp_rx K src_ip payload payload_len s
            else if proto = IPPROTO_UDP then udp_rx K src_ip payload payload_len s
            else Some ((), s)
          }
        }
      })"

text \<open>The dispatch on the Ethernet type of a received frame.\<close>

definition handle_frame ::
  "'w kernel \<Rightarrow> u8 list \<Rightarrow> u32 \<Rightarrow> 'w machine \<Rightarrow> (unit \<times> 'w machine) option" where
  "handle_frame K frame flen s = do {
     b12 \<leftarrow> ld8 frame 12;
     b13 \<leftarrow> ld8 frame 13;
     let et = push_bit 8 (ucast b12) OR ucast b13;
     if et = ETHERTYPE_IP then ip_rx K frame (sint flen) s
     else if et = ETHERTYPE_ARP then arp_rx K frame (sint flen) s
     else Some ((), s)
   }"

definition rx_once :: "'w kernel \<Rightarrow> 'w machine \<Rightarrow> (unit \<times> 'w machine) option" where
  "rx_once K s = do {
     ((n, frame, flen), s) \<leftarrow> driver_rx K (junk K s 1518) 1518 s;
     if n \<le> 0 then Some ((), s) else handle_frame K frame flen s
   }"

section \<open>The invariant\<close>

text \<open>
  \<open>net_wf\<close>: the adapter's address, the cache and the bindings are well formed. No frame, however
  malformed, breaks it.
\<close>

definition net_wf :: "netd_state_t \<Rightarrow> bool" where
  "net_wf n \<longleftrightarrow> link_wf n \<and> binds_wf (n_udp_binds n)"

lemma net_wfI [intro]: "link_wf n \<Longrightarrow> binds_wf (n_udp_binds n) \<Longrightarrow> net_wf n"
  by (simp add: net_wf_def)

lemma net_wf_link: "net_wf n \<Longrightarrow> link_wf n"
  by (simp add: net_wf_def)

lemma tx_only_net_wf: "tx_only s s' \<Longrightarrow> net_wf (g_net s) \<Longrightarrow> net_wf (g_net s')"
  by (auto simp: net_wf_def tx_only_link_wf elim: tx_onlyE)

text \<open>
  \<open>rx_step s s'\<close>: what receiving may do to the state: it keeps the invariant and the host's identity,
  and moves the DHCP machine by its steps.
\<close>

definition rx_step :: "'w machine \<Rightarrow> 'w machine \<Rightarrow> bool" where
  "rx_step s s' \<longleftrightarrow> (net_wf (g_net s) \<longrightarrow> net_wf (g_net s')) \<and>
     dhcp_step (n_dhcp_state (g_net s)) (n_dhcp_state (g_net s')) \<and>
     (n_ip (g_net s') \<noteq> n_ip (g_net s) \<longrightarrow> n_dhcp_state (g_net s') = DHCP_BOUND) \<and>
     n_fd (g_net s') = n_fd (g_net s) \<and> n_mac (g_net s') = n_mac (g_net s)"

lemma rx_stepI:
  assumes "net_wf (g_net s) \<Longrightarrow> net_wf (g_net s')" "n_dhcp_state (g_net s') = n_dhcp_state (g_net s)"
    "n_ip (g_net s') = n_ip (g_net s)" "n_fd (g_net s') = n_fd (g_net s)" "n_mac (g_net s') = n_mac (g_net s)"
  shows "rx_step s s'"
  using assms by (simp add: rx_step_def dhcp_step.ignore)

lemma rx_step_refl [simp, intro]: "rx_step s s"
  by (rule rx_stepI) simp_all

lemma rx_step_statics: "same_statics s s' \<Longrightarrow> rx_step s s'"
  by (rule rx_stepI) (simp_all add: same_statics_def)

lemma rx_step_tx: "tx_only s s' \<Longrightarrow> rx_step s s'"
  by (rule rx_stepI) (auto intro: tx_only_net_wf elim: tx_onlyE)

text \<open>A step that leaves the DHCP machine alone, before one that may move it.\<close>

lemma rx_step_after:
  assumes "arp_only s t" "rx_step t u"
  shows "rx_step s u"
proof -
  have "tx_only s t" using assms(1) by (rule tx_only_arp)
  then have "net_wf (g_net s) \<Longrightarrow> net_wf (g_net t)" by (rule tx_only_net_wf)
  with assms show ?thesis by (auto simp: rx_step_def elim!: arp_onlyE)
qed

lemma icmp_rx_step:
  assumes wf: "net_wf (g_net s)" and run: "icmp_rx K src data len s = Some ((), s')"
  shows "rx_step s s'"
proof -
  obtain c a b where
    "g_net s' = g_net s\<lparr>n_arp_cache := c, n_ping_reply_ip := a, n_ping_replied := b\<rparr>" "arp_wf c"
    by (rule icmp_rx_post [OF net_wf_link [OF wf] run])
  with wf show ?thesis by (intro rx_stepI) (auto simp: net_wf_def link_wf_def)
qed

lemma dhcp_rx_rx_step:
  assumes wf: "net_wf (g_net s)" and run: "dhcp_rx K src data len s = Some ((), s')"
  shows "rx_step s s'"
  using net_wf_link [OF wf] run
  by (rule dhcp_rx_cases)
    (auto simp: rx_step_def net_wf_def link_wf_def intro: dhcp_step.intros)

lemma dns_rx_step: "dns_rx src data len s = Some ((), s') \<Longrightarrow> rx_step s s'"
  by (erule dns_rx_post) (auto intro!: rx_stepI simp: set_dns_done_def set_net_def net_wf_def link_wf_def)

lemma udp_deliver_step:
  assumes wf: "net_wf (g_net s)" and len: "0 < payload_len"
    and run: "udp_deliver src_ip src_port dst_port payload payload_len s = Some ((), s')"
  shows "rx_step s s'"
proof -
  have b: "binds_wf (n_udp_binds (g_net s))" using wf by (simp add: net_wf_def)
  obtain bs where "s' = set_binds bs s" "binds_wf bs"
    using udp_deliver_post [OF b _ run] len by auto
  with wf show ?thesis by (auto intro!: rx_stepI simp: set_binds_def set_net_def net_wf_def link_wf_def)
qed

lemma udp_rx_step:
  assumes wf: "net_wf (g_net s)" and run: "udp_rx K src data len s = Some ((), s')"
  shows "rx_step s s'"
proof -
  from run consider "s' = s"
    | p l where "dhcp_rx K src p l s = Some ((), s')"
    | p l where "dns_rx src p l s = Some ((), s')"
    | p l sp dp where "\<not> l \<le> 0" "udp_deliver src sp dp p l s = Some ((), s')"
    unfolding udp_rx_def Let_def
    by (elim run_ifE run_bindE run_Some_unitE) blast+
  then show ?thesis
    using wf by cases (auto intro: dhcp_rx_rx_step dns_rx_step udp_deliver_step simp: not_le)
qed

lemma ip_rx_step:
  assumes wf: "net_wf (g_net s)" and run: "ip_rx K frame len s = Some ((), s')"
  shows "rx_step s s'"
proof -
  from run consider "s' = s"
    | u mac src s1 p l where "arp_learn K src mac s = Some (u, s1)"
      "s' = s1 \<or> icmp_rx K src p l s1 = Some ((), s') \<or> udp_rx K src p l s1 = Some ((), s')"
    unfolding ip_rx_def Let_def
    by (elim run_ifE run_bind_pairE run_bindE run_Some_unitE) blast+
  then show ?thesis
  proof cases
    case 1
    then show ?thesis by simp
  next
    case 2
    have only: "arp_only s s1" using 2(1) by (auto dest: arp_learn_only)
    then have "net_wf (g_net s1)" using wf tx_only_net_wf tx_only_arp by blast
    then have "rx_step s1 s'" using 2(2) by (auto intro: icmp_rx_step udp_rx_step)
    with only show ?thesis by (rule rx_step_after)
  qed
qed

lemma handle_frame_step:
  assumes wf: "net_wf (g_net s)" and run: "handle_frame K frame flen s = Some ((), s')"
  shows "rx_step s s'"
proof -
  from run consider "s' = s" | "ip_rx K frame (sint flen) s = Some ((), s')"
    | "arp_rx K frame (sint flen) s = Some ((), s')"
    unfolding handle_frame_def Let_def by (elim run_ifE run_bindE run_Some_unitE) blast+
  then show ?thesis
    using wf by cases (auto intro: ip_rx_step rx_step_tx tx_only_arp arp_rx_only)
qed

lemma rx_once_step:
  assumes wf: "net_wf (g_net s)" and run: "rx_once K s = Some ((), s')"
  shows "rx_step s s'"
proof -
  from run obtain n frame flen s1 where rx: "driver_rx K (junk K s 1518) 1518 s = Some ((n, frame, flen), s1)"
    and h: "(if n \<le> 0 then Some ((), s1) else handle_frame K frame flen s1) = Some ((), s')"
    unfolding rx_once_def by (auto elim!: run_bindE)
  have st: "same_statics s s1" using driver_rx_post [OF rx] by simp
  then have wf1: "net_wf (g_net s1)" using wf by (simp add: same_statics_def)
  have "rx_step s1 s'" using h handle_frame_step [OF wf1] by (auto split: if_splits)
  with st show ?thesis by (blast intro: rx_step_after arp_only_statics)
qed

section \<open>Where an address comes from\<close>

text \<open>
  Offsets in a frame: the length of the IP header, the length field of a datagram. \<open>lease_datagram p xid a\<close>: the
  datagram at \<open>p\<close> acknowledges the lease of \<open>a\<close> in the transaction \<open>xid\<close>; \<open>lease_frame\<close>: a frame with one.
\<close>

definition ihl_at :: "u8 list \<Rightarrow> nat" where
  "ihl_at frame = unat ((frame ! 14 AND 0x0F) * 4)"

definition udp_len_at :: "u8 list \<Rightarrow> nat" where
  "udp_len_at data = unat (of_be16 (take 2 (drop 4 data)))"

definition lease_datagram :: "u8 list \<Rightarrow> u32 \<Rightarrow> u32 \<Rightarrow> bool" where
  "lease_datagram p xid a \<longleftrightarrow> of_be16 (take 2 (drop 2 p)) = DHCP_PORT_CLIENT \<and>
     dhcp_reply (drop 8 p) (int (udp_len_at p) - 8) xid MSG_ACK \<and> a = dhcp_yiaddr (drop 8 p)"

definition lease_frame :: "u8 list \<Rightarrow> u32 \<Rightarrow> u32 \<Rightarrow> bool" where
  "lease_frame frame xid a \<longleftrightarrow> frame ! 12 = 8 \<and> frame ! 13 = 0 \<and> frame ! 23 = IPPROTO_UDP \<and>
     lease_datagram (drop (14 + ihl_at frame) frame) xid a"

text \<open>\<open>readdressed lease n n'\<close>: the host has its address still, or has taken that of the lease it asked for.\<close>

definition readdressed :: "(u32 \<Rightarrow> u32 \<Rightarrow> bool) \<Rightarrow> netd_state_t \<Rightarrow> netd_state_t \<Rightarrow> bool" where
  "readdressed lease n n' \<longleftrightarrow> n_ip n' = n_ip n \<or>
     n_dhcp_state n = DHCP_REQUEST \<and> n_dhcp_state n' = DHCP_BOUND \<and> lease (n_dhcp_xid n) (n_ip n')"

lemma readdressed_same [simp, intro]: "n_ip n' = n_ip n \<Longrightarrow> readdressed lease n n'"
  by (simp add: readdressed_def)

lemma readdressed_mono: "readdressed lease n n' \<Longrightarrow> (\<And>x a. lease x a \<Longrightarrow> lease' x a) \<Longrightarrow> readdressed lease' n n'"
  by (auto simp: readdressed_def)

lemma readdressed_after:
  "n_ip n1 = n_ip n \<Longrightarrow> n_dhcp_state n1 = n_dhcp_state n \<Longrightarrow> n_dhcp_xid n1 = n_dhcp_xid n \<Longrightarrow>
   readdressed lease n1 n' \<Longrightarrow> readdressed lease n n'"
  by (simp add: readdressed_def)

lemma ld16_eq: "ld16 d k = Some v \<Longrightarrow> ntohs v = of_be16 (take 2 (drop k d))"
  by (auto simp: ld16_def rd_def wire_simps split: if_splits)

lemma udp_rx_readdressed:
  assumes wf: "link_wf (g_net s)" and run: "udp_rx K src data len s = Some ((), s')"
  shows "readdressed (lease_datagram data) (g_net s) (g_net s')"
proof -
  from run consider "s' = s"
    | v l p where "ld16 data 2 = Some v" "ld16 data 4 = Some l" "adv data 8 = Some p" "ntohs v = DHCP_PORT_CLIENT"
      "dhcp_rx K src p (int (unat (ntohs l)) - 8) s = Some ((), s')"
    | p l where "dns_rx src p l s = Some ((), s')"
    | p l sp dp where "udp_deliver src sp dp p l s = Some ((), s')"
    unfolding udp_rx_def Let_def by (elim run_ifE run_bindE run_Some_unitE) blast+
  then show ?thesis
  proof cases
    case 2
    have p: "p = drop 8 data" using 2(3) by (simp add: adv_def split: if_splits)
    have "ntohs l = of_be16 (take 2 (drop 4 data))" "of_be16 (take 2 (drop 2 data)) = DHCP_PORT_CLIENT"
      using ld16_eq [OF 2(1)] ld16_eq [OF 2(2)] 2(4) by simp_all
    then show ?thesis
      using dhcp_rx_authentic [OF wf 2(5)] unfolding p
      by (auto simp: readdressed_def lease_datagram_def udp_len_at_def)
  next
    case 3
    then show ?thesis by (rule dns_rx_post) (auto simp: set_dns_done_def set_net_def)
  next
    case 4
    then have "n_ip (g_net s') = n_ip (g_net s)"
      by (auto simp: udp_deliver_def Let_def set_binds_def set_net_def elim!: run_elims split: option.splits)
    then show ?thesis ..
  qed simp
qed

lemma ip_rx_readdressed:
  assumes wf: "link_wf (g_net s)" and et: "frame ! 12 = 8" "frame ! 13 = 0"
    and run: "ip_rx K frame len s = Some ((), s')"
  shows "readdressed (lease_frame frame) (g_net s) (g_net s')"
proof -
  from run consider "s' = s"
    | ip b0 proto src mac s1 p l where "adv frame 14 = Some ip" "ld8 ip 0 = Some b0" "ld8 ip 9 = Some proto"
      "adv ip (unat ((b0 AND 0x0F) * 4)) = Some p" "arp_learn K src mac s = Some ((), s1)"
      "s' = s1 \<or> icmp_rx K src p l s1 = Some ((), s') \<or>
         proto = IPPROTO_UDP \<and> udp_rx K src p l s1 = Some ((), s')"
    unfolding ip_rx_def Let_def
    by (elim run_ifE run_bind_pairE run_bindE run_Some_unitE) (simp_all, blast+)
  then show ?thesis
  proof cases
    case 2
    have b: "b0 = frame ! 14" "proto = frame ! 23" "p = drop (14 + ihl_at frame) frame"
      using 2(1-4) by (auto simp: adv_def ld8_def ihl_at_def add.commute split: if_splits)
    have only: "arp_only s s1" using 2(5) by (rule arp_learn_only)
    then have wf1: "link_wf (g_net s1)" using wf by (rule arp_only_link_wf)
    have kept: "n_ip (g_net s1) = n_ip (g_net s)" "n_dhcp_state (g_net s1) = n_dhcp_state (g_net s)"
      "n_dhcp_xid (g_net s1) = n_dhcp_xid (g_net s)" using only by (auto elim!: arp_onlyE)
    from 2(6) have "readdressed (lease_frame frame) (g_net s1) (g_net s')"
    proof (elim disjE conjE)
      assume "icmp_rx K src p l s1 = Some ((), s')"
      then show ?thesis by (rule icmp_rx_post [OF wf1]) simp
    next
      assume "proto = IPPROTO_UDP" and u: "udp_rx K src p l s1 = Some ((), s')"
      with b et have "lease_datagram p x a \<Longrightarrow> lease_frame frame x a" for x a by (simp add: lease_frame_def)
      with udp_rx_readdressed [OF wf1 u] show ?thesis by (rule readdressed_mono)
    qed simp
    with kept show ?thesis by (rule readdressed_after)
  qed simp
qed

lemma ethertype_ip_bytes:
  assumes "push_bit 8 (ucast (a :: u8)) OR ucast (b :: u8) = ETHERTYPE_IP"
  shows "a = 8 \<and> b = 0"
proof -
  let ?x = "push_bit 8 (ucast a) OR ucast b :: u16"
  have "a = ucast (drop_bit 8 ?x)" "b = ucast ?x"
    by (rule bit_word_eqI; auto simp: bit_simps dest: bit_imp_le_length)+
  with assms show ?thesis by simp
qed

lemma handle_frame_readdressed:
  assumes wf: "link_wf (g_net s)" and run: "handle_frame K frame flen s = Some ((), s')"
  shows "readdressed (lease_frame frame) (g_net s) (g_net s')"
proof -
  let ?et = "\<lambda>a b. push_bit 8 (ucast (a :: u8)) OR ucast (b :: u8) :: u16"
  from run consider "s' = s" | "arp_rx K frame (sint flen) s = Some ((), s')"
    | a b where "ld8 frame 12 = Some a" "ld8 frame 13 = Some b" "?et a b = ETHERTYPE_IP"
      "ip_rx K frame (sint flen) s = Some ((), s')"
    unfolding handle_frame_def Let_def by (elim run_ifE run_bindE run_Some_unitE) blast+
  then show ?thesis
  proof cases
    case 2
    then show ?thesis by (auto dest!: arp_rx_only elim!: arp_onlyE)
  next
    case 3
    have "a = 8 \<and> b = 0" using 3(3) by (rule ethertype_ip_bytes)
    then have "frame ! 12 = 8" "frame ! 13 = 0" using 3(1,2) by (auto simp: ld8_def split: if_splits)
    from ip_rx_readdressed [OF wf this 3(4)] show ?thesis .
  qed simp
qed

lemma rx_once_readdressed:
  assumes wf: "net_wf (g_net s)" and run: "rx_once K s = Some ((), s')"
  obtains n frame flen s1 where "driver_rx K (junk K s 1518) 1518 s = Some ((n, frame, flen), s1)"
    "n_ip (g_net s') = n_ip (g_net s) \<or> 0 < n \<and> readdressed (lease_frame frame) (g_net s) (g_net s')"
proof -
  from run obtain n frame flen s1 where rx: "driver_rx K (junk K s 1518) 1518 s = Some ((n, frame, flen), s1)"
    and h: "(if n \<le> 0 then Some ((), s1) else handle_frame K frame flen s1) = Some ((), s')"
    unfolding rx_once_def by (auto elim!: run_bindE)
  have st: "g_net s1 = g_net s" using driver_rx_post [OF rx] by (simp add: same_statics_def)
  with net_wf_link [OF wf] have "link_wf (g_net s1)" by simp
  from handle_frame_readdressed [OF this] st h that [OF rx] show ?thesis by (auto split: if_splits)
qed

section \<open>Packets this program builds are understood\<close>

text \<open>A frame with an IP packet, for this host or before it has an address: its source is learned and
  its payload handed on, whatever follows in the array.\<close>

lemma ip_rx_frame:
  assumes mac: "length dmac = 6" "length smac = 6" and len: "34 \<le> len"
    and p: "payload \<noteq> []" "length payload < 65516"
    and us: "n_ip (g_net s) = 0 \<or> dst = n_ip (g_net s) \<or> dst = IP_BCAST"
    and t: "time_ms K s = (t, s1)"
  shows "ip_rx K (ip_frame dmac smac ident proto src dst payload @ pad) len s =
    (let s2 = set_arp (arp_store src smac t (n_arp_cache (g_net s))) s1 in
     if proto = IPPROTO_ICMP then icmp_rx K src (payload @ pad) (int (length payload)) s2
     else if proto = IPPROTO_UDP then udp_rx K src (payload @ pad) (int (length payload)) s2
     else Some ((), s2))"
proof -
  let ?n = "20 + length payload" and ?F = "ip_frame dmac smac ident proto src dst payload @ pad"
  obtain ck where ck: "ip_header (of_nat ?n) ident proto src dst =
      [0x45, 0] @ be16 (of_nat ?n) @ be16 ident @ [0, 0, 64, proto] @ ck @ be32 src @ be32 dst" "length ck = 2"
    by (auto simp: ip_header_def)
  have d14: "drop 14 ?F = [0x45, 0] @ be16 (of_nat ?n) @ be16 ident @ [0, 0, 64, proto] @ ck @ be32 src @
      be32 dst @ payload @ pad"
    using mac ck unfolding ip_frame_def by simp
  have d6: "take 6 (drop 6 ?F) = smac" "6 \<le> length (drop 6 ?F)" "14 \<le> length ?F" "6 \<le> length ?F"
    using mac by (simp_all add: ip_frame_def)
  have n: "unat (of_nat ?n :: u16) = ?n" using p(2) by (intro unat_of_nat_u16) simp
  obtain F where F: "?F = F" by blast
  have adv: "adv F 14 = Some (drop 14 F)" "adv F 6 = Some (drop 6 F)"
    using d6 unfolding F by (simp_all add: adv_def)
  have ld: "ld8 (drop 14 F) 0 = Some 0x45" "ld8 (drop 14 F) 9 = Some proto"
    "ld32 (drop 14 F) 12 = Some (of_le32 (be32 src))" "ld32 (drop 14 F) 16 = Some (of_le32 (be32 dst))"
    "ld16 (drop 14 F) 2 = Some (of_le16 (be16 (of_nat ?n)))" "adv (drop 14 F) 20 = Some (payload @ pad)"
    using d14 ck(2) unfolding F
    by (simp_all add: ld8_def ld32_def ld16_def rd_def adv_def be16_def numeral_eq_Suc)
  have learn: "arp_learn K src (drop 6 F) s =
      Some ((), set_arp (arp_store src smac t (n_arp_cache (g_net s))) s1)"
    using arp_learn_eq [OF d6(2), of K src s] d6(1) t unfolding F by simp
  have ihl: "unat (((0x45 :: u8) AND 15) * 4) = 20" by simp
  have pos: "\<not> int ?n - int 20 \<le> 0" "int ?n - int 20 = int (length payload)" using p by auto
  show ?thesis
    using len us p(1) unfolding F ip_rx_def
    by (simp only: adv ld option.case Let_def wire_simps of_be16_be16 of_be32_be32 ihl n pos learn
        Option.bind.simps prod.case if_False if_True) auto
qed

lemma udp_rx_datagram:
  assumes len: "8 \<le> len" and d: "data \<noteq> []" "length data < 65528"
  shows "udp_rx K src (udp_datagram sp dp data @ pad) len s =
    (if dp = DHCP_PORT_CLIENT then dhcp_rx K src (data @ pad) (int (length data)) s
     else if sp = DNS_PORT then dns_rx src (data @ pad) (int (length data)) s
     else udp_deliver src sp dp (data @ pad) (int (length data)) s)"
proof -
  let ?D = "udp_datagram sp dp data @ pad" and ?n = "8 + length data"
  have n: "unat (of_nat ?n :: u16) = ?n" using d(2) by (intro unat_of_nat_u16) simp
  obtain D where D: "?D = D" by blast
  have ld: "ld16 D 0 = Some (of_le16 (be16 sp))" "ld16 D 2 = Some (of_le16 (be16 dp))"
    "ld16 D 4 = Some (of_le16 (be16 (of_nat ?n)))" "adv D 8 = Some (data @ pad)"
    unfolding D [symmetric] by (simp_all add: udp_datagram_def ld16_def rd_def adv_def)
  have pos: "\<not> int ?n - 8 \<le> 0" "int ?n - 8 = int (length data)" using d by auto
  show ?thesis
    using len d(1) unfolding D udp_rx_def
    by (simp only: ld Let_def wire_simps of_be16_be16 n pos Option.bind.simps if_False) auto
qed

text \<open>
  From one host to another: the frame that \<open>udp_tx\<close> hands to the driver, received by a host that has
  the destination address and the port bound, puts the data and the sender in the port's mailbox.
\<close>

lemma udp_delivered:
  assumes wf: "net_wf (g_net s)" and mac: "length dmac = 6" "length smac = 6" and len: "34 \<le> len"
    and d: "data \<noteq> []" "length data \<le> 1458"
    and us: "dst = n_ip (g_net s)" and p: "dp \<in> dom (ports_of s)" "dp \<noteq> DHCP_PORT_CLIENT" "sp \<noteq> DNS_PORT"
  obtains s' where
    "ip_rx K (ip_frame dmac smac ident IPPROTO_UDP src dst (udp_datagram sp dp data) @ pad) len s = Some ((), s')"
    "ports_of s' = (ports_of s)(dp \<mapsto> (data, src, sp))"
    "arp_view (n_arp_cache (g_net s')) src = Some (smac, fst (time_ms K s))"
proof -
  obtain t s1 where t: "time_ms K s = (t, s1)" by fastforce
  let ?s2 = "set_arp (arp_store src smac t (n_arp_cache (g_net s))) s1"
  have b: "binds_wf (n_udp_binds (g_net s))" and ok: "arp_ok (n_arp_cache (g_net s))"
    using wf by (auto simp: net_wf_def link_wf_def arp_wf_def)
  have net2: "n_udp_binds (g_net ?s2) = n_udp_binds (g_net s)"
    using time_ms_net [OF t] by (simp add: set_arp_def set_net_def)
  let ?mb = "(data, src, sp)" and ?s' = "\<lambda>mb. set_binds (binds_put dp mb (n_udp_binds (g_net ?s2))) ?s2"
  have del: "udp_deliver src sp dp (data @ pad) (int (length data)) ?s2 = Some ((), ?s' ?mb)"
    using udp_deliver_eq [of ?s2 "int (length data)" "data @ pad" src sp dp] b d(2) by (simp add: net2)
  have "ip_rx K (ip_frame dmac smac ident IPPROTO_UDP src dst (udp_datagram sp dp data) @ pad) len s =
      udp_rx K src (udp_datagram sp dp data @ pad) (int (length (udp_datagram sp dp data))) ?s2"
    using ip_rx_frame [OF mac len _ _ _ t, of "udp_datagram sp dp data" dst ident IPPROTO_UDP src pad] us d
    by (simp add: Let_def udp_datagram_def)
  also have "\<dots> = Some ((), ?s' ?mb)"
    using udp_rx_datagram [of "int (length (udp_datagram sp dp data))" data K src sp dp pad ?s2] d p del
    by simp
  finally have run: "ip_rx K (ip_frame dmac smac ident IPPROTO_UDP src dst (udp_datagram sp dp data) @ pad) len s =
    Some ((), ?s' ?mb)" .
  have view: "ports_of (?s' ?mb) = (ports_of s)(dp \<mapsto> ?mb)"
    using ports.put_view [OF b, of ?mb dp] p(1) d(2) by (simp add: net2)
  have "arp_view (n_arp_cache (g_net (?s' ?mb))) src = Some (smac, fst (time_ms K s))"
    using ac.store_same [OF ok, of src "(smac, t)"] t by (simp add: set_binds_def set_net_def set_arp_def)
  with run view that show ?thesis by blast
qed

text \<open>The acknowledgement of a lease, broadcast in a frame, gives a host that has asked for it its address.\<close>

lemma dhcp_msg_append:
  assumes "dhcp_msg d l xid yi opl"
  shows "dhcp_msg (d @ pad) l xid yi opl"
proof -
  have l: "240 \<le> length d" "length (enc_opts opl) + 1 \<le> length d - 240"
    using assms by (auto simp: dhcp_msg_def)
  then have "d \<noteq> []" by auto
  with assms l show ?thesis by (simp add: dhcp_msg_def nth_append)
qed

lemma handle_ip_frame:
  assumes "length dmac = 6" "length smac = 6"
  shows "handle_frame K (ip_frame dmac smac ident proto src dst payload @ pad) flen s =
    ip_rx K (ip_frame dmac smac ident proto src dst payload @ pad) (sint flen) s"
proof -
  have "ld8 (ip_frame dmac smac ident proto src dst payload @ pad) 12 = Some 8"
    "ld8 (ip_frame dmac smac ident proto src dst payload @ pad) 13 = Some 0"
    using assms by (simp_all add: ip_frame_def ld8_def nth_append be16_def)
  then show ?thesis by (simp add: handle_frame_def Let_def)
qed

lemma lease_delivered:
  assumes live: "live K \<mu>" and wf: "link_wf (g_net s)" and mac: "length dmac = 6" "length smac = 6"
    and len: "34 \<le> sint flen" "length d \<le> 1458"
    and s: "n_dhcp_state (g_net s) = DHCP_REQUEST"
    and ack: "dhcp_msg d (int (length d)) (n_dhcp_xid (g_net s)) yi opl" "find_msg_type opl = MSG_ACK"
      "find_opt32 OPT_SUBNET opl = nm" "nm \<noteq> 0"
  obtains s' where "handle_frame K (ip_frame dmac smac ident IPPROTO_UDP src IP_BCAST
      (udp_datagram sp DHCP_PORT_CLIENT d) @ pad) flen s = Some ((), s')"
    "n_ip (g_net s') = yi" "n_dhcp_state (g_net s') = DHCP_BOUND"
proof -
  obtain t s1 where t: "time_ms K s = (t, s1)" by fastforce
  let ?s2 = "set_arp (arp_store src smac t (n_arp_cache (g_net s))) s1" and ?u = "udp_datagram sp DHCP_PORT_CLIENT d"
  have d: "d \<noteq> []" "length ?u < 65516" using ack(1) len(2) by (auto simp: dhcp_msg_def udp_datagram_def)
  have only: "arp_only s ?s2"
    using arp_learn_only [of K src smac s ?s2] arp_learn_eq [of smac K src s] mac t by simp
  then have kept: "link_wf (g_net ?s2)" "n_dhcp_state (g_net ?s2) = DHCP_REQUEST"
      "n_dhcp_xid (g_net ?s2) = n_dhcp_xid (g_net s)"
    using s arp_only_link_wf [OF only wf] only by (simp_all, (auto elim!: arp_onlyE))
  obtain s' where s': "dhcp_rx K src (d @ pad) (int (length d)) ?s2 = Some ((), s')"
    "g_net s' = g_net ?s2\<lparr>n_ip := yi, n_netmask := nm, n_gateway := find_opt32 OPT_ROUTER opl,
       n_dns := find_opt32 OPT_DNS opl, n_dhcp_state := DHCP_BOUND\<rparr>"
    by (rule dhcp_ack_binds [OF live kept(1,2) dhcp_msg_append [OF ack(1), folded kept(3)] ack(2-4)])
  have "handle_frame K (ip_frame dmac smac ident IPPROTO_UDP src IP_BCAST ?u @ pad) flen s =
      udp_rx K src (?u @ pad) (int (length ?u)) ?s2"
    unfolding handle_ip_frame [OF mac]
    using ip_rx_frame [OF mac len(1) _ d(2) _ t, of IP_BCAST ident IPPROTO_UDP src pad]
    by (simp add: Let_def udp_datagram_def)
  also have "\<dots> = Some ((), s')"
    using udp_rx_datagram [of "int (length ?u)" d K src sp DHCP_PORT_CLIENT pad ?s2] d(1) len(2) s'(1)
    by (simp add: udp_datagram_def)
  finally show ?thesis using s'(2) that by simp
qed

section \<open>Which packets are handled within bounds\<close>

lemma udp_rx_returns:
  assumes live: "live K \<mu>" and wf: "net_wf (g_net s)"
    and len: "8 \<le> length data" "udp_len_at data + 4 \<le> length data"
  obtains s' where "udp_rx K src data len s = Some ((), s')"
proof -
  let ?l = "int (udp_len_at data) - 8"
  obtain sp dp where ld: "ld16 data 0 = Some sp" "ld16 data 2 = Some dp"
    "ld16 data 4 = Some (of_le16 (take 2 (drop 4 data)))" "adv data 8 = Some (drop 8 data)"
    using len(1) by (auto simp: ld16_def rd_def adv_def)
  have ul: "uint (of_be16 (take 2 (drop 4 data))) = int (udp_len_at data)"
    by (simp add: udp_len_at_def)
  have "\<exists>s'. udp_rx K src data len s = Some ((), s')"
  proof (cases "len < 8 \<or> ?l \<le> 0")
    case True
    then show ?thesis by (auto simp: udp_rx_def ld ul Let_def wire_simps)
  next
    case False
    then have l: "?l + 4 \<le> int (length (drop 8 data))" "?l \<le> int (length (drop 8 data))"
      using len by auto
    obtain s1 where "dhcp_rx K src (drop 8 data) ?l s = Some ((), s1)"
      by (rule dhcp_rx_returns [OF live net_wf_link [OF wf] l(1)])
    moreover obtain s2 where "dns_rx src (drop 8 data) ?l s = Some ((), s2)"
      by (rule dns_rx_returns [OF l(2)])
    moreover have "\<exists>s3. udp_deliver src a b (drop 8 data) ?l s = Some ((), s3)" for a b
      using udp_deliver_eq [of s ?l "drop 8 data" src a b] wf False l(2) by (auto simp: net_wf_def)
    ultimately show ?thesis using False by (simp add: udp_rx_def ld ul Let_def wire_simps)
  qed
  then show ?thesis using that by blast
qed

lemma udp_rx_overread:
  assumes "8 \<le> len" "8 \<le> length data" "dp \<in> dom (ports_of s)" "dp \<noteq> DHCP_PORT_CLIENT" "sp \<noteq> DNS_PORT"
    and "take 2 data = be16 sp" "take 2 (drop 2 data) = be16 dp"
    and "length data < udp_len_at data" "length data < 8 + UDP_RXBUF_SIZE"
  shows "udp_rx K src data len s = None"
proof -
  let ?l = "int (udp_len_at data) - 8"
  have ld: "ld16 data 0 = Some (of_le16 (be16 sp))" "ld16 data 2 = Some (of_le16 (be16 dp))"
    "ld16 data 4 = Some (of_le16 (take 2 (drop 4 data)))" "adv data 8 = Some (drop 8 data)"
    using assms by (auto simp: ld16_def rd_def adv_def)
  have ul: "uint (of_be16 (take 2 (drop 4 data))) = int (udp_len_at data)"
    by (simp add: udp_len_at_def)
  have "udp_deliver src sp dp (drop 8 data) ?l s = None"
    using assms by (intro udp_deliver_overread) auto
  then show ?thesis using assms by (simp add: udp_rx_def ld ul Let_def wire_simps)
qed

text \<open>
  The lengths of an IP packet in the frame array of 1518 bytes agree: the total length is one of a frame, and
  the length of a datagram ends inside it.
\<close>

definition tot_len_at :: "u8 list \<Rightarrow> nat" where
  "tot_len_at frame = unat (of_be16 (take 2 (drop 16 frame)))"

definition ip_sane :: "u8 list \<Rightarrow> bool" where
  "ip_sane frame \<longleftrightarrow> tot_len_at frame \<le> 1500 \<and>
     (frame ! 23 = IPPROTO_UDP \<longrightarrow> udp_len_at (drop (14 + ihl_at frame) frame) + ihl_at frame \<le> tot_len_at frame)"

lemma ihl_at_le: "ihl_at frame \<le> 60"
proof -
  let ?n = "frame ! 14 AND 0x0F"
  have "?n \<le> 0x0F" by (rule word_and_le1)
  then have n: "unat ?n \<le> 15" by (simp add: word_le_nat_alt)
  then have "unat (?n * 4) = unat ?n * 4" by (simp add: unat_word_ariths)
  with n show ?thesis by (simp add: ihl_at_def)
qed

lemma ip_rx_returns:
  assumes live: "live K \<mu>" and wf: "net_wf (g_net s)"
    and frame: "length frame = 1518" "ip_sane frame"
    and echo: "frame ! 23 = IPPROTO_ICMP \<Longrightarrow> frame ! (14 + ihl_at frame) = ICMP_ECHO_REQ \<Longrightarrow>
      tot_len_at frame \<le> ihl_at frame + 1466"
  obtains s' where "ip_rx K frame len s = Some ((), s')"
proof -
  let ?ihl = "ihl_at frame" and ?tot = "tot_len_at frame"
  let ?p = "drop (14 + ?ihl) frame" and ?l = "int (tot_len_at frame) - int (ihl_at frame)"
  have ihl: "?ihl \<le> 60" by (rule ihl_at_le)
  obtain b9 src dst where ld: "adv frame 14 = Some (drop 14 frame)" "ld8 (drop 14 frame) 0 = Some (frame ! 14)"
    "ld8 (drop 14 frame) 9 = Some (frame ! 23)" "ld32 (drop 14 frame) 12 = Some src"
    "ld32 (drop 14 frame) 16 = Some dst" "ld16 (drop 14 frame) 2 = Some (of_le16 (take 2 (drop 16 frame)))"
    "adv (drop 14 frame) ?ihl = Some ?p" "adv frame 6 = Some (drop 6 frame)"
    using frame(1) ihl by (auto simp: ld8_def ld16_def ld32_def rd_def adv_def add.commute)
  have l: "uint (of_be16 (take 2 (drop 16 frame))) = int ?tot"
    "uint ((frame ! 14 AND 0x0F) * 4) = int ?ihl" "unat ((frame ! 14 AND 0x0F) * 4) = ?ihl"
    by (simp_all add: tot_len_at_def ihl_at_def)
  obtain t s1 where t: "time_ms K s = (t, s1)" by fastforce
  obtain s2 where learn: "arp_learn K (ntohl src) (drop 6 frame) s = Some ((), s2)"
    using arp_learn_eq [of "drop 6 frame" K "ntohl src" s] frame(1) t by simp
  have wf2: "net_wf (g_net s2)"
    using arp_learn_only [OF learn] wf tx_only_net_wf tx_only_arp by blast
  have icmp: "\<exists>s'. icmp_rx K (ntohl src) ?p ?l s2 = Some ((), s')" if "frame ! 23 = IPPROTO_ICMP"
  proof -
    have "nat ?l \<le> length ?p" using frame ihl by (auto simp: ip_sane_def)
    moreover have "?l \<le> 1466" if "?p ! 0 = ICMP_ECHO_REQ"
      using echo [OF \<open>frame ! 23 = IPPROTO_ICMP\<close>] that frame(1) ihl by simp
    ultimately show ?thesis using icmp_rx_returns [OF live net_wf_link [OF wf2]] by metis
  qed
  have udp: "\<exists>s'. udp_rx K (ntohl src) ?p ?l s2 = Some ((), s')" if "frame ! 23 = IPPROTO_UDP"
  proof -
    have "8 \<le> length ?p" "udp_len_at ?p + 4 \<le> length ?p" using frame that ihl by (auto simp: ip_sane_def)
    then show ?thesis using udp_rx_returns [OF live wf2] by metis
  qed
  have "\<exists>s'. ip_rx K frame len s = Some ((), s')"
    using icmp udp by (auto simp: ip_rx_def ld l Let_def learn wire_simps)
  then show ?thesis using that by blast
qed

end
