(* ===== verification/Resolve.thy ===== *)
theory Resolve
  imports Rx
begin

text \<open>
  \<open>dns_resolve\<close> of \<open>src/dns.c\<close>: a query, then a loop that polls the NIC and handles every frame until
  an answer has come or three seconds have passed. The loop may run for ever if the clock stands
  still, so that it is a \<open>partial_function\<close>.
\<close>

section \<open>Model\<close>

definition DNS_MAX_WAIT_MS :: u64 where [simp]: "DNS_MAX_WAIT_MS = 3000"

partial_function (option) dns_wait :: "'w kernel \<Rightarrow> u64 \<Rightarrow> 'w machine \<Rightarrow> 'w machine option" where
  "dns_wait K deadline s =
     (case time_ms K s of (t, s) \<Rightarrow>
        if t < deadline then do {
          ((n, frame, flen), s) \<leftarrow> driver_rx K (junk K s 1518) 1518 s;
          (_, s) \<leftarrow> (if 0 < n then handle_frame K frame flen s else Some ((), s));
          if n_dns_done (g_net s) \<noteq> 0 then Some s else dns_wait K deadline (yield K s)
        } else Some s)"

text \<open>The result is the return value and, for 0, the address stored through \<open>ip_out\<close>.\<close>

definition dns_resolve ::
  "'w kernel \<Rightarrow> u8 list \<Rightarrow> 'w machine \<Rightarrow> ((int \<times> u32 option) \<times> 'w machine) option" where
  "dns_resolve K name s =
     (if n_dns (g_net s) = 0 \<or> n_ip (g_net s) = 0 then Some ((-1, None), s)
      else do {
        let (t, s) = time_ms K s;
        let s = set_net (g_net s\<lparr>n_dns_txid := ucast (t AND 0xFFFF), n_dns_done := 0, n_dns_result := 0\<rparr>) s;
        (qlen, query) \<leftarrow> dns_build_query (junk K s 256) 256 (n_dns_txid (g_net s)) name;
        if qlen < 0 then Some ((-1, None), s)
        else do {
          (_, s) \<leftarrow> udp_tx K (n_dns (g_net s)) 1053 DNS_PORT query (of_int qlen) s;
          let (t, s) = time_ms K s;
          s \<leftarrow> dns_wait K (t + DNS_MAX_WAIT_MS) s;
          if n_dns_done (g_net s) = 1 then Some ((0, Some (n_dns_result (g_net s))), s)
          else Some ((-1, None), s)
        }
      })"

section \<open>What the loop does to the state\<close>

text \<open>The frames handled while waiting are received as at any other time.\<close>

lemma rx_once_eq:
  "rx_once K s = do {
     ((n, frame, flen), s) \<leftarrow> driver_rx K (junk K s 1518) 1518 s;
     if 0 < n then handle_frame K frame flen s else Some ((), s)
   }"
proof -
  have "(if n \<le> 0 then a else b) = (if 0 < n then b else a)" for n :: int and a b :: "(unit \<times> 'a machine) option"
    by auto
  then show ?thesis by (simp add: rx_once_def)
qed

definition rx_steps :: "'w machine \<Rightarrow> 'w machine \<Rightarrow> bool" where
  "rx_steps = rx_step\<^sup>*\<^sup>*"

lemma rx_steps_refl [simp, intro]: "rx_steps s s"
  by (simp add: rx_steps_def)

lemma rx_steps_step: "rx_step s t \<Longrightarrow> rx_steps t u \<Longrightarrow> rx_steps s u"
  unfolding rx_steps_def by (rule converse_rtranclp_into_rtranclp)

lemma rx_steps_one: "rx_step s t \<Longrightarrow> rx_steps s t"
  unfolding rx_steps_def by (rule r_into_rtranclp)

lemma rx_steps_trans: "rx_steps s t \<Longrightarrow> rx_steps t u \<Longrightarrow> rx_steps s u"
  unfolding rx_steps_def by (rule rtranclp_trans)

lemma rx_steps_net_wf: "rx_steps s t \<Longrightarrow> net_wf (g_net s) \<Longrightarrow> net_wf (g_net t)"
  unfolding rx_steps_def by (induction rule: rtranclp_induct) (auto simp: rx_step_def)

lemma rx_steps_fd: "rx_steps s t \<Longrightarrow> n_fd (g_net t) = n_fd (g_net s) \<and> n_mac (g_net t) = n_mac (g_net s)"
  unfolding rx_steps_def by (induction rule: rtranclp_induct) (auto simp: rx_step_def)

lemma rx_steps_dhcp: "rx_steps s t \<Longrightarrow> dhcp_step\<^sup>*\<^sup>* (n_dhcp_state (g_net s)) (n_dhcp_state (g_net t))"
  unfolding rx_steps_def
  by (induction rule: rtranclp_induct) (auto simp: rx_step_def intro: rtranclp.rtrancl_into_rtrancl)

lemma rx_steps_statics: "same_statics s t \<Longrightarrow> rx_steps s t"
  by (intro rx_steps_one rx_step_statics)

text \<open>
  \<open>keeps s s'\<close>: what any operation of the running daemon does to the state: it keeps the invariant, the
  device and its address, and moves the DHCP machine by its steps.
\<close>

definition keeps :: "'w machine \<Rightarrow> 'w machine \<Rightarrow> bool" where
  "keeps s s' \<longleftrightarrow> (net_wf (g_net s) \<longrightarrow> net_wf (g_net s')) \<and>
     n_fd (g_net s') = n_fd (g_net s) \<and> n_mac (g_net s') = n_mac (g_net s) \<and>
     dhcp_step\<^sup>*\<^sup>* (n_dhcp_state (g_net s)) (n_dhcp_state (g_net s'))"

lemma keepsI:
  assumes "net_wf (g_net s) \<Longrightarrow> net_wf (g_net s')" "n_dhcp_state (g_net s') = n_dhcp_state (g_net s)"
    "n_fd (g_net s') = n_fd (g_net s)" "n_mac (g_net s') = n_mac (g_net s)"
  shows "keeps s s'"
  using assms by (simp add: keeps_def)

lemma keeps_refl [simp, intro]: "keeps s s"
  by (simp add: keeps_def)

lemma keeps_trans [trans]: "keeps s t \<Longrightarrow> keeps t u \<Longrightarrow> keeps s u"
  by (auto simp: keeps_def)

lemma keeps_rx_steps: "rx_steps s s' \<Longrightarrow> keeps s s'"
  using rx_steps_net_wf rx_steps_fd rx_steps_dhcp by (auto simp: keeps_def)

lemma keeps_tx: "tx_only s s' \<Longrightarrow> keeps s s'"
  by (intro keeps_rx_steps rx_steps_one rx_step_tx)

lemma keeps_statics: "same_statics s s' \<Longrightarrow> keeps s s'"
  by (intro keeps_rx_steps rx_steps_statics)

lemma keeps_net_wf: "keeps s s' \<Longrightarrow> net_wf (g_net s) \<Longrightarrow> net_wf (g_net s')"
  by (simp add: keeps_def)

definition wait_post :: "'w machine \<Rightarrow> 'w machine \<Rightarrow> bool" where
  "wait_post s s' \<longleftrightarrow> (net_wf (g_net s) \<longrightarrow> rx_steps s s')"

lemma dns_wait_post:
  assumes "dns_wait K deadline s = Some s'"
  shows "wait_post s s'"
proof (rule dns_wait.raw_induct [where P = "\<lambda>K deadline s. wait_post s", OF _ assms])
  fix f :: "'b kernel \<Rightarrow> u64 \<Rightarrow> 'b machine \<Rightarrow> 'b machine option" and K deadline s s'
  assume IH: "\<And>K deadline s s'. f K deadline s = Some s' \<Longrightarrow> wait_post s s'"
    and eq: "(case time_ms K s of (t, s) \<Rightarrow>
        if t < deadline then do {
          ((n, frame, flen), s) \<leftarrow> driver_rx K (junk K s 1518) 1518 s;
          (_, s) \<leftarrow> (if 0 < n then handle_frame K frame flen s else Some ((), s));
          if n_dns_done (g_net s) \<noteq> 0 then Some s else f K deadline (yield K s)
        } else Some s) = Some s'"
  obtain t s1 where t: "time_ms K s = (t, s1)" by fastforce
  have st1: "same_statics s s1" using t by (rule time_ms_statics)
  show "wait_post s s'"
  proof (cases "t < deadline")
    case False
    with eq t st1 show ?thesis by (auto simp: wait_post_def intro: rx_steps_statics)
  next
    case True
    with eq t obtain s2 where rx: "rx_once K s1 = Some ((), s2)"
      and rest: "(if n_dns_done (g_net s2) \<noteq> 0 then Some s2 else f K deadline (yield K s2)) = Some s'"
      unfolding rx_once_eq by (auto elim!: run_bindE split: if_splits)
    show ?thesis unfolding wait_post_def
    proof
      assume wf: "net_wf (g_net s)"
      have wf1: "net_wf (g_net s1)" using wf st1 by (simp add: same_statics_def)
      have step: "rx_step s1 s2" using rx_once_step [OF wf1 rx] .
      have wf2: "net_wf (g_net s2)" using step wf1 by (simp add: rx_step_def)
      have "rx_steps s2 s'"
      proof (cases "n_dns_done (g_net s2) = 0")
        case False
        with rest show ?thesis by simp
      next
        case True
        then have "wait_post (yield K s2) s'" using rest IH by simp
        moreover have "net_wf (g_net (yield K s2))" using wf2 by (simp add: yield_def)
        ultimately have "rx_steps (yield K s2) s'" by (simp add: wait_post_def)
        with rx_steps_statics [OF yield_statics] show ?thesis by (rule rx_steps_trans)
      qed
      with step have "rx_steps s1 s'" by (rule rx_steps_step)
      with rx_steps_statics [OF st1] show "rx_steps s s'" by (rule rx_steps_trans)
    qed
  qed
qed

lemma dns_resolve_no_config:
  "n_dns (g_net s) = 0 \<or> n_ip (g_net s) = 0 \<Longrightarrow> dns_resolve K name s = Some ((-1, None), s)"
  by (simp add: dns_resolve_def)

lemma dns_resolve_too_long:
  assumes "n_dns (g_net s) \<noteq> 0" "n_ip (g_net s) \<noteq> 0" "\<forall>l\<in>set ls. label_ok l" "ls \<noteq> []"
    and "256 \<le> length (dns_query 0 ls)"
  shows "\<exists>s'. dns_resolve K (dotted ls @ 0 # r) s = Some ((-1, None), s')"
proof -
  obtain t s1 where t: "time_ms K s = (t, s1)" by fastforce
  have q: "\<exists>b. dns_build_query buf 256 txid (dotted ls @ 0 # r) = Some (-1, b)" if "length buf = 256" for buf txid
    using dns_build_query_too_long [OF assms(3,4), of 256 buf txid r] assms(5) that
    by (simp add: dns_query_length)
  let ?s2 = "set_net (g_net s1\<lparr>n_dns_txid := ucast (t AND 0xFFFF), n_dns_done := 0, n_dns_result := 0\<rparr>) s1"
  obtain b where "dns_build_query (junk K ?s2 256) 256 (n_dns_txid (g_net ?s2)) (dotted ls @ 0 # r) = Some (-1, b)"
    using q [OF length_junk] by blast
  with assms(1,2) t show ?thesis by (simp add: dns_resolve_def Let_def)
qed

text \<open>
  A resolution that returns has only received frames and sent one query: the invariant holds after it.
  It returns 0 exactly with an address, which is the one an answer put into the global.
\<close>

lemma dns_resolve_post:
  assumes wf: "net_wf (g_net s)" and run: "dns_resolve K name s = Some ((rc, a), s')"
  shows "keeps s s'" "rc = 0 \<or> rc = -1"
    "rc = 0 \<longleftrightarrow> a \<noteq> None" "rc = 0 \<Longrightarrow> a = Some (n_dns_result (g_net s')) \<and> n_dns_done (g_net s') = 1"
proof -
  obtain t s1 where t: "time_ms K s = (t, s1)" by fastforce
  let ?s2 = "set_net (g_net s1\<lparr>n_dns_txid := ucast (t AND 0xFFFF), n_dns_done := 0, n_dns_result := 0\<rparr>) s1"
  have wf2: "net_wf (g_net ?s2)"
    using wf time_ms_net [OF t] by (simp add: net_wf_def link_wf_def set_net_def)
  have k2: "keeps s ?s2"
    using time_ms_net [OF t] by (intro keepsI) (auto simp: set_net_def net_wf_def link_wf_def)
  from run consider "(rc, a) = (-1, None)" "s' = s"
    | "(rc, a) = (-1, None)" "s' = ?s2"
    | d q l st s3 t' s4 s5 where "udp_tx K d 1053 DNS_PORT q l ?s2 = Some (st, s3)"
      "time_ms K s3 = (t', s4)" "dns_wait K (t' + DNS_MAX_WAIT_MS) s4 = Some s5"
      "(if n_dns_done (g_net s5) = 1 then Some ((0, Some (n_dns_result (g_net s5))), s5)
        else Some ((-1, None), s5)) = Some ((rc, a), s')"
    unfolding dns_resolve_def Let_def
    by (elim run_ifE run_caseE run_bind_pairE run_bindE) (use t in \<open>simp; blast\<close>)+
  then have "keeps s s' \<and> (rc = 0 \<or> rc = -1) \<and> (rc = 0 \<longleftrightarrow> a \<noteq> None) \<and>
    (rc = 0 \<longrightarrow> a = Some (n_dns_result (g_net s')) \<and> n_dns_done (g_net s') = 1)"
  proof cases
    case 1
    then show ?thesis by simp
  next
    case 2
    with k2 show ?thesis by simp
  next
    case 3
    have "tx_only ?s2 s3" using udp_tx_only [OF net_wf_link [OF wf2] 3(1)] .
    then have k3: "keeps s s3" using k2 by (blast intro: keeps_tx keeps_trans)
    have k4: "keeps s s4" using k3 time_ms_statics [OF 3(2)] by (blast intro: keeps_statics keeps_trans)
    then have "keeps s s5"
      using dns_wait_post [OF 3(3)] wf
      by (auto simp: wait_post_def dest: keeps_net_wf keeps_rx_steps intro: keeps_trans)
    with 3(4) show ?thesis by (auto split: if_splits)
  qed
  then show "keeps s s'" "rc = 0 \<or> rc = -1" "rc = 0 \<longleftrightarrow> a \<noteq> None"
    "rc = 0 \<Longrightarrow> a = Some (n_dns_result (g_net s')) \<and> n_dns_done (g_net s') = 1" by auto
qed

end
