(* ===== verification/Api_Types.thy ===== *)
theory Api_Types
  imports Netd_State
begin

text \<open>
  The structures of \<open>src/api.c\<close>, which the daemon and its clients exchange through the node: every one is packed, its
  fields follow each other in the byte order of the host. \<open>put_\<dots>\<close> gives the bytes of a structure, \<open>get_\<dots>\<close> reads one
  through a pointer. \<open>examples/netd_client_test.c\<close> declares some of them again.
\<close>

section \<open>Model: commands\<close>

definition NETD_CMD_GET_INFO :: u32 where [simp]: "NETD_CMD_GET_INFO = 1"
definition NETD_CMD_PING :: u32 where [simp]: "NETD_CMD_PING = 2"
definition NETD_CMD_UDP_SEND :: u32 where [simp]: "NETD_CMD_UDP_SEND = 3"
definition NETD_CMD_UDP_RECV :: u32 where [simp]: "NETD_CMD_UDP_RECV = 4"
definition NETD_CMD_UDP_BIND :: u32 where [simp]: "NETD_CMD_UDP_BIND = 5"
definition NETD_CMD_UDP_UNBIND :: u32 where [simp]: "NETD_CMD_UDP_UNBIND = 6"
definition NETD_CMD_DNS_RESOLVE :: u32 where [simp]: "NETD_CMD_DNS_RESOLVE = 7"
definition NETD_CMD_ARP_LOOKUP :: u32 where [simp]: "NETD_CMD_ARP_LOOKUP = 8"
definition NETD_CMD_ARP_FLUSH :: u32 where [simp]: "NETD_CMD_ARP_FLUSH = 9"
definition NETD_CMD_SET_IP :: u32 where [simp]: "NETD_CMD_SET_IP = 10"

section \<open>Model: requests\<close>

record netd_req_hdr_t =
  rq_cmd :: u32

definition put_req_hdr :: "netd_req_hdr_t \<Rightarrow> u8 list" where
  "put_req_hdr r = le32 (rq_cmd r)"

definition get_req_hdr :: "u8 list \<Rightarrow> netd_req_hdr_t option" where
  "get_req_hdr p = do { cmd \<leftarrow> ld32 p 0; Some \<lparr>rq_cmd = cmd\<rparr> }"

record netd_ping_req_t =
  pr_ip :: u32
  pr_count :: u16
  pr_timeout_ms :: u16

definition put_ping_req :: "netd_ping_req_t \<Rightarrow> u8 list" where
  "put_ping_req r = le32 (pr_ip r) @ le16 (pr_count r) @ le16 (pr_timeout_ms r)"

definition get_ping_req :: "u8 list \<Rightarrow> netd_ping_req_t option" where
  "get_ping_req p = do {
     ip \<leftarrow> ld32 p 0;
     count \<leftarrow> ld16 p 4;
     timeout_ms \<leftarrow> ld16 p 6;
     Some \<lparr>pr_ip = ip, pr_count = count, pr_timeout_ms = timeout_ms\<rparr>
   }"

record netd_udp_send_req_t =
  us_dst_ip :: u32
  us_src_port :: u16
  us_dst_port :: u16
  us_len :: u16
  us_data :: "u8 list"

definition put_udp_send_req :: "netd_udp_send_req_t \<Rightarrow> u8 list" where
  "put_udp_send_req r = le32 (us_dst_ip r) @ le16 (us_src_port r) @ le16 (us_dst_port r) @ le16 (us_len r) @ us_data r"

definition get_udp_send_req :: "u8 list \<Rightarrow> netd_udp_send_req_t option" where
  "get_udp_send_req p = do {
     dst_ip \<leftarrow> ld32 p 0;
     src_port \<leftarrow> ld16 p 4;
     dst_port \<leftarrow> ld16 p 6;
     len \<leftarrow> ld16 p 8;
     data \<leftarrow> rd p 10 1472;
     Some \<lparr>us_dst_ip = dst_ip, us_src_port = src_port, us_dst_port = dst_port, us_len = len, us_data = data\<rparr>
   }"

record netd_udp_bind_req_t =
  bq_port :: u16

definition put_udp_bind_req :: "netd_udp_bind_req_t \<Rightarrow> u8 list" where
  "put_udp_bind_req r = le16 (bq_port r)"

definition get_udp_bind_req :: "u8 list \<Rightarrow> netd_udp_bind_req_t option" where
  "get_udp_bind_req p = do { port \<leftarrow> ld16 p 0; Some \<lparr>bq_port = port\<rparr> }"

record netd_udp_recv_req_t =
  vq_port :: u16
  vq_max_len :: u16

definition put_udp_recv_req :: "netd_udp_recv_req_t \<Rightarrow> u8 list" where
  "put_udp_recv_req r = le16 (vq_port r) @ le16 (vq_max_len r)"

definition get_udp_recv_req :: "u8 list \<Rightarrow> netd_udp_recv_req_t option" where
  "get_udp_recv_req p = do { port \<leftarrow> ld16 p 0; max_len \<leftarrow> ld16 p 2; Some \<lparr>vq_port = port, vq_max_len = max_len\<rparr> }"

record netd_dns_req_t =
  dq_name :: "u8 list"

definition get_dns_req :: "u8 list \<Rightarrow> netd_dns_req_t option" where
  "get_dns_req p = do { name \<leftarrow> rd p 0 256; Some \<lparr>dq_name = name\<rparr> }"

record netd_arp_req_t =
  aq_ip :: u32

definition put_arp_req :: "netd_arp_req_t \<Rightarrow> u8 list" where
  "put_arp_req r = le32 (aq_ip r)"

definition get_arp_req :: "u8 list \<Rightarrow> netd_arp_req_t option" where
  "get_arp_req p = do { ip \<leftarrow> ld32 p 0; Some \<lparr>aq_ip = ip\<rparr> }"

record netd_setip_req_t =
  sq_ip :: u32
  sq_netmask :: u32
  sq_gateway :: u32
  sq_dns :: u32

definition put_setip_req :: "netd_setip_req_t \<Rightarrow> u8 list" where
  "put_setip_req r = le32 (sq_ip r) @ le32 (sq_netmask r) @ le32 (sq_gateway r) @ le32 (sq_dns r)"

definition get_setip_req :: "u8 list \<Rightarrow> netd_setip_req_t option" where
  "get_setip_req p = do {
     ip \<leftarrow> ld32 p 0;
     netmask \<leftarrow> ld32 p 4;
     gateway \<leftarrow> ld32 p 8;
     dns \<leftarrow> ld32 p 12;
     Some \<lparr>sq_ip = ip, sq_netmask = netmask, sq_gateway = gateway, sq_dns = dns\<rparr>
   }"

section \<open>Model: replies\<close>

record netd_info_t =
  in_mac :: "u8 list"
  in_ip :: u32
  in_netmask :: u32
  in_gateway :: u32
  in_dns :: u32
  in_mtu :: u32
  in_link_up :: u32
  in_dhcp_bound :: u32

definition put_info :: "netd_info_t \<Rightarrow> u8 list" where
  "put_info r = in_mac r @ le32 (in_ip r) @ le32 (in_netmask r) @ le32 (in_gateway r) @ le32 (in_dns r) @
     le32 (in_mtu r) @ le32 (in_link_up r) @ le32 (in_dhcp_bound r)"

record netd_ping_rep_t =
  pp_replied :: u32
  pp_reply_ip :: u32

definition put_ping_rep :: "netd_ping_rep_t \<Rightarrow> u8 list" where
  "put_ping_rep r = le32 (pp_replied r) @ le32 (pp_reply_ip r)"

definition get_ping_rep :: "u8 list \<Rightarrow> netd_ping_rep_t option" where
  "get_ping_rep p = do { replied \<leftarrow> ld32 p 0; ip \<leftarrow> ld32 p 4; Some \<lparr>pp_replied = replied, pp_reply_ip = ip\<rparr> }"

record netd_udp_recv_rep_t =
  vr_src_ip :: u32
  vr_src_port :: u16
  vr_len :: u16
  vr_data :: "u8 list"

definition put_udp_recv_rep :: "netd_udp_recv_rep_t \<Rightarrow> u8 list" where
  "put_udp_recv_rep r = le32 (vr_src_ip r) @ le16 (vr_src_port r) @ le16 (vr_len r) @ vr_data r"

record netd_dns_rep_t =
  dr_ip :: u32

definition put_dns_rep :: "netd_dns_rep_t \<Rightarrow> u8 list" where
  "put_dns_rep r = le32 (dr_ip r)"

definition get_dns_rep :: "u8 list \<Rightarrow> netd_dns_rep_t option" where
  "get_dns_rep p = do { ip \<leftarrow> ld32 p 0; Some \<lparr>dr_ip = ip\<rparr> }"

record netd_arp_rep_t =
  ar_mac :: "u8 list"
  ar_found :: u32

definition put_arp_rep :: "netd_arp_rep_t \<Rightarrow> u8 list" where
  "put_arp_rep r = ar_mac r @ le32 (ar_found r)"

text \<open>The envelope of every reply, with 1500 bytes of data.\<close>

definition REP_DATA_SIZE :: nat where [simp]: "REP_DATA_SIZE = 1500"

record netd_rep_t =
  rep_status :: u32
  rep_len :: u32
  rep_data :: "u8 list"

definition put_rep :: "netd_rep_t \<Rightarrow> u8 list" where
  "put_rep r = le32 (rep_status r) @ le32 (rep_len r) @ rep_data r"

definition get_rep :: "u8 list \<Rightarrow> netd_rep_t option" where
  "get_rep p = do {
     status \<leftarrow> ld32 p 0;
     len \<leftarrow> ld32 p 4;
     data \<leftarrow> rd p 8 REP_DATA_SIZE;
     Some \<lparr>rep_status = status, rep_len = len, rep_data = data\<rparr>
   }"

lemmas get_defs = get_req_hdr_def get_ping_req_def get_udp_send_req_def get_udp_bind_req_def get_udp_recv_req_def
  get_dns_req_def get_arp_req_def get_setip_req_def get_ping_rep_def get_dns_rep_def get_rep_def

lemmas put_defs = put_req_hdr_def put_ping_req_def put_udp_send_req_def put_udp_bind_req_def put_udp_recv_req_def
  put_arp_req_def put_setip_req_def put_info_def put_ping_rep_def put_udp_recv_rep_def put_dns_rep_def put_arp_rep_def
  put_rep_def

section \<open>Round trips\<close>

text \<open>What one side writes, the other reads, whatever follows in memory; and every structure has its size.\<close>

lemma requests_round_trip:
  "get_req_hdr (put_req_hdr h @ z) = Some h"
  "get_ping_req (put_ping_req pr @ z) = Some pr"
  "length (us_data us) = 1472 \<Longrightarrow> get_udp_send_req (put_udp_send_req us @ z) = Some us"
  "get_udp_bind_req (put_udp_bind_req bq @ z) = Some bq"
  "get_udp_recv_req (put_udp_recv_req vq @ z) = Some vq"
  "length (dq_name dq) = 256 \<Longrightarrow> get_dns_req (dq_name dq @ z) = Some dq"
  "get_arp_req (put_arp_req aq @ z) = Some aq"
  "get_setip_req (put_setip_req sq @ z) = Some sq"
  by (simp_all add: get_defs put_defs ld32_def ld16_def rd_def)

lemma replies_round_trip:
  "get_ping_rep (put_ping_rep pp @ z) = Some pp"
  "get_dns_rep (put_dns_rep dr @ z) = Some dr"
  "length (rep_data r) = 1500 \<Longrightarrow> get_rep (put_rep r @ z) = Some r"
  by (simp_all add: get_defs put_defs ld32_def ld16_def rd_def)

lemma get_put_rep: "length (rep_data r) = 1500 \<Longrightarrow> get_rep (put_rep r) = Some r"
  using replies_round_trip(3) [of r "[]"] by simp

lemma put_lengths:
  "length (put_req_hdr h) = 4" "length (put_ping_req pr) = 8" "length (put_udp_bind_req bq) = 2"
  "length (us_data us) = 1472 \<Longrightarrow> length (put_udp_send_req us) = 1482"
  "length (put_udp_recv_req vq) = 4" "length (put_arp_req aq) = 4" "length (put_setip_req sq) = 16"
  "length (in_mac n) = 6 \<Longrightarrow> length (put_info n) = 34" "length (put_ping_rep pp) = 8"
  "length (vr_data vr) = 1472 \<Longrightarrow> length (put_udp_recv_rep vr) = 1480" "length (put_dns_rep dr) = 4"
  "length (ar_mac ar) = 6 \<Longrightarrow> length (put_arp_rep ar) = 10"
  by (simp_all add: put_defs)

end
