(* ===== verification/Api.thy ===== *)
theory Api
  imports Resolve Api_Types
begin

text \<open>
  \<open>src/api.c\<close>: the requests that clients make through the node of the daemon, in packed structures in
  the byte order of the host (\<open>Api_Types\<close>). The reply \<open>g_rep\<close> is cleared by every request and read only inside it, so
  that it is a value here: a status, and the bytes copied to its data area, whose number is the length
  field.
\<close>

section \<open>Model\<close>

type_synonym api_result = "int \<times> u8 list"

definition cmd_get_info :: "'w machine \<Rightarrow> (api_result \<times> 'w machine) option" where
  "cmd_get_info s = do {
     let n = g_net s;
     mac \<leftarrow> rd (n_mac n) 0 6;
     Some ((0, put_info \<lparr>in_mac = mac, in_ip = n_ip n, in_netmask = n_netmask n, in_gateway = n_gateway n,
         in_dns = n_dns n, in_mtu = n_mtu n, in_link_up = n_link_up n, in_dhcp_bound = (if dhcp_bound s then 1 else 0)\<rparr>), s)
   }"

text \<open>The wait for an echo reply, and the requests with their waits: \<open>rep\<close> is what was replied so far.\<close>

partial_function (option) ping_wait :: "'w kernel \<Rightarrow> u64 \<Rightarrow> 'w machine \<Rightarrow> 'w machine option" where
  "ping_wait K deadline s =
     (case time_ms K s of (t, s) \<Rightarrow>
        if t < deadline \<and> \<not> n_ping_replied (g_net s) then ping_wait K deadline (yield K s)
        else Some s)"

fun ping_loop ::
  "'w kernel \<Rightarrow> u32 \<Rightarrow> u16 \<Rightarrow> u32 \<Rightarrow> nat list \<Rightarrow> u32 \<times> u32 \<Rightarrow> 'w machine
     \<Rightarrow> ((u32 \<times> u32) \<times> 'w machine) option" where
  "ping_loop K ip ident timeout [] rep s = Some (rep, s)"
| "ping_loop K ip ident timeout (i # is) rep s = do {
     (_, s) \<leftarrow> icmp_ping K ip ident (1 + of_nat i) s;
     let (t, s) = time_ms K s;
     s \<leftarrow> ping_wait K (t + ucast timeout) s;
     if n_ping_replied (g_net s)
     then ping_loop K ip ident timeout is (1, n_ping_reply_ip (g_net s))
            (set_net (g_net s\<lparr>n_ping_replied := False\<rparr>) s)
     else ping_loop K ip ident timeout is rep s
   }"

definition cmd_ping :: "'w kernel \<Rightarrow> u8 list \<Rightarrow> nat \<Rightarrow> 'w machine \<Rightarrow> (api_result \<times> 'w machine) option" where
  "cmd_ping K in_buf in_size s =
     (if in_size < 4 + 8 then Some ((-1, []), s)
      else do {
        req \<leftarrow> adv in_buf 4;
        req \<leftarrow> get_ping_req req;
        let (t, s) = time_ms K s;
        let timeout = (if pr_timeout_ms req \<noteq> 0 then ucast (pr_timeout_ms req) else 2000);
        let count = (if pr_count req \<noteq> 0 then pr_count req else 1);
        (rep, s) \<leftarrow> ping_loop K (pr_ip req) (ucast (t AND 0xFFFF)) timeout [0..<unat count] (0, 0) s;
        (case rep of (replied, reply_ip) \<Rightarrow>
           Some ((if replied \<noteq> 0 then 0 else -1, put_ping_rep \<lparr>pp_replied = replied, pp_reply_ip = reply_ip\<rparr>), s))
      })"

definition cmd_udp_bind :: "u8 list \<Rightarrow> nat \<Rightarrow> 'w machine \<Rightarrow> (api_result \<times> 'w machine) option" where
  "cmd_udp_bind in_buf in_size s =
     (if in_size < 4 + 2 then Some ((-1, []), s)
      else do {
        req \<leftarrow> adv in_buf 4;
        req \<leftarrow> get_udp_bind_req req;
        let (rc, s) = udp_bind (bq_port req) s;
        Some ((rc, []), s)
      })"

definition cmd_udp_unbind :: "u8 list \<Rightarrow> nat \<Rightarrow> 'w machine \<Rightarrow> (api_result \<times> 'w machine) option" where
  "cmd_udp_unbind in_buf in_size s =
     (if in_size < 4 + 2 then Some ((-1, []), s)
      else do {
        req \<leftarrow> adv in_buf 4;
        req \<leftarrow> get_udp_bind_req req;
        Some ((0, []), udp_unbind (bq_port req) s)
      })"

definition cmd_udp_send :: "'w kernel \<Rightarrow> u8 list \<Rightarrow> nat \<Rightarrow> 'w machine \<Rightarrow> (api_result \<times> 'w machine) option" where
  "cmd_udp_send K in_buf in_size s =
     (if in_size < 4 + 1482 then Some ((-1, []), s)
      else do {
        req \<leftarrow> adv in_buf 4;
        req \<leftarrow> get_udp_send_req req;
        (rc, s) \<leftarrow> udp_tx K (us_dst_ip req) (us_src_port req) (us_dst_port req) (us_data req) (us_len req) s;
        Some ((rc, []), s)
      })"

text \<open>The data area of the reply structure is the buffer of the receive.\<close>

definition cmd_udp_recv :: "u8 list \<Rightarrow> nat \<Rightarrow> 'w machine \<Rightarrow> (api_result \<times> 'w machine) option" where
  "cmd_udp_recv in_buf in_size s =
     (if in_size < 4 + 4 then Some ((-1, []), s)
      else do {
        req \<leftarrow> adv in_buf 4;
        req \<leftarrow> get_udp_recv_req req;
        ((n, data, src), s) \<leftarrow> udp_recv (vq_port req) (replicate 1472 0)
           (if vq_max_len req \<noteq> 0 then int (unat (vq_max_len req)) else 1472) s;
        let (src_ip, src_port) = (case src of Some a \<Rightarrow> a | None \<Rightarrow> (0, 0));
        let len = (of_int (if 0 < n then n else 0) :: u16);
        Some ((if 0 < n then 0 else -1,
          put_udp_recv_rep \<lparr>vr_src_ip = src_ip, vr_src_port = src_port, vr_len = len, vr_data = data\<rparr>), s)
      })"

definition cmd_dns_resolve :: "'w kernel \<Rightarrow> u8 list \<Rightarrow> nat \<Rightarrow> 'w machine \<Rightarrow> (api_result \<times> 'w machine) option" where
  "cmd_dns_resolve K in_buf in_size s =
     (if in_size < 4 + 256 then Some ((-1, []), s)
      else do {
        req \<leftarrow> adv in_buf 4;
        req \<leftarrow> get_dns_req req;
        ((rc, ip), s) \<leftarrow> dns_resolve K (dq_name req) s;
        Some ((rc, put_dns_rep \<lparr>dr_ip = (case ip of Some a \<Rightarrow> a | None \<Rightarrow> 0)\<rparr>), s)
      })"

definition cmd_arp_lookup :: "'w kernel \<Rightarrow> u8 list \<Rightarrow> nat \<Rightarrow> 'w machine \<Rightarrow> (api_result \<times> 'w machine) option" where
  "cmd_arp_lookup K in_buf in_size s =
     (if in_size < 4 + 4 then Some ((-1, []), s)
      else do {
        req \<leftarrow> adv in_buf 4;
        req \<leftarrow> get_arp_req req;
        (case arp_lookup K (aq_ip req) s of
           (Some m, s) \<Rightarrow> Some ((0, put_arp_rep \<lparr>ar_mac = m, ar_found = 1\<rparr>), s)
         | (None, s) \<Rightarrow> Some ((-1, put_arp_rep \<lparr>ar_mac = replicate 6 0, ar_found = 0\<rparr>), s))
      })"

definition cmd_arp_flush :: "'w machine \<Rightarrow> (api_result \<times> 'w machine) option" where
  "cmd_arp_flush s = Some ((0, []), set_arp (replicate ARP_CACHE_SIZE zero_arp_entry) s)"

definition cmd_set_ip :: "'w kernel \<Rightarrow> u8 list \<Rightarrow> nat \<Rightarrow> 'w machine \<Rightarrow> (api_result \<times> 'w machine) option" where
  "cmd_set_ip K in_buf in_size s =
     (if in_size < 4 + 16 then Some ((-1, []), s)
      else do {
        req \<leftarrow> adv in_buf 4;
        req \<leftarrow> get_setip_req req;
        let s = set_net (g_net s\<lparr>n_ip := sq_ip req, n_netmask := sq_netmask req, n_gateway := sq_gateway req,
          n_dns := sq_dns req\<rparr>) s;
        (_, s) \<leftarrow> (if n_ip (g_net s) \<noteq> 0 then arp_announce K s else Some ((), s));
        Some ((0, []), s)
      })"

definition api_command :: "'w kernel \<Rightarrow> u8 list \<Rightarrow> nat \<Rightarrow> 'w machine \<Rightarrow> (api_result \<times> 'w machine) option" where
  "api_command K in_buf in_size s = do {
     hdr \<leftarrow> get_req_hdr in_buf;
     let cmd = rq_cmd hdr;
     if cmd = NETD_CMD_GET_INFO then cmd_get_info s
     else if cmd = NETD_CMD_PING then cmd_ping K in_buf in_size s
     else if cmd = NETD_CMD_UDP_BIND then cmd_udp_bind in_buf in_size s
     else if cmd = NETD_CMD_UDP_UNBIND then cmd_udp_unbind in_buf in_size s
     else if cmd = NETD_CMD_UDP_SEND then cmd_udp_send K in_buf in_size s
     else if cmd = NETD_CMD_UDP_RECV then cmd_udp_recv in_buf in_size s
     else if cmd = NETD_CMD_DNS_RESOLVE then cmd_dns_resolve K in_buf in_size s
     else if cmd = NETD_CMD_ARP_LOOKUP then cmd_arp_lookup K in_buf in_size s
     else if cmd = NETD_CMD_ARP_FLUSH then cmd_arp_flush s
     else if cmd = NETD_CMD_SET_IP then cmd_set_ip K in_buf in_size s
     else Some ((-99, []), s)
   }"

text \<open>\<open>api_invoke\<close> returns its value and the caller's output array. A null \<open>in_buf\<close> is \<open>None\<close>.\<close>

definition api_invoke ::
  "'w kernel \<Rightarrow> u8 list option \<Rightarrow> nat \<Rightarrow> u8 list \<Rightarrow> nat \<Rightarrow> 'w machine
     \<Rightarrow> ((int \<times> u8 list) \<times> 'w machine) option" where
  "api_invoke K in_ptr in_size out_buf out_size s =
     (case in_ptr of
        None \<Rightarrow> Some ((-1, out_buf), s)
      | Some in_buf \<Rightarrow>
          if in_size < 4 then Some ((-1, out_buf), s)
          else do {
            ((status, bytes), s) \<leftarrow> api_command K in_buf in_size s;
            data \<leftarrow> wr 0 bytes (replicate REP_DATA_SIZE 0);
            let g_rep = put_rep \<lparr>rep_status = of_int status, rep_len = of_nat (length bytes), rep_data = data\<rparr>;
            let out_len = 4 + 4 + length bytes;
            let out_len = (if out_size < out_len then out_size else out_len);
            out \<leftarrow> rd g_rep 0 out_len;
            out_buf \<leftarrow> wr 0 out out_buf;
            Some ((int out_len, out_buf), s)
          })"

text \<open>\<open>api_init\<close> registers the node, with the permissions read, write and invoke, and reports the outcome.\<close>

definition say_register_failed :: "'w kernel \<Rightarrow> int \<Rightarrow> 'w machine \<Rightarrow> (int \<times> 'w machine) option" where
  "say_register_failed K rc s =
     printf K (c_str (''[netd] API register failed: %d'' @ newline)) [AInt (of_int rc)] s"

definition api_init :: "'w kernel \<Rightarrow> 'w machine \<Rightarrow> (unit \<times> 'w machine) option" where
  "api_init K s = do {
     let (rc, s) = userfs_register K ''netd'' (0x3 OR 0x4) s;
     (_, s) \<leftarrow> (if rc = 0 then say K ''[netd] API registered at $/user/netd'' s else say_register_failed K rc s);
     Some ((), s)
   }"

interpretation say_registered: message K "say K ''[netd] API registered at $/user/netd''"
    "bytes_of (''[netd] API registered at $/user/netd'' @ newline)" for K
  by (rule message_say) (simp add: plain_def)

text \<open>The report of a failure names the code, if the kernel's code is an \<open>int\<close> that has a negation.\<close>

definition int_code :: "int \<Rightarrow> bool" where
  "int_code rc \<longleftrightarrow> - INT_MAX \<le> rc \<and> rc \<le> INT_MAX"

definition register_codes :: "'w kernel \<Rightarrow> bool" where
  "register_codes K \<longleftrightarrow> (\<forall>path perms w. int_code (fst (k_register K path perms w)))"

lemma message_register_failed:
  assumes "int_code rc"
  shows "message K (say_register_failed K rc)
    (bytes_of ''[netd] API register failed: '' @ show_int rc @ bytes_of newline)"
  unfolding say_register_failed_def [abs_def]
  by (rule messageI [where ap = "[]" and ps = "lits ''[netd] API register failed: '' @ Dec Plain rc # lits newline"])
    (simp add: format_simps, use assms in \<open>simp_all add: message_simps plain_def int_code_def INT_MAX_def\<close>)

lemma printf_statics: "printf K fmt ap s = Some (r, s') \<Longrightarrow> same_statics s s'"
  by (auto simp: printf_def elim!: run_bindE intro: console_statics)

lemma api_init_statics: "api_init K s = Some (r, s') \<Longrightarrow> same_statics s s'"
  by (auto simp: api_init_def userfs_register_def same_statics_def say_register_failed_def elim!: run_bind_pairE
      split: prod.splits if_splits dest!: say_registered.statics printf_statics)

lemma api_init_returns:
  assumes "register_codes K"
  obtains s' where "api_init K s = Some ((), s')"
proof -
  obtain rc s1 where r: "userfs_register K ''netd'' 7 s = (rc, s1)" by fastforce
  then have "rc = fst (k_register K ''netd'' 7 (os s))" by (simp add: userfs_register_def prod.case_eq_if)
  then have c: "int_code rc" using assms by (simp add: register_codes_def)
  obtain s2 where "say K ''[netd] API registered at $/user/netd'' s1 = Some (0, s2)" by (rule say_registered.speaks)
  moreover obtain s3 where "say_register_failed K rc s1 = Some (0, s3)"
    by (rule message.speaks [OF message_register_failed [OF c]])
  moreover have "(0x3 OR 0x4 :: u32) = 7" by simp
  ultimately have "\<exists>s'. api_init K s = Some ((), s')" using r by (simp add: api_init_def)
  then show ?thesis using that by blast
qed

declare get_defs [simp] put_defs [simp]

section \<open>The envelope\<close>

text \<open>
  What every request returns: at most \<open>out_size\<close> bytes, the prefix of the status, the length and the
  data of the reply that fits.
\<close>

lemma api_invoke_eq:
  assumes cmd: "api_command K in_buf in_size s = Some ((status, bytes), s')" "length bytes \<le> 1500"
    and size: "4 \<le> in_size" "out_size \<le> length out_buf"
  shows "api_invoke K (Some in_buf) in_size out_buf out_size s =
    (let rep = le32 (of_int status) @ le32 (of_nat (length bytes)) @ bytes; k = min out_size (length rep)
     in Some ((int k, take k rep @ drop k out_buf), s'))"
proof -
  let ?rep = "le32 (of_int status) @ le32 (of_nat (length bytes)) @ bytes"
  define k where "k = min out_size (length ?rep)"
  have k: "(if out_size < 4 + 4 + length bytes then out_size else 4 + 4 + length bytes) = k"
    by (simp add: k_def)
  have kl: "k \<le> length ?rep" "k \<le> length out_buf" using size by (auto simp: k_def)
  have data: "wr 0 bytes (replicate 1500 0) = Some (bytes @ replicate (1500 - length bytes) 0)"
    using cmd(2) by (simp add: wr_def)
  have out: "rd (?rep @ z) 0 k = Some (take k ?rep)" for z
    using kl(1) by (simp add: rd_def)
  have fin: "wr 0 (take k ?rep) out_buf = Some (take k ?rep @ drop k out_buf)"
    using kl by (simp add: wr_def del: length_append take_append)
  have "rd (le32 (of_int status) @ le32 (of_nat (length bytes)) @ bytes @ replicate (1500 - length bytes) 0) 0 k
      = Some (take k ?rep)"
    using out [of "replicate (1500 - length bytes) 0"] by simp
  then show ?thesis
    using size(1) cmd(1) data fin unfolding api_invoke_def k_def [symmetric] Let_def
    by (simp add: k [simplified] del: take_append)
qed

lemma api_invoke_refused:
  "api_invoke K None in_size out_buf out_size s = Some ((-1, out_buf), s)"
  "in_size < 4 \<Longrightarrow> api_invoke K (Some in_buf) in_size out_buf out_size s = Some ((-1, out_buf), s)"
  by (simp_all add: api_invoke_def)

text \<open>A request cut short is refused without any effect, and so is an unknown one.\<close>

definition min_size :: "u32 \<Rightarrow> nat" where
  "min_size cmd =
     (if cmd = 2 then 12 else if cmd = 3 then 1486 else if cmd = 4 then 8
      else if cmd = 5 \<or> cmd = 6 then 6 else if cmd = 7 then 260 else if cmd = 8 then 8
      else if cmd = 10 then 20 else 4)"

lemma api_command_short:
  assumes "ld32 in_buf 0 = Some cmd" "in_size < min_size cmd" "4 \<le> in_size"
  shows "api_command K in_buf in_size s = Some ((-1, []), s)"
  using assms
  by (auto simp: api_command_def min_size_def cmd_ping_def cmd_udp_bind_def cmd_udp_unbind_def
      cmd_udp_send_def cmd_udp_recv_def cmd_dns_resolve_def cmd_arp_lookup_def cmd_set_ip_def
      split: if_splits)

lemma api_command_unknown:
  assumes "ld32 in_buf 0 = Some cmd" "cmd \<notin> {1..10}"
  shows "api_command K in_buf in_size s = Some ((-99, []), s)"
proof -
  have "cmd \<noteq> 1" "cmd \<noteq> 2" "cmd \<noteq> 3" "cmd \<noteq> 4" "cmd \<noteq> 5" "cmd \<noteq> 6" "cmd \<noteq> 7" "cmd \<noteq> 8" "cmd \<noteq> 9"
    "cmd \<noteq> 10"
    using assms(2) by (auto simp: word_le_nat_alt)
  with assms(1) show ?thesis by (simp add: api_command_def)
qed

section \<open>Ping\<close>

lemma ping_wait_statics:
  assumes "ping_wait K deadline s = Some s'"
  shows "same_statics s s'"
proof (rule ping_wait.raw_induct [where P = "\<lambda>K deadline s. same_statics s", OF _ assms])
  fix f :: "'b kernel \<Rightarrow> u64 \<Rightarrow> 'b machine \<Rightarrow> 'b machine option" and K deadline s s'
  assume IH: "\<And>K deadline s s'. f K deadline s = Some s' \<Longrightarrow> same_statics s s'"
    and eq: "(case time_ms K s of (t, s) \<Rightarrow>
        if t < deadline \<and> \<not> n_ping_replied (g_net s) then f K deadline (yield K s) else Some s) = Some s'"
  obtain t s1 where t: "time_ms K s = (t, s1)" by fastforce
  have st: "same_statics s s1" using t by (rule time_ms_statics)
  show "same_statics s s'"
  proof (cases "t < deadline \<and> \<not> n_ping_replied (g_net s1)")
    case True
    with eq t have "same_statics (yield K s1) s'" using IH by simp
    with st show ?thesis using same_statics_trans yield_statics by blast
  next
    case False
    with eq t st show ?thesis by auto
  qed
qed

text \<open>
  While the daemon waits for an echo reply it does not look at the NIC: nobody can set \<open>ping_replied\<close>,
  every wait runs to its deadline, and the answer of the API is always "no reply".
\<close>

lemma ping_loop_post:
  "net_wf (g_net s) \<Longrightarrow> ping_loop K ip ident timeout is rep s = Some (rep', s') \<Longrightarrow>
   rep' = rep \<and> keeps s s'"
proof (induction "is" arbitrary: rep s)
  case Nil
  then show ?case by simp
next
  case (Cons i "is")
  from Cons.prems(2) obtain st s1 t s2 s3 where p: "icmp_ping K ip ident (1 + of_nat i) s = Some (st, s1)"
    and t: "time_ms K s1 = (t, s2)" and w: "ping_wait K (t + ucast timeout) s2 = Some s3"
    and rest: "(if n_ping_replied (g_net s3)
     then ping_loop K ip ident timeout is (1, n_ping_reply_ip (g_net s3))
            (set_net (g_net s3\<lparr>n_ping_replied := False\<rparr>) s3)
     else ping_loop K ip ident timeout is rep s3) = Some (rep', s')"
    unfolding ping_loop.simps Let_def by (elim run_bind_pairE run_caseE run_bindE) blast
  obtain c where c: "arp_wf c" "g_net s1 = g_net s\<lparr>n_arp_cache := c, n_ping_id := ident,
      n_ping_seq := 1 + of_nat i, n_ping_replied := False\<rparr>"
    by (rule icmp_ping_only [OF net_wf_link [OF Cons.prems(1)] p])
  have net: "g_net s3 = g_net s1"
    using time_ms_net [OF t] ping_wait_statics [OF w] by (simp add: same_statics_def)
  have "net_wf (g_net s3)" using Cons.prems(1) c net by (simp add: net_wf_def link_wf_def)
  moreover have no: "\<not> n_ping_replied (g_net s3)" using c net by simp
  moreover have "ping_loop K ip ident timeout is rep s3 = Some (rep', s')" using rest no by simp
  moreover have "keeps s s3" using c net calculation(1) by (intro keepsI) simp_all
  ultimately show ?case using Cons.IH by (blast intro: keeps_trans)
qed

lemma cmd_ping_never:
  assumes wf: "net_wf (g_net s)" and size: "12 \<le> in_size"
    and run: "cmd_ping K in_buf in_size s = Some ((status, bytes), s')"
  shows "status = -1 \<and> bytes = replicate 8 0 \<and> keeps s s'"
proof -
  obtain t s1 where t: "time_ms K s = (t, s1)" by fastforce
  have wf1: "net_wf (g_net s1)" using wf time_ms_net [OF t] by simp
  have z: "le32 0 @ le32 0 = replicate 8 (0 :: u8)" by (simp add: le32_def numeral_eq_Suc)
  from run size t obtain ip ident tmo n rep where
    l: "ping_loop K ip ident tmo [0..<n] (0, 0) s1 = Some (rep, s')"
    and r: "(status, bytes) = (case rep of (replied, reply_ip) \<Rightarrow>
      (if replied \<noteq> 0 then 0 else -1, le32 replied @ le32 reply_ip))"
    unfolding cmd_ping_def Let_def
    by (auto elim!: run_bindE run_bind_pairE split: if_splits)
  have "keeps s s1" using t by (intro keeps_statics time_ms_statics)
  with ping_loop_post [OF wf1 l] r z show ?thesis by (auto intro: keeps_trans)
qed

section \<open>Every command keeps the invariant\<close>

lemma udp_bind_keeps:
  assumes wf: "net_wf (g_net s)"
  shows "keeps s (snd (udp_bind p s))" "keeps s (udp_unbind p s)"
proof -
  have b: "binds_wf (n_udp_binds (g_net s))" using wf by (simp add: net_wf_def)
  show "keeps s (snd (udp_bind p s))" "keeps s (udp_unbind p s)"
    using ports.bind_inv [OF b, of p] ports.unbind_inv [OF b, of p]
    by (auto intro!: keepsI simp: net_wf_def link_wf_def udp_bind_def udp_unbind_def set_binds_def
        set_net_def prod.case_eq_if Let_def)
qed

lemma udp_recv_keeps:
  assumes wf: "net_wf (g_net s)" and run: "udp_recv p buf mx s = Some (r, s')"
  shows "keeps s s'"
proof -
  let ?bs = "n_udp_binds (g_net s)"
  have b: "binds_wf ?bs" using wf by (simp add: net_wf_def)
  from run consider "s' = s" | "s' = set_binds (binds_fetch p ?bs) s"
    unfolding udp_recv_def binds_fetch_def
    by (auto simp: Let_def elim!: run_bindE split: option.splits if_splits)
  then show ?thesis
    using ports.fetch_inv [OF b, of p]
    by cases (auto intro!: keepsI simp: net_wf_def link_wf_def set_binds_def set_net_def)
qed

lemma arp_lookup_keeps:
  assumes wf: "net_wf (g_net s)" and run: "arp_lookup K ip s = (r, s')"
  shows "keeps s s'"
proof -
  have "arp_wf (n_arp_cache (g_net s))" using wf by (simp add: net_wf_def link_wf_def)
  then show ?thesis using arp_lookup_only [OF _ run] by (intro keeps_tx tx_only_arp)
qed

lemma cmd_set_ip_keeps:
  assumes run: "cmd_set_ip K in_buf in_size s = Some (r, s')"
  shows "keeps s s'"
proof -
  from run consider "s' = s"
    | ip nm gw dns s1 where "s1 = set_net (g_net s\<lparr>n_ip := ip, n_netmask := nm, n_gateway := gw, n_dns := dns\<rparr>) s"
      "s' = s1 \<or> arp_announce K s1 = Some ((), s')"
    unfolding cmd_set_ip_def Let_def
    by (auto elim!: run_bindE run_bind_pairE split: if_splits) blast
  then show ?thesis
  proof cases
    case 1
    then show ?thesis by simp
  next
    case 2
    from 2(1) have "keeps s s1" by (intro keepsI) (auto simp: net_wf_def link_wf_def set_net_def)
    moreover have "keeps s1 s'" using 2(2)
      by (auto simp: arp_announce_def dest!: arp_send_statics intro: keeps_statics)
    ultimately show ?thesis by (rule keeps_trans)
  qed
qed

lemma cmd_keeps:
  assumes wf: "net_wf (g_net s)"
  shows "cmd_get_info s = Some (r, s') \<Longrightarrow> keeps s s'"
    and "cmd_ping K in_buf in_size s = Some (r, s') \<Longrightarrow> keeps s s'"
    and "cmd_udp_bind in_buf in_size s = Some (r, s') \<Longrightarrow> keeps s s'"
    and "cmd_udp_unbind in_buf in_size s = Some (r, s') \<Longrightarrow> keeps s s'"
    and "cmd_udp_send K in_buf in_size s = Some (r, s') \<Longrightarrow> keeps s s'"
    and "cmd_udp_recv in_buf in_size s = Some (r, s') \<Longrightarrow> keeps s s'"
    and "cmd_dns_resolve K in_buf in_size s = Some (r, s') \<Longrightarrow> keeps s s'"
    and "cmd_arp_lookup K in_buf in_size s = Some (r, s') \<Longrightarrow> keeps s s'"
    and "cmd_arp_flush s = Some (r, s') \<Longrightarrow> keeps s s'"
proof -
  show "cmd_get_info s = Some (r, s') \<Longrightarrow> keeps s s'"
    by (auto simp: cmd_get_info_def Let_def elim!: run_bindE)
  show "cmd_ping K in_buf in_size s = Some (r, s') \<Longrightarrow> keeps s s'"
    using cmd_ping_never [OF wf, of in_size K in_buf] by (cases r; cases "in_size < 12") (auto simp: cmd_ping_def)
  show "cmd_udp_bind in_buf in_size s = Some (r, s') \<Longrightarrow> keeps s s'"
    using udp_bind_keeps(1) [OF wf]
    by (auto simp: cmd_udp_bind_def Let_def prod.case_eq_if elim!: run_bindE split: if_splits)
  show "cmd_udp_unbind in_buf in_size s = Some (r, s') \<Longrightarrow> keeps s s'"
    using udp_bind_keeps(2) [OF wf] by (auto simp: cmd_udp_unbind_def elim!: run_bindE split: if_splits)
  show "cmd_udp_send K in_buf in_size s = Some (r, s') \<Longrightarrow> keeps s s'"
    by (auto simp: cmd_udp_send_def elim!: run_bindE run_bind_pairE split: if_splits
        dest!: udp_tx_only [OF net_wf_link [OF wf]] intro: keeps_tx)
  show "cmd_udp_recv in_buf in_size s = Some (r, s') \<Longrightarrow> keeps s s'"
    using udp_recv_keeps [OF wf]
    by (auto simp: cmd_udp_recv_def Let_def prod.case_eq_if elim!: run_bindE split: if_splits)
  show "cmd_dns_resolve K in_buf in_size s = Some (r, s') \<Longrightarrow> keeps s s'"
    using dns_resolve_post(1) [OF wf]
    by (auto simp: cmd_dns_resolve_def elim!: run_bindE run_bind_tripleE split: if_splits)
  show "cmd_arp_lookup K in_buf in_size s = Some (r, s') \<Longrightarrow> keeps s s'"
    using arp_lookup_keeps [OF wf]
    by (auto simp: cmd_arp_lookup_def elim!: run_bindE split: if_splits prod.splits option.splits)
  show "cmd_arp_flush s = Some (r, s') \<Longrightarrow> keeps s s'"
    using arp_init_wf [of s] unfolding arp_init_def cmd_arp_flush_def
    by (auto intro!: keepsI simp: net_wf_def link_wf_def set_arp_def set_net_def)
qed

lemma api_command_keeps:
  assumes wf: "net_wf (g_net s)" and run: "api_command K in_buf in_size s = Some (r, s')"
  shows "keeps s s'"
  using run cmd_keeps [OF wf] cmd_set_ip_keeps [of K in_buf in_size s r s'] unfolding api_command_def Let_def
  by (elim run_bindE run_ifE) auto

lemma api_invoke_keeps:
  assumes wf: "net_wf (g_net s)" and run: "api_invoke K in_ptr in_size out_buf out_size s = Some (r, s')"
  shows "keeps s s'"
  using run api_command_keeps [OF wf] unfolding api_invoke_def Let_def
  by (auto split: option.splits if_splits elim!: run_bindE run_bind_tripleE)

lemma api_invoke_net_wf:
  assumes wf: "net_wf (g_net s)" and run: "api_invoke K in_ptr in_size out_buf out_size s = Some (r, s')"
  shows "net_wf (g_net s')"
  using api_invoke_keeps [OF wf run] wf by (rule keeps_net_wf)

section \<open>What the requests return\<close>

text \<open>The state of the interface, as a client reads it back from the reply.\<close>

definition info_bytes :: "netd_state_t \<Rightarrow> u8 list" where
  "info_bytes n = n_mac n @ le32 (n_ip n) @ le32 (n_netmask n) @ le32 (n_gateway n) @ le32 (n_dns n) @
     le32 (n_mtu n) @ le32 (n_link_up n) @ le32 (if n_dhcp_state n = DHCP_BOUND then 1 else 0)"

lemma cmd_get_info_eq:
  "length (n_mac (g_net s)) = 6 \<Longrightarrow> cmd_get_info s = Some ((0, info_bytes (g_net s)), s)"
  by (simp add: cmd_get_info_def info_bytes_def rd_def dhcp_bound_def Let_def)

lemma info_bytes_fields:
  assumes "length (n_mac n) = 6"
  shows "length (info_bytes n) = 34" "take 6 (info_bytes n) = n_mac n"
    "ld32 (info_bytes n) 6 = Some (n_ip n)" "ld32 (info_bytes n) 10 = Some (n_netmask n)"
    "ld32 (info_bytes n) 14 = Some (n_gateway n)" "ld32 (info_bytes n) 18 = Some (n_dns n)"
    "ld32 (info_bytes n) 22 = Some (n_mtu n)" "ld32 (info_bytes n) 26 = Some (n_link_up n)"
    "ld32 (info_bytes n) 30 = Some (if n_dhcp_state n = DHCP_BOUND then 1 else 0)"
  using assms by (simp_all add: info_bytes_def ld32_def rd_def)

text \<open>Requests as a client lays them out.\<close>

definition req_bind :: "u16 \<Rightarrow> u8 list" where
  "req_bind port = le32 5 @ le16 port"

definition req_recv :: "u16 \<Rightarrow> u16 \<Rightarrow> u8 list" where
  "req_recv port max_len = le32 4 @ le16 port @ le16 max_len"

definition req_set_ip :: "u32 \<Rightarrow> u32 \<Rightarrow> u32 \<Rightarrow> u32 \<Rightarrow> u8 list" where
  "req_set_ip ip nm gw dns = le32 10 @ le32 ip @ le32 nm @ le32 gw @ le32 dns"

lemma api_bind:
  "api_command K (req_bind port) 6 s = (case udp_bind port s of (rc, s) \<Rightarrow> Some ((rc, []), s))"
  by (simp add: api_command_def req_bind_def ld32_def ld16_def rd_def adv_def cmd_udp_bind_def Let_def)

lemma api_recv_eq:
  assumes wf: "net_wf (g_net s)" and len: "max_len \<le> 1472"
  shows "api_command K (req_recv port max_len) 8 s = Some
    (case ports_of s port of
       Some (d, a, q) \<Rightarrow>
         if d = [] then ((-1, replicate 1480 0), s)
         else (let k = min (length d) (if max_len = 0 then 1472 else unat max_len)
               in ((0, le32 a @ le16 q @ le16 (of_nat k) @ take k d @ replicate (1472 - k) 0),
                   set_binds (binds_fetch port (n_udp_binds (g_net s))) s))
     | None \<Rightarrow> ((-1, replicate 1480 0), s))"
proof -
  define mx where "mx = (if max_len = 0 then 1472 else unat max_len)"
  have mx: "(if max_len = 0 then 1472 else uint max_len) = int mx" "0 < mx" "mx \<le> 1472"
    using len by (auto simp: mx_def word_le_nat_alt unat_eq_0 neq0_conv [symmetric] simp del: neq0_conv)
  have mxs: "max_len \<noteq> 0 \<Longrightarrow> uint max_len = int mx" "max_len = 0 \<Longrightarrow> mx = 1472"
    using mx(1) by (auto simp: mx_def)
  have b: "binds_wf (n_udp_binds (g_net s))" using wf by (simp add: net_wf_def)
  have z: "le32 0 @ le16 0 @ le16 0 @ replicate 1472 0 = replicate 1480 (0 :: u8)"
  proof -
    have "le32 0 @ le16 0 @ le16 0 = replicate 8 (0 :: u8)"
      by (simp add: le32_def le16_def numeral_eq_Suc)
    then have "(le32 0 @ le16 0 @ le16 0) @ replicate 1472 0 = replicate 8 0 @ replicate 1472 (0 :: u8)"
      by (simp only:)
    then show ?thesis by (simp only: append_assoc flip: replicate_add) simp
  qed
  have cmd: "api_command K (req_recv port max_len) 8 s =
    do {
      ((n, data, src), s) \<leftarrow> udp_recv port (replicate 1472 0) (int mx) s;
      let (src_ip, src_port) = (case src of Some a \<Rightarrow> a | None \<Rightarrow> (0, 0));
      let len = (of_int (if 0 < n then n else 0) :: u16);
      Some ((if 0 < n then 0 else -1, le32 src_ip @ le16 src_port @ le16 len @ data), s)
    }"
    by (simp add: api_command_def req_recv_def ld32_def ld16_def rd_def adv_def cmd_udp_recv_def mxs
        Let_def)
  show ?thesis
  proof (cases "ports_of s port")
    case None
    then show ?thesis using udp_recv_eq [OF b, of "int mx" "replicate 1472 0" port] mx z
      by (simp add: cmd)
  next
    case (Some v)
    obtain d a q where v: "v = (d, a, q)" by (cases v)
    show ?thesis
    proof (cases "d = []")
      case True
      with Some v show ?thesis using udp_recv_eq [OF b, of "int mx" "replicate 1472 0" port] mx z
        by (simp add: cmd)
    next
      case False
      define k where "k = min (length d) mx"
      have "0 < k" "take mx d = take k d" using False mx by (auto simp: k_def min_def)
      with Some v False show ?thesis
        using udp_recv_eq [OF b, of "int mx" "replicate 1472 0" port] mx
        by (simp add: cmd Let_def flip: mx_def k_def)
    qed
  qed
qed

text \<open>
  A client may ask for more bytes than the reply structure has: a datagram of more than 1472 bytes is
  then copied past its end.
\<close>

lemma api_recv_overflow:
  assumes wf: "net_wf (g_net s)" and len: "1472 < max_len"
    and box: "ports_of s port = Some (d, a, q)" "1472 < length d"
  shows "api_command K (req_recv port max_len) 8 s = None"
proof -
  let ?bs = "n_udp_binds (g_net s)"
  have b: "binds_wf ?bs" using wf by (simp add: net_wf_def)
  have m: "1472 < uint max_len" "max_len \<noteq> 0" using len by (auto simp: word_less_def)
  obtain i where i: "i < 16" "first_index (bound_to port) ?bs = Some i" "bound_to port (?bs ! i)"
    "(d, a, q) = mbox (?bs ! i)"
    using binds_view_first [OF b box(1)] by metis
  have len_i: "1472 < ub_len (?bs ! i)" using i(4) box(2) by (auto simp: mbox_def)
  have first: "first_index (\<lambda>x. bound_to port x \<and> 0 < ub_len x) ?bs = Some i"
  proof (rule first_index_SomeI)
    show "i < length ?bs" using i(1) binds_wf_length [OF b] by simp
    show "bound_to port (?bs ! i) \<and> 0 < ub_len (?bs ! i)" using i(3) len_i by simp
    show "\<not> (bound_to port (?bs ! j) \<and> 0 < ub_len (?bs ! j))" if "j < i" for j
      using first_index_SomeD [OF i(2)] that by blast
  qed
  have "1472 < nat (if ub_len (?bs ! i) < uint max_len then ub_len (?bs ! i) else uint max_len)"
    using len_i m(1) len by (auto simp: word_less_nat_alt)
  moreover define c where "c = (if ub_len (?bs ! i) < uint max_len then ub_len (?bs ! i) else uint max_len)"
  ultimately have "1472 < nat c" "\<not> c < 0" by auto
  then have w: "wr 0 d (replicate 1472 0) = None" if "length d = nat c" for d :: "u8 list"
    using that by (simp add: wr_None)
  have "udp_recv port (replicate 1472 0) (uint max_len) s = None"
  proof (cases "rd (ub_buf (?bs ! i)) 0 (nat c)")
    case None
    with first \<open>\<not> c < 0\<close> show ?thesis
      by (simp add: udp_recv_def Let_def flip: c_def)
  next
    case (Some d)
    with first \<open>\<not> c < 0\<close> w [OF rd_length [OF Some]] show ?thesis
      by (simp add: udp_recv_def Let_def flip: c_def)
  qed
  then show ?thesis
    using m(2)
    by (simp add: api_command_def req_recv_def ld32_def ld16_def rd_def adv_def cmd_udp_recv_def)
qed

lemma api_set_ip:
  assumes live: "live K \<mu>" and wf: "net_wf (g_net s)"
  obtains s' where "api_command K (req_set_ip ip nm gw dns) 20 s = Some ((0, []), s')"
    "g_net s' = g_net s\<lparr>n_ip := ip, n_netmask := nm, n_gateway := gw, n_dns := dns\<rparr>"
proof -
  let ?s1 = "set_net (g_net s\<lparr>n_ip := ip, n_netmask := nm, n_gateway := gw, n_dns := dns\<rparr>) s"
  have wf1: "link_wf (g_net ?s1)" using wf by (simp add: net_wf_def link_wf_def set_net_def)
  obtain s2 where a: "arp_announce K ?s1 = Some ((), s2)" "same_statics ?s1 s2"
    by (rule arp_announce_returns [OF live wf1])
  let ?s' = "if ip \<noteq> 0 then s2 else ?s1"
  have "api_command K (req_set_ip ip nm gw dns) 20 s = Some ((0, []), ?s')"
    using a(1)
    by (simp add: api_command_def req_set_ip_def ld32_def rd_def adv_def cmd_set_ip_def Let_def)
      (simp add: set_net_def)
  moreover have "g_net ?s' = g_net s\<lparr>n_ip := ip, n_netmask := nm, n_gateway := gw, n_dns := dns\<rparr>"
    using a(2) by (simp add: same_statics_def set_net_def)
  ultimately show ?thesis using that by blast
qed

section \<open>The layout of the replies\<close>

text \<open>The size of the structure each request is answered with.\<close>

definition reply_size :: "u32 \<Rightarrow> nat" where
  "reply_size cmd =
     (if cmd = 1 then 34 else if cmd = 2 then 8 else if cmd = 4 then 1480 else if cmd = 7 then 4
      else if cmd = 8 then 10 else 0)"

lemma udp_recv_length:
  assumes "udp_recv p buf mx s = Some ((n, data, src), s')"
  shows "length data = length buf"
  using assms wr_length [of 0 _ buf]
  by (auto simp: udp_recv_def Let_def elim!: run_bindE split: option.splits if_splits)

lemma cmd_layout:
  assumes wf: "net_wf (g_net s)"
  shows "cmd_get_info s = Some ((st, bs), s') \<Longrightarrow> length bs = 34"
    and "cmd_ping K in_buf in_size s = Some ((st, bs), s') \<Longrightarrow> length bs = (if in_size < 12 then 0 else 8)"
    and "cmd_udp_bind in_buf in_size s = Some ((st, bs), s') \<Longrightarrow> bs = []"
    and "cmd_udp_unbind in_buf in_size s = Some ((st, bs), s') \<Longrightarrow> bs = []"
    and "cmd_udp_send K in_buf in_size s = Some ((st, bs), s') \<Longrightarrow> bs = []"
    and "cmd_udp_recv in_buf in_size s = Some ((st, bs), s') \<Longrightarrow> length bs = (if in_size < 8 then 0 else 1480)"
    and "cmd_dns_resolve K in_buf in_size s = Some ((st, bs), s') \<Longrightarrow> length bs = (if in_size < 260 then 0 else 4)"
    and "cmd_arp_lookup K in_buf in_size s = Some ((st, bs), s') \<Longrightarrow> length bs = (if in_size < 8 then 0 else 10)"
    and "cmd_arp_flush s = Some ((st, bs), s') \<Longrightarrow> bs = []"
    and "cmd_set_ip K in_buf in_size s = Some ((st, bs), s') \<Longrightarrow> bs = []"
proof -
  have mac: "length (n_mac (g_net s)) = 6" and arp: "arp_wf (n_arp_cache (g_net s))"
    using wf by (simp_all add: net_wf_def link_wf_def)
  show "cmd_get_info s = Some ((st, bs), s') \<Longrightarrow> length bs = 34"
    using mac by (auto simp: cmd_get_info_def Let_def rd_def)
  show "cmd_ping K in_buf in_size s = Some ((st, bs), s') \<Longrightarrow> length bs = (if in_size < 12 then 0 else 8)"
    by (auto simp: cmd_ping_def Let_def elim!: run_bindE split: if_splits prod.splits)
  show "cmd_udp_recv in_buf in_size s = Some ((st, bs), s') \<Longrightarrow> length bs = (if in_size < 8 then 0 else 1480)"
    by (auto simp: cmd_udp_recv_def Let_def elim!: run_bindE split: if_splits prod.splits dest!: udp_recv_length)
  show "cmd_dns_resolve K in_buf in_size s = Some ((st, bs), s') \<Longrightarrow> length bs = (if in_size < 260 then 0 else 4)"
    by (auto simp: cmd_dns_resolve_def elim!: run_bindE split: if_splits prod.splits)
  show "cmd_arp_lookup K in_buf in_size s = Some ((st, bs), s') \<Longrightarrow> length bs = (if in_size < 8 then 0 else 10)"
    using arp_lookup_only(2) [OF arp]
    by (auto simp: cmd_arp_lookup_def elim!: run_bindE split: if_splits prod.splits option.splits)
qed (auto simp: cmd_udp_bind_def cmd_udp_unbind_def cmd_udp_send_def cmd_arp_flush_def cmd_set_ip_def Let_def
    elim!: run_bindE split: if_splits prod.splits)

text \<open>Every reply has the layout of its request, if the request is long enough, and no data otherwise.\<close>

lemma api_command_layout:
  assumes wf: "net_wf (g_net s)" and cmd: "ld32 in_buf 0 = Some cmd" "4 \<le> in_size"
    and run: "api_command K in_buf in_size s = Some ((st, bs), s')"
  shows "length bs = (if in_size < min_size cmd then 0 else reply_size cmd)"
proof -
  have hdr: "get_req_hdr in_buf = Some \<lparr>rq_cmd = cmd\<rparr>" using cmd(1) by simp
  show ?thesis
    using run cmd(2) unfolding api_command_def hdr min_size_def reply_size_def Let_def
    by (auto split: if_splits dest!: cmd_layout [OF wf])
qed

end
