(* ===== verification/Daemon.thy ===== *)
theory Daemon
  imports Api
begin

text \<open>
  \<open>src/main.c\<close>: the start of the daemon (the device, its address, MTU and link state, the subsystems,
  ten seconds of DHCP, the fallback addresses, the node of the API) and its receive loop, with the
  requests of clients in between.
\<close>

section \<open>Model\<close>

definition NIC_PATH :: string where
  "NIC_PATH = ''$/dev/net/net0''"

definition DHCP_TIMEOUT_MS :: u64 where [simp]: "DHCP_TIMEOUT_MS = 10000"

text \<open>
  The messages with values in them. \<open>printf\<close> has no field widths, so that \<open>%02x\<close> takes no argument: the six
  bytes of the address are passed and not looked at.
\<close>

definition say_cannot_open :: "'w kernel \<Rightarrow> 'w machine \<Rightarrow> (int \<times> 'w machine) option" where
  "say_cannot_open K s = printf K (c_str (''[netd] FATAL: cannot open %s'' @ newline)) [str_arg NIC_PATH] s"

definition say_mac :: "'w kernel \<Rightarrow> u8 list \<Rightarrow> 'w machine \<Rightarrow> (int \<times> 'w machine) option" where
  "say_mac K mac s = printf K (c_str (''[netd] MAC: %02x:%02x:%02x:%02x:%02x:%02x'' @ newline))
     (map (\<lambda>b. AInt (ucast b)) mac) s"

definition say_link :: "'w kernel \<Rightarrow> u32 \<Rightarrow> u32 \<Rightarrow> 'w machine \<Rightarrow> (int \<times> 'w machine) option" where
  "say_link K link_up mtu s = printf K (c_str (''[netd] link: %s  mtu: %u'' @ newline))
     [str_arg (if link_up \<noteq> 0 then ''UP'' else ''DOWN''), AInt mtu] s"

definition say_addresses ::
  "'w kernel \<Rightarrow> u32 \<Rightarrow> u32 \<Rightarrow> u32 \<Rightarrow> u32 \<Rightarrow> 'w machine \<Rightarrow> (int \<times> 'w machine) option" where
  "say_addresses K ip netmask gateway dns s =
     printf K (c_str (''[netd] IP: %u.%u.%u.%u / %u.%u.%u.%u  GW: %u.%u.%u.%u  DNS: %u.%u.%u.%u'' @ newline))
       (ip_args ip @ ip_args netmask @ ip_args gateway @ ip_args dns) s"

text \<open>What the driver is asked at the start: the address, whose reply goes straight into \<open>g_net.mac\<close>, and
  words, whose reply goes into a cleared \<open>val\<close>.\<close>

definition query_mac :: "'w kernel \<Rightarrow> 'w machine \<Rightarrow> (int \<times> 'w machine) option" where
  "query_mac K s = do {
     ((status, bs), s) \<leftarrow> driver_transact K NET_CMD_GET_MAC None 0 (Some 6) s;
     m \<leftarrow> wr 0 bs (n_mac (g_net s));
     Some (status, set_net (g_net s\<lparr>n_mac := m\<rparr>) s)
   }"

definition query_word :: "'w kernel \<Rightarrow> u32 \<Rightarrow> 'w machine \<Rightarrow> (u32 \<times> 'w machine) option" where
  "query_word K cmd s = do {
     ((_, bs), s) \<leftarrow> driver_transact K cmd None 0 (Some 4) s;
     val \<leftarrow> wr 0 bs (le32 0);
     v \<leftarrow> ld32 val 0;
     Some (v, s)
   }"

definition link_info :: "'w kernel \<Rightarrow> 'w machine \<Rightarrow> (int \<times> 'w machine) option" where
  "link_info K s = do {
     (status, s) \<leftarrow> query_mac K s;
     if status \<noteq> 0 then do {
       (_, s) \<leftarrow> say K ''[netd] FATAL: GET_MAC failed'' s;
       Some (1, s)
     }
     else do {
       (_, s) \<leftarrow> say_mac K (n_mac (g_net s)) s;
       (val, s) \<leftarrow> query_word K NET_CMD_GET_MTU s;
       let s = set_net (g_net s\<lparr>n_mtu := (if val \<noteq> 0 then val else 1500)\<rparr>) s;
       (val, s) \<leftarrow> query_word K NET_CMD_GET_LINK_UP s;
       let s = set_net (g_net s\<lparr>n_link_up := val\<rparr>) s;
       (_, s) \<leftarrow> say_link K (n_link_up (g_net s)) (n_mtu (g_net s)) s;
       Some (0, s)
     }
   }"

text \<open>The wait for a lease.\<close>

partial_function (option) dhcp_wait :: "'w kernel \<Rightarrow> u64 \<Rightarrow> 'w machine \<Rightarrow> 'w machine option" where
  "dhcp_wait K deadline s =
     (if dhcp_bound s then Some s
      else (case time_ms K s of (t, s) \<Rightarrow>
        if t < deadline then do {
          (_, s) \<leftarrow> rx_once K s;
          dhcp_wait K deadline s
        } else Some s))"

definition fallback :: "'w kernel \<Rightarrow> 'w machine \<Rightarrow> (unit \<times> 'w machine) option" where
  "fallback K s = do {
     (_, s) \<leftarrow> say K ''[netd] DHCP failed, falling back to 10.0.2.15/24'' s;
     arp_announce K (set_net (g_net s\<lparr>n_ip := MAKE_IP 10 0 2 15, n_netmask := MAKE_IP 255 255 255 0,
       n_gateway := MAKE_IP 10 0 2 1, n_dns := MAKE_IP 8 8 8 8\<rparr>) s)
   }"

text \<open>The subsystems and the lease, and the whole start: 1 is the return value of a fatal error, 0 says
  that the receive loop is entered.\<close>

definition md_configure :: "'w kernel \<Rightarrow> 'w machine \<Rightarrow> 'w machine option" where
  "md_configure K s = do {
     let s = arp_init s;
     let s = set_binds (replicate UDP_MAX_BINDS zero_udp_bind) s;
     (_, s) \<leftarrow> say K ''[netd] starting DHCP'' s;
     (_, s) \<leftarrow> dhcp_start K s;
     let (t, s) = time_ms K s;
     s \<leftarrow> dhcp_wait K (t + DHCP_TIMEOUT_MS) s;
     (_, s) \<leftarrow> (if dhcp_bound s then Some ((), s) else fallback K s);
     (_, s) \<leftarrow> say_addresses K (n_ip (g_net s)) (n_netmask (g_net s)) (n_gateway (g_net s)) (n_dns (g_net s)) s;
     (_, s) \<leftarrow> say K ''[netd] ready'' s;
     (_, s) \<leftarrow> api_init K s;
     Some s
   }"

definition md_init :: "'w kernel \<Rightarrow> 'w machine \<Rightarrow> (int \<times> 'w machine) option" where
  "md_init K s = do {
     (_, s) \<leftarrow> say K ''[netd] starting'' s;
     let (fd, s) = driver_open K NIC_PATH s;
     if fd < 0 then do {
       (_, s) \<leftarrow> say_cannot_open K s;
       Some (1, s)
     }
     else do {
       (rc, s) \<leftarrow> link_info K s;
       if rc \<noteq> 0 then Some (1, s)
       else do {
         s \<leftarrow> md_configure K s;
         Some (0, s)
       }
     }
   }"

text \<open>One round of the receive loop.\<close>

definition main_step :: "'w kernel \<Rightarrow> 'w machine \<Rightarrow> 'w machine option" where
  "main_step K s = do {
     (_, s) \<leftarrow> say K ''LOOP'' s;
     (_, s) \<leftarrow> rx_once K s;
     Some (sleep K 1 s)
   }"

text \<open>
  The daemon as a transition system over a fresh process image: the start, then rounds of the loop and
  requests of clients in any order, the rest of the system running in between.
\<close>

definition boot :: "'w \<Rightarrow> 'w machine" where
  "boot w = \<lparr>g_net = zero_net, g_ip_id = 1, os = w\<rparr>"

inductive daemon_step :: "'w kernel \<Rightarrow> 'w machine \<Rightarrow> 'w machine \<Rightarrow> bool" for K where
  round: "main_step K s = Some s' \<Longrightarrow> daemon_step K s s'"
| request: "api_invoke K in_ptr in_size out_buf out_size s = Some (r, s') \<Longrightarrow> daemon_step K s s'"
| elsewhere: "daemon_step K s (s\<lparr>os := w\<rparr>)"

inductive_cases daemon_stepE: "daemon_step K s s'"

inductive reachable :: "'w kernel \<Rightarrow> 'w machine \<Rightarrow> bool" for K where
  start: "md_init K (boot w) = Some (0, s) \<Longrightarrow> reachable K s"
| step: "reachable K s \<Longrightarrow> daemon_step K s s' \<Longrightarrow> reachable K s'"

section \<open>The messages\<close>

interpretation say_starting: message K "say K ''[netd] starting''" "bytes_of (''[netd] starting'' @ newline)" for K
  by (rule message_say) (simp add: plain_def)

interpretation say_no_mac: message K "say K ''[netd] FATAL: GET_MAC failed''"
    "bytes_of (''[netd] FATAL: GET_MAC failed'' @ newline)" for K
  by (rule message_say) (simp add: plain_def)

interpretation say_dhcp: message K "say K ''[netd] starting DHCP''" "bytes_of (''[netd] starting DHCP'' @ newline)" for K
  by (rule message_say) (simp add: plain_def)

interpretation say_fallback: message K "say K ''[netd] DHCP failed, falling back to 10.0.2.15/24''"
    "bytes_of (''[netd] DHCP failed, falling back to 10.0.2.15/24'' @ newline)" for K
  by (rule message_say) (simp add: plain_def)

interpretation say_ready: message K "say K ''[netd] ready''" "bytes_of (''[netd] ready'' @ newline)" for K
  by (rule message_say) (simp add: plain_def)

interpretation say_loop: message K "say K ''LOOP''" "bytes_of (''LOOP'' @ newline)" for K
  by (rule message_say) (simp add: plain_def)

interpretation say_cannot_open: message K "say_cannot_open K"
    "bytes_of ''[netd] FATAL: cannot open '' @ bytes_of NIC_PATH @ bytes_of newline" for K
  unfolding say_cannot_open_def [abs_def]
  by (rule messageI [where ap = "[]" and ps = "lits ''[netd] FATAL: cannot open '' @ Str 1 (c_str NIC_PATH) # lits newline"])
    (simp add: format_simps, simp_all add: message_simps plain_def str_arg_def,
     simp_all add: c_str_def NIC_PATH_def bytes_of_def)

interpretation say_link: message K "say_link K link_up mtu"
    "bytes_of ''[netd] link: '' @ bytes_of (if link_up \<noteq> 0 then ''UP'' else ''DOWN'') @ bytes_of ''  mtu: '' @
       show_num False 10 (unat mtu) @ bytes_of newline" for K link_up mtu
  unfolding say_link_def [abs_def]
  by (rule messageI [where ap = "[]" and ps = "lits ''[netd] link: '' @ Str 1 (c_str (if link_up \<noteq> 0 then ''UP'' else ''DOWN'')) #
        lits ''  mtu: '' @ Uns Plain (unat mtu) # lits newline"])
    (simp add: format_simps, simp_all add: message_simps plain_def str_arg_def unat_u32_less,
     simp_all add: c_str_def bytes_of_def)

text \<open>The hardware address is misprinted: what appears is the format.\<close>

interpretation say_mac: message K "say_mac K mac"
    "bytes_of ''[netd] MAC: %02x:%02x:%02x:%02x:%02x:%02x'' @ bytes_of newline" for K mac
  unfolding say_mac_def [abs_def]
  by (rule messageI [where ap = "map (\<lambda>b. AInt (ucast b)) mac" and ps = "lits ''[netd] MAC: '' @ [Unknown 48] @
        lits ''2x:'' @ [Unknown 48] @ lits ''2x:'' @ [Unknown 48] @ lits ''2x:'' @ [Unknown 48] @ lits ''2x:'' @
        [Unknown 48] @ lits ''2x:'' @ [Unknown 48] @ lits ''2x'' @ lits newline"])
    (simp add: format_simps, simp_all add: message_simps plain_def, simp add: bytes_of_def)

interpretation say_addresses: message K "say_addresses K ip netmask gateway dns"
    "bytes_of ''[netd] IP: '' @ dotted_quad ip @ bytes_of '' / '' @ dotted_quad netmask @ bytes_of ''  GW: '' @
       dotted_quad gateway @ bytes_of ''  DNS: '' @ dotted_quad dns @ bytes_of newline" for K ip netmask gateway dns
  unfolding say_addresses_def [abs_def]
  by (rule messageI [where ap = "[]" and ps = "lits ''[netd] IP: '' @ quad ip @ lits '' / '' @ quad netmask @
        lits ''  GW: '' @ quad gateway @ lits ''  DNS: '' @ quad dns @ lits newline"])
    (simp add: format_simps, simp_all add: message_simps plain_def)

section \<open>The start\<close>

text \<open>The questions to the driver change nothing but the fields they are asked for.\<close>

lemma query_mac_post:
  assumes "query_mac K s = Some (status, s')"
  obtains m where "length m = length (n_mac (g_net s))" "g_net s' = g_net s\<lparr>n_mac := m\<rparr>" "g_ip_id s' = g_ip_id s"
proof -
  from assms obtain bs s1 m where t: "driver_transact K NET_CMD_GET_MAC None 0 (Some 6) s = Some ((status, bs), s1)"
    and w: "wr 0 bs (n_mac (g_net s1)) = Some m" and s': "s' = set_net (g_net s1\<lparr>n_mac := m\<rparr>) s1"
    unfolding query_mac_def by (auto elim!: run_bindE run_bind_tripleE)
  have "same_statics s s1" using t by (rule driver_transact_statics)
  then show ?thesis using that [of m] wr_length [OF w] s' by (simp add: same_statics_def set_net_def)
qed

lemma query_word_statics: "query_word K cmd s = Some (v, s') \<Longrightarrow> same_statics s s'"
  unfolding query_word_def by (auto elim!: run_bindE run_bind_tripleE dest: driver_transact_statics)

lemma link_info_post:
  assumes "link_info K s = Some (rc, s')"
  obtains m mtu up where "length m = length (n_mac (g_net s))" "rc = 0 \<Longrightarrow> mtu \<noteq> 0"
    "g_net s' = g_net s\<lparr>n_mac := m, n_mtu := mtu, n_link_up := up\<rparr>" "rc = 0 \<or> rc = 1"
proof -
  from assms obtain st s1 where q: "query_mac K s = Some (st, s1)"
    unfolding link_info_def by (auto elim!: run_bindE)
  obtain m where m: "length m = length (n_mac (g_net s))" "g_net s1 = g_net s\<lparr>n_mac := m\<rparr>"
    using query_mac_post [OF q] by metis
  show ?thesis
  proof (cases "st = 0")
    case False
    with assms q obtain r where "say K ''[netd] FATAL: GET_MAC failed'' s1 = Some (r, s')" "rc = 1"
      by (auto simp: link_info_def elim!: run_bind_pairE)
    with m that [of m "n_mtu (g_net s)" "n_link_up (g_net s)"] show ?thesis by (simp add: say_no_mac.keeps_net)
  next
    case True
    with assms q obtain r t v s2 v' s3 r' where say: "say_mac K (n_mac (g_net s1)) s1 = Some (r, t)"
      and v: "query_word K NET_CMD_GET_MTU t = Some (v, s2)"
      and v': "query_word K NET_CMD_GET_LINK_UP (set_net (g_net s2\<lparr>n_mtu := (if v \<noteq> 0 then v else 1500)\<rparr>) s2) = Some (v', s3)"
      and link: "say_link K v' (n_mtu (g_net s3)) (set_net (g_net s3\<lparr>n_link_up := v'\<rparr>) s3) = Some (r', s')"
      and rc: "rc = 0"
      by (auto simp: link_info_def Let_def set_net_def elim!: run_bindE)
    note nets = say_mac.keeps_net [OF say] query_word_statics [OF v] query_word_statics [OF v'] say_link.keeps_net [OF link]
    show ?thesis by (intro that [of m "if v \<noteq> 0 then v else 1500" v'])
      (use nets rc m in \<open>auto simp: same_statics_def set_net_def\<close>)
  qed
qed

text \<open>While it waits for a lease the daemon only receives; the wait ends with a lease, or late.\<close>

lemma dhcp_wait_post:
  assumes "dhcp_wait K deadline s = Some s'"
  shows "wait_post s s'"
proof (rule dhcp_wait.raw_induct [where P = "\<lambda>K deadline s. wait_post s", OF _ assms])
  fix f :: "'b kernel \<Rightarrow> u64 \<Rightarrow> 'b machine \<Rightarrow> 'b machine option" and K deadline s s'
  assume IH: "\<And>K deadline s s'. f K deadline s = Some s' \<Longrightarrow> wait_post s s'"
    and eq: "(if dhcp_bound s then Some s
      else (case time_ms K s of (t, s) \<Rightarrow>
        if t < deadline then do { (_, s) \<leftarrow> rx_once K s; f K deadline s } else Some s)) = Some s'"
  obtain t s1 where t: "time_ms K s = (t, s1)" by fastforce
  have st1: "same_statics s s1" using t by (rule time_ms_statics)
  from eq t consider "s' = s" | "s' = s1" | s2 where "rx_once K s1 = Some ((), s2)" "f K deadline s2 = Some s'"
    by (auto elim!: run_bindE split: if_splits)
  then show "wait_post s s'"
  proof cases
    case 3
    have "rx_steps s s'" if wf: "net_wf (g_net s)"
    proof -
      have wf1: "net_wf (g_net s1)" using wf st1 by (simp add: same_statics_def)
      have step: "rx_step s1 s2" using rx_once_step [OF wf1 3(1)] .
      then have "net_wf (g_net s2)" using wf1 by (simp add: rx_step_def)
      then have "rx_steps s2 s'" using IH [OF 3(2)] by (simp add: wait_post_def)
      with step have "rx_steps s1 s'" by (rule rx_steps_step)
      with rx_steps_statics [OF st1] show ?thesis by (rule rx_steps_trans)
    qed
    then show ?thesis by (simp add: wait_post_def)
  qed (use st1 in \<open>auto simp: wait_post_def intro: rx_steps_statics\<close>)
qed

lemma zero_binds_wf: "binds_wf (replicate UDP_MAX_BINDS zero_udp_bind)"
  by (auto simp: binds_wf_def slot_ok_def zero_udp_bind_def)

text \<open>
  A start that reaches the receive loop has a well-formed state, and addresses: those of the lease, or
  the fallback.
\<close>

definition configured :: "netd_state_t \<Rightarrow> bool" where
  "configured n \<longleftrightarrow> n_dhcp_state n = DHCP_BOUND \<or>
     n_ip n = 0x0A00020F \<and> n_netmask n = 0xFFFFFF00 \<and> n_gateway n = 0x0A000201 \<and> n_dns n = 0x08080808"

lemma dhcp_steps_not_idle: "dhcp_step\<^sup>*\<^sup>* d d' \<Longrightarrow> d \<noteq> DHCP_IDLE \<Longrightarrow> d' \<noteq> DHCP_IDLE"
  by (induction rule: rtranclp_induct) (auto elim: dhcp_step.cases)

text \<open>The fallback addresses.\<close>

lemma fallback_post:
  assumes wf: "net_wf (g_net s)" and run: "fallback K s = Some ((), s')"
  shows "net_wf (g_net s') \<and> configured (g_net s') \<and> n_dhcp_state (g_net s') = n_dhcp_state (g_net s) \<and>
    n_fd (g_net s') = n_fd (g_net s) \<and> n_mac (g_net s') = n_mac (g_net s)"
proof -
  let ?t = "\<lambda>s. set_net (g_net s\<lparr>n_ip := MAKE_IP 10 0 2 15, n_netmask := MAKE_IP 255 255 255 0,
     n_gateway := MAKE_IP 10 0 2 1, n_dns := MAKE_IP 8 8 8 8\<rparr>) s"
  from run obtain r u where say: "say K ''[netd] DHCP failed, falling back to 10.0.2.15/24'' s = Some (r, u)"
    and ann: "arp_announce K (?t u) = Some ((), s')" unfolding fallback_def by (auto elim!: run_bind_pairE)
  have u: "g_net u = g_net s" using say by (rule say_fallback.keeps_net)
  have "same_statics (?t u) s'" using ann unfolding arp_announce_def by (rule arp_send_statics)
  then have "g_net s' = g_net (?t u)" by (simp add: same_statics_def)
  moreover have "configured (g_net (?t u))" by (simp add: configured_def set_net_def MAKE_IP_def)
  ultimately show ?thesis using wf u by (simp add: net_wf_def link_wf_def set_net_def)
qed

lemma md_configure_post:
  assumes mac: "length (n_mac (g_net s)) = 6" and run: "md_configure K s = Some s'"
  shows "net_wf (g_net s')" "configured (g_net s')" "n_dhcp_state (g_net s') \<noteq> DHCP_IDLE"
    "n_fd (g_net s') = n_fd (g_net s)"
    "n_mac (g_net s') = n_mac (g_net s)"
proof -
  let ?s1 = "set_binds (replicate UDP_MAX_BINDS zero_udp_bind) (arp_init s)"
  from run obtain a t0 s2 t s3 s4 s5 b s6 c s7 where say: "say K ''[netd] starting DHCP'' ?s1 = Some (a, t0)"
    and start: "dhcp_start K t0 = Some ((), s2)"
    and t: "time_ms K s2 = (t, s3)" and w: "dhcp_wait K (t + DHCP_TIMEOUT_MS) s3 = Some s4"
    and fb: "(if dhcp_bound s4 then Some ((), s4) else fallback K s4) = Some ((), s5)"
    and adr: "say_addresses K (n_ip (g_net s5)) (n_netmask (g_net s5)) (n_gateway (g_net s5)) (n_dns (g_net s5)) s5 =
      Some (b, s6)" and rdy: "say K ''[netd] ready'' s6 = Some (c, s7)"
    and api: "api_init K s7 = Some ((), s')"
    unfolding md_configure_def Let_def by (auto elim!: run_bindE split: prod.splits)
  have n1: "g_net t0 = g_net ?s1" using say by (rule say_dhcp.keeps_net)
  have wf1: "link_wf (g_net t0)" "binds_wf (n_udp_binds (g_net t0))"
    using mac arp_init_wf [of s] zero_binds_wf
    by (simp_all add: n1 link_wf_def set_binds_def set_net_def arp_init_def set_arp_def)
  have id1: "n_fd (g_net t0) = n_fd (g_net s)" "n_mac (g_net t0) = n_mac (g_net s)"
    by (simp_all add: n1 set_binds_def set_net_def arp_init_def set_arp_def)
  note p2 = dhcp_start_post [OF wf1 start]
  have net3: "g_net s3 = g_net s2" using time_ms_net [OF t] by simp
  have "net_wf (g_net s3)" unfolding net3 net_wf_def using p2 by blast
  then have k4: "keeps s3 s4" using dhcp_wait_post [OF w] by (auto simp: wait_post_def intro: keeps_rx_steps)
  then have wf4: "net_wf (g_net s4)" using \<open>net_wf (g_net s3)\<close> by (rule keeps_net_wf)
  have d4: "n_dhcp_state (g_net s4) \<noteq> DHCP_IDLE"
    using k4 p2 net3 by (auto simp: keeps_def dest!: dhcp_steps_not_idle)
  have s5: "net_wf (g_net s5) \<and> configured (g_net s5) \<and> n_dhcp_state (g_net s5) = n_dhcp_state (g_net s4) \<and>
    n_fd (g_net s5) = n_fd (g_net s4) \<and> n_mac (g_net s5) = n_mac (g_net s4)"
    using fb wf4 fallback_post [OF wf4, of K s5] by (auto simp: configured_def dhcp_bound_def split: if_splits)
  have "g_net s' = g_net s5"
    using say_addresses.keeps_net [OF adr] say_ready.keeps_net [OF rdy] api_init_statics [OF api]
    by (simp add: same_statics_def)
  with s5 d4 k4 p2 id1 net3 show "net_wf (g_net s')" "configured (g_net s')"
    "n_dhcp_state (g_net s') \<noteq> DHCP_IDLE" "n_fd (g_net s') = n_fd (g_net s)"
    "n_mac (g_net s') = n_mac (g_net s)"
    by (simp_all add: keeps_def)
qed

lemma md_init_post:
  assumes mac: "length (n_mac (g_net s)) = 6" and run: "md_init K s = Some (rc, s')"
  shows "rc = 0 \<or> rc = 1"
    "rc = 0 \<Longrightarrow> net_wf (g_net s') \<and> configured (g_net s') \<and> n_dhcp_state (g_net s') \<noteq> DHCP_IDLE \<and>
       0 \<le> n_fd (g_net s')"
proof -
  from run obtain a t where say: "say K ''[netd] starting'' s = Some (a, t)"
    and rest: "(let (fd, s) = driver_open K NIC_PATH t in
      if fd < 0 then do { (_, s) \<leftarrow> say_cannot_open K s; Some (1, s) }
      else do {
        (rc, s) \<leftarrow> link_info K s;
        if rc \<noteq> 0 then Some (1, s) else do { s \<leftarrow> md_configure K s; Some (0, s) }
      }) = Some (rc, s')"
    unfolding md_init_def by (auto elim!: run_bind_pairE)
  obtain fd s1 where o: "driver_open K NIC_PATH t = (fd, s1)" by fastforce
  then have n1: "g_net s1 = g_net s\<lparr>n_fd := fd\<rparr>" using say_starting.keeps_net [OF say]
    by (auto simp: driver_open_def Let_def set_net_def dest!: sys_open_statics
        simp: same_statics_def split: prod.splits)
  have "(rc = 0 \<or> rc = 1) \<and> (rc = 0 \<longrightarrow> net_wf (g_net s') \<and> configured (g_net s') \<and>
      n_dhcp_state (g_net s') \<noteq> DHCP_IDLE \<and> 0 \<le> n_fd (g_net s'))"
  proof (cases "fd < 0")
    case True
    with rest o show ?thesis by (auto elim!: run_bind_pairE)
  next
    case False
    with rest o obtain c s2 where l: "link_info K s1 = Some (c, s2)"
      and rest': "(if c \<noteq> 0 then Some (1, s2) else do { s \<leftarrow> md_configure K s2; Some (0, s) }) = Some (rc, s')"
      by (auto elim!: run_bindE)
    obtain m mtu up where m: "length m = length (n_mac (g_net s1))"
      "g_net s2 = g_net s1\<lparr>n_mac := m, n_mtu := mtu, n_link_up := up\<rparr>"
      by (rule link_info_post [OF l])
    have mac2: "length (n_mac (g_net s2)) = 6" using m mac n1 by simp
    from rest' consider "rc = 1" | "rc = 0" "md_configure K s2 = Some s'"
      by (auto elim!: run_bindE split: if_splits)
    then show ?thesis
    proof cases
      case 2
      then show ?thesis using md_configure_post [OF mac2 2(2)] m n1 False by simp
    qed simp
  qed
  then show "rc = 0 \<or> rc = 1"
    "rc = 0 \<Longrightarrow> net_wf (g_net s') \<and> configured (g_net s') \<and> n_dhcp_state (g_net s') \<noteq> DHCP_IDLE \<and>
       0 \<le> n_fd (g_net s')" by simp_all
qed

text \<open>Without the device, or without its address, nothing else is attempted.\<close>

lemma md_init_no_device:
  assumes "say K ''[netd] starting'' s = Some (0, s0)" "sys_open K NIC_PATH 2 0 s0 = (fd, s1)" "fd < 0"
  shows "\<exists>s'. md_init K s = Some (1, s') \<and> same_statics (set_net (g_net s1\<lparr>n_fd := fd\<rparr>) s1) s'"
proof -
  obtain s' where "say_cannot_open K (set_net (g_net s1\<lparr>n_fd := fd\<rparr>) s1) = Some (0, s')"
    "same_statics (set_net (g_net s1\<lparr>n_fd := fd\<rparr>) s1) s'" by (rule say_cannot_open.speaks)
  with assms show ?thesis by (simp add: md_init_def driver_open_def)
qed

lemma md_init_no_mac:
  assumes "say K ''[netd] starting'' s = Some (0, s0)" "sys_open K NIC_PATH 2 0 s0 = (fd, s1)" "0 \<le> fd"
    and "query_mac K (set_net (g_net s1\<lparr>n_fd := fd\<rparr>) s1) = Some (status, s2)" "status \<noteq> 0"
  shows "\<exists>s'. md_init K s = Some (1, s') \<and> same_statics s2 s'"
proof -
  obtain s' where "say K ''[netd] FATAL: GET_MAC failed'' s2 = Some (0, s')" "same_statics s2 s'"
    by (rule say_no_mac.speaks)
  with assms show ?thesis by (simp add: md_init_def driver_open_def link_info_def)
qed

section \<open>The running daemon\<close>

lemma main_step_keeps:
  assumes wf: "net_wf (g_net s)" and run: "main_step K s = Some s'"
  shows "keeps s s'"
proof -
  from run obtain a s0 s1 where say: "say K ''LOOP'' s = Some (a, s0)" and rx: "rx_once K s0 = Some ((), s1)"
    and s': "s' = sleep K 1 s1"
    by (auto simp: main_step_def elim!: run_bindE)
  have st: "same_statics s s0" using say by (rule say_loop.statics)
  have "net_wf (g_net s0)" using wf st by (simp add: same_statics_def)
  then have "keeps s0 s1" using rx_once_step [OF _ rx] by (intro keeps_rx_steps rx_steps_one)
  with keeps_statics [OF st] have "keeps s s1" by (rule keeps_trans)
  moreover have "keeps s1 s'" unfolding s' by (intro keeps_statics sleep_statics)
  ultimately show ?thesis by (rule keeps_trans)
qed

text \<open>
  Whatever frames arrive and whatever the clients ask, in any order: the state stays well formed, the
  device open, and the DHCP machine started.
\<close>

definition daemon_ok :: "netd_state_t \<Rightarrow> bool" where
  "daemon_ok n \<longleftrightarrow> net_wf n \<and> 0 \<le> n_fd n \<and> n_dhcp_state n \<noteq> DHCP_IDLE"

lemma keeps_daemon_ok: "keeps s s' \<Longrightarrow> daemon_ok (g_net s) \<Longrightarrow> daemon_ok (g_net s')"
  by (auto simp: keeps_def daemon_ok_def dest: dhcp_steps_not_idle)

lemma daemon_step_keeps:
  assumes wf: "net_wf (g_net s)" and step: "daemon_step K s s'"
  shows "keeps s s'"
  using step
proof (rule daemon_stepE)
  show "keeps s s'" if "main_step K s = Some s'" using main_step_keeps [OF wf that] .
  show "keeps s s'" if "api_invoke K in_ptr in_size out_buf out_size s = Some (r, s')" for in_ptr in_size out_buf out_size r
    using api_invoke_keeps [OF wf that] .
  show "keeps s s'" if "s' = s\<lparr>os := w\<rparr>" for w using that by (simp add: keeps_def)
qed

lemma reachable_ok: "reachable K s \<Longrightarrow> daemon_ok (g_net s)"
proof (induction rule: reachable.induct)
  case (start s)
  then show ?case using md_init_post(2) [OF _ start]
    by (simp add: boot_def zero_net_def daemon_ok_def)
next
  case (step s s')
  then have "net_wf (g_net s)" by (simp add: daemon_ok_def)
  then have "keeps s s'" using step.hyps(2) by (rule daemon_step_keeps)
  then show ?case using step.IH by (rule keeps_daemon_ok)
qed

text \<open>What holds along a run: the lease goes only forward, the device stays.\<close>

lemma daemon_steps_keep:
  assumes "(daemon_step K)\<^sup>*\<^sup>* s s'" "reachable K s"
  shows "keeps s s' \<and> reachable K s'"
  using assms
proof (induction rule: rtranclp_induct)
  case base
  then show ?case by simp
next
  case (step s' s'')
  then have "net_wf (g_net s')" using reachable_ok by (auto simp: daemon_ok_def)
  then have "keeps s' s''" using step.hyps(2) by (rule daemon_step_keeps)
  with step show ?case by (auto intro: keeps_trans reachable.step)
qed

lemma lease_advances:
  assumes "reachable K s" "(daemon_step K)\<^sup>*\<^sup>* s s'"
  shows "n_dhcp_state (g_net s) \<le> n_dhcp_state (g_net s')" "n_fd (g_net s') = n_fd (g_net s)"
    "n_mac (g_net s') = n_mac (g_net s)"
  using daemon_steps_keep [OF assms(2,1)] by (auto simp: keeps_def dest: dhcp_steps_forward)

end
