(* ===== verification/Liveness.thy ===== *)
theory Liveness
  imports Daemon
begin

text \<open>
  The waits end. \<open>time_ms\<close> reads the milliseconds since the boot of the machine (\<open>SYS_TIME\<close>); the kernel
  is steady if they are those of a clock of nanoseconds that never stands still while a program reads
  it and that no other call sets back. Then the wait for an echo reply ends; and on a network on which
  nothing arrives so do the wait for a lease, with the fallback addresses, and the wait for an answer of
  the name server, with an error.
\<close>

section \<open>The clock\<close>

definition clock_reading :: "nat \<Rightarrow> nat" where
  "clock_reading ns = min (ns div 1000000) (2 ^ 64 - 1)"

definition steady :: "'w kernel \<Rightarrow> ('w \<Rightarrow> nat) \<Rightarrow> bool" where
  "steady K now \<longleftrightarrow>
     (\<forall>w t w'. k_time K w = (t, w') \<longrightarrow> unat t = clock_reading (now w) \<and> now w < now w') \<and>
     (\<forall>w. now w \<le> now (k_yield K w)) \<and>
     (\<forall>fd bs w n w'. k_write K fd bs w = (n, w') \<longrightarrow> now w \<le> now w') \<and>
     (\<forall>fd n w r w'. k_read K fd n w = (r, w') \<longrightarrow> now w \<le> now w')"

lemma steady_time:
  "steady K now \<Longrightarrow> time_ms K s = (t, s') \<Longrightarrow> unat t = clock_reading (now (os s)) \<and> now (os s) < now (os s')"
  by (fastforce simp: steady_def time_ms_def split: prod.splits)

lemma steady_yield: "steady K now \<Longrightarrow> now (os s) \<le> now (os (yield K s))"
  by (simp add: steady_def yield_def)

lemma steady_write: "steady K now \<Longrightarrow> sys_write K fd bs s = (n, s') \<Longrightarrow> now (os s) \<le> now (os s')"
  by (fastforce simp: steady_def sys_write_def split: prod.splits)

lemma steady_read: "steady K now \<Longrightarrow> sys_read K fd n s = (r, s') \<Longrightarrow> now (os s) \<le> now (os s')"
  by (fastforce simp: steady_def sys_read_def split: prod.splits)

text \<open>How many nanoseconds are left until a deadline: the measure of the loops that wait for it.\<close>

definition time_left :: "('w \<Rightarrow> nat) \<Rightarrow> u64 \<Rightarrow> 'w machine \<Rightarrow> nat" where
  "time_left now deadline s = unat deadline * 1000000 - now (os s)"

lemma time_left_less:
  assumes "steady K now" "time_ms K s = (t, s1)" "t < deadline" "now (os s1) \<le> now (os s2)"
  shows "time_left now deadline s2 < time_left now deadline s"
proof -
  have t: "unat t = clock_reading (now (os s))" "now (os s) < now (os s1)"
    using steady_time [OF assms(1,2)] by auto
  have "unat t < unat deadline" using assms(3) by (simp add: word_less_nat_alt)
  moreover have "unat deadline \<le> 2 ^ 64 - 1" using unat_u64_less [of deadline] by simp
  ultimately have "now (os s) div 1000000 < unat deadline" using t(1) by (simp add: clock_reading_def)
  then have "now (os s) < unat deadline * 1000000" by (simp add: div_less_iff_less_mult)
  with t(2) assms(4) show ?thesis by (simp add: time_left_def)
qed

section \<open>Ping\<close>

lemma ping_wait_returns:
  assumes steady: "steady K now"
  shows "\<exists>s'. ping_wait K deadline s = Some s'"
proof (induction "time_left now deadline s" arbitrary: s rule: less_induct)
  case less
  obtain t s1 where t: "time_ms K s = (t, s1)" by fastforce
  show ?case
  proof (cases "t < deadline \<and> \<not> n_ping_replied (g_net s1)")
    case True
    then have "time_left now deadline (yield K s1) < time_left now deadline s"
      using time_left_less [OF steady t] steady_yield [OF steady] by blast
    from less [OF this] True t show ?thesis by (subst ping_wait.simps) auto
  next
    case False
    with t show ?thesis by (subst ping_wait.simps) auto
  qed
qed

lemma ping_loop_returns:
  assumes live: "live K \<mu>" and steady: "steady K now"
  shows "net_wf (g_net s) \<Longrightarrow> \<exists>rep' s'. ping_loop K ip ident timeout is rep s = Some (rep', s')"
proof (induction "is" arbitrary: rep s)
  case Nil
  then show ?case by simp
next
  case (Cons i "is")
  obtain st s1 where p: "icmp_ping K ip ident (1 + of_nat i) s = Some (st, s1)"
    by (rule icmp_ping_returns [OF live net_wf_link [OF Cons.prems]])
  obtain c where c: "arp_wf c" "g_net s1 = g_net s\<lparr>n_arp_cache := c, n_ping_id := ident,
      n_ping_seq := 1 + of_nat i, n_ping_replied := False\<rparr>"
    by (rule icmp_ping_only [OF net_wf_link [OF Cons.prems] p])
  obtain t s2 where t: "time_ms K s1 = (t, s2)" by fastforce
  obtain s3 where w: "ping_wait K (t + ucast timeout) s2 = Some s3"
    using ping_wait_returns [OF steady] by blast
  have net: "g_net s3 = g_net s1"
    using time_ms_net [OF t] ping_wait_statics [OF w] by (simp add: same_statics_def)
  have "net_wf (g_net s3)" using Cons.prems c net by (simp add: net_wf_def link_wf_def)
  moreover have "\<not> n_ping_replied (g_net s3)" using c net by simp
  ultimately show ?case using p t w Cons.IH by (simp add: Let_def)
qed

text \<open>A ping request always returns, and always with the answer that nobody replied.\<close>

lemma cmd_ping_returns:
  assumes live: "live K \<mu>" and steady: "steady K now" and wf: "net_wf (g_net s)"
    and len: "12 \<le> in_size" "12 \<le> length in_buf"
  shows "\<exists>s'. cmd_ping K in_buf in_size s = Some ((-1, replicate 8 0), s') \<and> keeps s s'"
proof -
  obtain t s1 where t: "time_ms K s = (t, s1)" by fastforce
  have wf1: "net_wf (g_net s1)" using wf time_ms_net [OF t] by simp
  obtain req where req: "adv in_buf 4 = Some (drop 4 in_buf)" "get_ping_req (drop 4 in_buf) = Some req"
    using len by (simp add: adv_Some ld16_def ld32_def rd_Some)
  obtain rep s2 where "ping_loop K (pr_ip req) (ucast (t AND 0xFFFF))
      (if pr_timeout_ms req \<noteq> 0 then ucast (pr_timeout_ms req) else 2000)
      [0..<unat (if pr_count req \<noteq> 0 then pr_count req else 1)] (0, 0) s1 = Some (rep, s2)"
    using ping_loop_returns [OF live steady wf1] by blast
  then have "\<exists>st bs s'. cmd_ping K in_buf in_size s = Some ((st, bs), s')"
    using len(1) req t by (simp only: cmd_ping_def Let_def) (simp del: get_defs split: prod.split)
  then obtain st bs s' where run: "cmd_ping K in_buf in_size s = Some ((st, bs), s')" by blast
  with cmd_ping_never [OF wf len(1) run] show ?thesis by auto
qed

section \<open>A silent network\<close>

text \<open>
  \<open>silent K\<close>: the device takes a receive poll, and answers it with nothing, or with a reply that says
  that there is no frame.
\<close>

definition silent :: "'w kernel \<Rightarrow> bool" where
  "silent K \<longleftrightarrow> (\<forall>fd w n w1 r w2.
     k_write K fd (le32 NET_CMD_RX_POLL @ replicate 4 0) w = (n, w1) \<longrightarrow> k_read K fd 1519 w1 = (r, w2) \<longrightarrow>
     0 \<le> n \<and> (r = ReadOk [] \<or>
       (\<exists>bs. r = ReadOk bs \<and> 12 \<le> length bs \<and> length bs \<le> 1519 \<and> last bs = 0 \<and> reply_len bs = 0)))"

lemma driver_rx_silent:
  assumes silent: "silent K"
  obtains s' where "driver_rx K frame len s = Some ((0, frame, 0), s')" "same_statics s s'"
    "steady K now \<longrightarrow> now (os s) \<le> now (os s')"
proof -
  let ?fd = "n_fd (g_net s)"
  obtain n s1 where w: "sys_write K ?fd (le32 NET_CMD_RX_POLL @ replicate 4 0) s = (n, s1)" by fastforce
  obtain r s2 where r: "sys_read K ?fd 1519 s1 = (r, s2)" by fastforce
  have net1: "g_net s1 = g_net s" using sys_write_statics [OF w] by (simp add: same_statics_def)
  have poll: "st32 0 NET_CMD_RX_POLL (replicate 8 0) = Some (le32 NET_CMD_RX_POLL @ replicate 4 0)"
    by (simp add: st32_def wr_def)
  obtain w1 w2 where kw: "k_write K ?fd (le32 NET_CMD_RX_POLL @ replicate 4 0) (os s) = (n, w1)"
      "k_read K ?fd 1519 w1 = (r, w2)"
    using w r by (auto simp: sys_write_def sys_read_def split: prod.splits)
  have n: "0 \<le> n" and cases: "r = ReadOk [] \<or>
      (\<exists>bs. r = ReadOk bs \<and> 12 \<le> length bs \<and> length bs \<le> 1519 \<and> last bs = 0 \<and> reply_len bs = 0)"
    using silent [unfolded silent_def, rule_format, OF kw] by blast+
  have run: "driver_rx K frame len s = Some ((0, frame, 0), s2)"
    using cases
  proof
    assume "r = ReadOk []"
    then have "rx_read K (replicate 1520 0) 0 s1 = Some (RxNothing, s2)"
      using r net1 by (simp add: rx_read.simps [of K _ 0 s1])
    with w n poll show ?thesis by (simp add: driver_rx_def)
  next
    assume "\<exists>bs. r = ReadOk bs \<and> 12 \<le> length bs \<and> length bs \<le> 1519 \<and> last bs = 0 \<and> reply_len bs = 0"
    then obtain bs where bs: "r = ReadOk bs" "12 \<le> length bs" "length bs \<le> 1519" "last bs = 0" "reply_len bs = 0"
      by blast
    have ne: "bs \<noteq> []" using bs(2) by auto
    let ?rep = "bs @ replicate (1520 - length bs) 0"
    have wr0: "wr 0 bs (replicate 1520 0) = Some ?rep" using bs(3) by (simp add: wr_def drop_replicate)
    have "ld8 ?rep (length bs - Suc 0) = Some (last bs)"
      using ne by (simp add: ld8_def nth_append last_conv_nth)
    then have rx: "rx_read K (replicate 1520 0) 0 s1 = Some (RxReply ?rep (length bs), s2)"
      using r net1 bs(1,4) ne wr0 by (simp add: rx_read.simps [of K _ 0 s1])
    have "unat (of_le32 (take 4 (drop 8 bs))) = 0" using bs(5) by (simp add: reply_len_def)
    then have "ld32 ?rep 8 = Some 0" using bs(2) by (simp add: ld32_def rd_def unat_eq_0)
    with w n poll rx bs(2) show ?thesis by (simp add: driver_rx_def)
  qed
  moreover have "same_statics s s2" using sys_write_statics [OF w] sys_read_statics [OF r] by (rule same_statics_trans)
  moreover have "now (os s) \<le> now (os s2)" if "steady K now"
    using steady_write [OF that w] steady_read [OF that r] by (rule order_trans)
  ultimately show ?thesis using that by blast
qed

lemma rx_once_silent:
  assumes silent: "silent K"
  obtains s' where "rx_once K s = Some ((), s')" "same_statics s s'" "steady K now \<longrightarrow> now (os s) \<le> now (os s')"
proof (rule driver_rx_silent [OF silent, of "junk K s 1518" 1518 s now])
  fix s' assume "driver_rx K (junk K s 1518) 1518 s = Some ((0, junk K s 1518, 0), s')" "same_statics s s'"
    "steady K now \<longrightarrow> now (os s) \<le> now (os s')"
  then show thesis using that by (simp add: rx_once_def)
qed

lemma dhcp_wait_silent:
  assumes steady: "steady K now" and silent: "silent K"
  shows "\<exists>s'. dhcp_wait K deadline s = Some s' \<and> same_statics s s'"
proof (induction "time_left now deadline s" arbitrary: s rule: less_induct)
  case less
  obtain t s1 where t: "time_ms K s = (t, s1)" by fastforce
  then have st1: "same_statics s s1" by (rule time_ms_statics)
  show ?case
  proof (cases "\<not> dhcp_bound s \<and> t < deadline")
    case True
    obtain s2 where rx: "rx_once K s1 = Some ((), s2)" "same_statics s1 s2"
      "steady K now \<longrightarrow> now (os s1) \<le> now (os s2)"
      by (rule rx_once_silent [OF silent, of s1 now])
    have "time_left now deadline s2 < time_left now deadline s"
      using time_left_less [OF steady t] True rx(3) [rule_format, OF steady] by blast
    from less [OF this] obtain s' where "dhcp_wait K deadline s2 = Some s'" "same_statics s2 s'" by blast
    moreover have "same_statics s s2" using st1 rx(2) by (rule same_statics_trans)
    ultimately show ?thesis using True t rx(1)
      by (subst dhcp_wait.simps) (auto intro: same_statics_trans)
  next
    case False
    with t st1 show ?thesis by (subst dhcp_wait.simps) auto
  qed
qed

lemma dns_wait_silent:
  assumes steady: "steady K now" and silent: "silent K"
  shows "n_dns_done (g_net s) = 0 \<Longrightarrow> \<exists>s'. dns_wait K deadline s = Some s' \<and> same_statics s s'"
proof (induction "time_left now deadline s" arbitrary: s rule: less_induct)
  case less
  obtain t s1 where t: "time_ms K s = (t, s1)" by fastforce
  then have st1: "same_statics s s1" by (rule time_ms_statics)
  show ?case
  proof (cases "t < deadline")
    case True
    obtain s2 where rx: "driver_rx K (junk K s1 1518) 1518 s1 = Some ((0, junk K s1 1518, 0), s2)"
      "same_statics s1 s2" "steady K now \<longrightarrow> now (os s1) \<le> now (os s2)"
      by (rule driver_rx_silent [OF silent, of "junk K s1 1518" 1518 s1 now])
    have st2: "same_statics s (yield K s2)"
      using st1 rx(2) yield_statics by (blast intro: same_statics_trans)
    have "now (os s1) \<le> now (os (yield K s2))"
      using rx(3) [rule_format, OF steady] steady_yield [OF steady] by (rule order_trans)
    then have "time_left now deadline (yield K s2) < time_left now deadline s"
      using time_left_less [OF steady t] True by blast
    moreover have "n_dns_done (g_net (yield K s2)) = 0" using st2 less.prems by (simp add: same_statics_def)
    ultimately obtain s' where "dns_wait K deadline (yield K s2) = Some s'" "same_statics (yield K s2) s'"
      using less.hyps by blast
    moreover have "n_dns_done (g_net s2) = 0" using st1 rx(2) less.prems by (simp add: same_statics_def)
    ultimately show ?thesis using True t rx(1) st2
      by (subst dns_wait.simps) (auto intro: same_statics_trans)
  next
    case False
    with t st1 show ?thesis by (subst dns_wait.simps) auto
  qed
qed

text \<open>A resolution that nobody answers ends with an error.\<close>

lemma dns_resolve_silent:
  assumes live: "live K \<mu>" and steady: "steady K now" and silent: "silent K" and wf: "net_wf (g_net s)"
    and conf: "n_dns (g_net s) \<noteq> 0" "n_ip (g_net s) \<noteq> 0"
    and ls: "\<forall>l\<in>set ls. label_ok l" "length (dns_query 0 ls) < 256"
  shows "\<exists>s'. dns_resolve K (dotted ls @ 0 # r) s = Some ((-1, None), s') \<and> net_wf (g_net s')"
proof -
  obtain t s1 where t: "time_ms K s = (t, s1)" by fastforce
  let ?s2 = "set_net (g_net s1\<lparr>n_dns_txid := ucast (t AND 0xFFFF), n_dns_done := 0, n_dns_result := 0\<rparr>) s1"
  let ?x = "n_dns_txid (g_net ?s2)"
  let ?n = "length (dns_query ?x ls)" and ?q = "dns_query ?x ls @ drop (length (dns_query ?x ls)) (junk K ?s2 256)"
  have n: "?n < 256" using ls(2) by (simp add: dns_query_length)
  have q: "dns_build_query (junk K ?s2 256) 256 ?x (dotted ls @ 0 # r) = Some (int ?n, ?q)"
    using dns_build_query_eq [OF ls(1), of ?x 256 "junk K ?s2 256" r] n by simp
  have wf2: "link_wf (g_net ?s2)" using wf time_ms_net [OF t] by (simp add: net_wf_def link_wf_def set_net_def)
  have u: "unat (of_int (int ?n) :: u16) = ?n" using n by (simp add: unat_of_nat_u16)
  have l: "unat (of_int (int ?n) :: u16) \<le> length ?q" "unat (of_int (int ?n) :: u16) \<le> 1458"
    unfolding u using n by simp_all
  obtain st s3 where tx: "udp_tx K (n_dns (g_net ?s2)) 1053 DNS_PORT ?q (of_int (int ?n)) ?s2 = Some (st, s3)"
    "tx_only ?s2 s3" by (rule udp_tx_returns [OF live wf2 l])
  obtain t' s4 where t': "time_ms K s3 = (t', s4)" by fastforce
  have d3: "n_dns_done (g_net s3) = 0" using tx(2) by (auto elim!: tx_onlyE simp: set_net_def)
  have d4: "n_dns_done (g_net s4) = 0" using d3 time_ms_net [OF t'] by simp
  obtain s5 where w: "dns_wait K (t' + DNS_MAX_WAIT_MS) s4 = Some s5" "same_statics s4 s5"
    using dns_wait_silent [OF steady silent d4] by blast
  have d5: "n_dns_done (g_net s5) = 0" using w(2) d4 by (simp add: same_statics_def)
  have run: "dns_resolve K (dotted ls @ 0 # r) s = Some ((-1, None), s5)"
    using conf t q tx(1) t' w(1) d5 unfolding dns_resolve_def Let_def by simp
  with keeps_net_wf [OF dns_resolve_post(1) [OF wf run] wf] show ?thesis by blast
qed

section \<open>Starting without a network\<close>

text \<open>A question to the driver that takes nothing and leaves room for a reply that fits is answered once the
  device answers, whatever it says.\<close>

lemma driver_query_returns:
  assumes live: "live K \<mu>" and room: "unat rl \<le> 1508"
  obtains st bs s' where "driver_transact K cmd None 0 (Some rl) s = Some ((st, bs), s')"
    "length bs \<le> unat rl" "same_statics s s'"
proof -
  obtain pkt where pkt: "transact_pkt K cmd None 0 s = Some pkt" "8 \<le> length pkt"
    by (simp add: transact_pkt_def wr_def st32_def)
  obtain n s1 where w: "sys_write K (n_fd (g_net s)) (take 8 pkt) s = (n, s1)" by fastforce
  obtain r s2 where r: "transact_read K (replicate 1520 0) 0 s1 = Some (r, s2)"
    using transact_read_returns [OF live, of "replicate 1520 0" 0 s1] by auto
  have out: "rd pkt 0 8 = Some (take 8 pkt)" using pkt(2) by (simp add: rd_def)
  have "\<exists>st bs s'. driver_transact K cmd None 0 (Some rl) s = Some ((st, bs), s') \<and> length bs \<le> unat rl"
  proof (cases r)
    case (Inl e)
    with pkt out w r show ?thesis by (simp add: driver_transact_def)
  next
    case (Inr y)
    obtain rep got where y: "y = (rep, got)" by fastforce
    have len: "length rep = 1520" using transact_read_post [OF r] Inr y by (simp add: read_post_def)
    obtain status len' where ld: "ld32 rep 4 = Some status" "ld32 rep 8 = Some len'"
      using len by (simp add: ld32_def rd_def)
    have "unat (if len' < rl then len' else rl) \<le> unat rl" by (simp add: word_less_nat_alt)
    then show ?thesis using pkt out w r Inr y ld len room
      by (simp add: driver_transact_def rd_Some del: length_0_conv)
  qed
  then show ?thesis using that driver_transact_statics by blast
qed

lemma query_word_returns:
  assumes live: "live K \<mu>"
  obtains v s' where "query_word K cmd s = Some (v, s')" "same_statics s s'"
proof -
  obtain st bs s' where t: "driver_transact K cmd None 0 (Some 4) s = Some ((st, bs), s')"
    "length bs \<le> unat (4 :: u32)" "same_statics s s'"
    by (rule driver_query_returns [OF live, of 4]) simp_all
  then obtain v where "wr 0 bs (le32 0) = Some v" "length v = 4"
    by (auto intro: wr_in_bounds [of 0 bs "le32 0"])
  with t that show ?thesis by (simp add: query_word_def ld32_def rd_def)
qed

text \<open>
  The device opens and tells its address: on a silent network the daemon reaches its receive loop,
  after the ten seconds, with the fallback addresses and no lease.
\<close>

lemma md_configure_silent:
  assumes live: "live K \<mu>" and steady: "steady K now" and silent: "silent K"
    and code: "register_codes K"
    and mac: "length (n_mac (g_net s)) = 6"
  obtains s' where "md_configure K s = Some s'" "n_dhcp_state (g_net s') = DHCP_DISCOVER"
    "net_wf (g_net s')" "configured (g_net s')"
proof -
  let ?s1 = "set_binds (replicate UDP_MAX_BINDS zero_udp_bind) (arp_init s)"
  obtain t0 where say: "say K ''[netd] starting DHCP'' ?s1 = Some (0, t0)" "same_statics ?s1 t0"
    by (rule say_dhcp.speaks)
  have n1: "g_net t0 = g_net ?s1" using say(2) by (simp add: same_statics_def)
  have wf1: "link_wf (g_net t0)" "binds_wf (n_udp_binds (g_net t0))"
    using mac arp_init_wf [of s] zero_binds_wf
    by (simp_all add: n1 link_wf_def set_binds_def set_net_def arp_init_def set_arp_def)
  obtain s2 where start: "dhcp_start K t0 = Some ((), s2)" by (rule dhcp_start_returns [OF live wf1(1)])
  note p2 = dhcp_start_post [OF wf1 start]
  obtain t s3 where t: "time_ms K s2 = (t, s3)" by fastforce
  obtain s4 where w: "dhcp_wait K (t + DHCP_TIMEOUT_MS) s3 = Some s4" "same_statics s3 s4"
    using dhcp_wait_silent [OF steady silent] by blast
  have net4: "g_net s4 = g_net s2" using time_ms_net [OF t] w(2) by (simp add: same_statics_def)
  obtain u where fbs: "say K ''[netd] DHCP failed, falling back to 10.0.2.15/24'' s4 = Some (0, u)" "same_statics s4 u"
    by (rule say_fallback.speaks)
  let ?t = "set_net (g_net u\<lparr>n_ip := MAKE_IP 10 0 2 15, n_netmask := MAKE_IP 255 255 255 0,
       n_gateway := MAKE_IP 10 0 2 1, n_dns := MAKE_IP 8 8 8 8\<rparr>) u"
  have "link_wf (g_net s2)" using p2 by blast
  then have "link_wf (g_net ?t)" unfolding net4 [symmetric] using fbs(2)
    by (simp add: link_wf_def set_net_def same_statics_def)
  then obtain s5 where fb: "arp_announce K ?t = Some ((), s5)" "same_statics ?t s5"
    by (rule arp_announce_returns [OF live])
  have nb: "\<not> dhcp_bound s4" using p2 net4 by (simp add: dhcp_bound_def)
  obtain s6 where s6: "say_addresses K (n_ip (g_net s5)) (n_netmask (g_net s5)) (n_gateway (g_net s5)) (n_dns (g_net s5)) s5 =
      Some (0, s6)" "same_statics s5 s6" by (rule say_addresses.speaks)
  obtain s7 where s7: "say K ''[netd] ready'' s6 = Some (0, s7)" "same_statics s6 s7" by (rule say_ready.speaks)
  obtain s8 where api: "api_init K s7 = Some ((), s8)" by (rule api_init_returns [OF code])
  have run: "md_configure K s = Some s8"
    using say(1) start t w(1) fbs(1) fb(1) nb s6(1) s7(1) api by (simp add: md_configure_def fallback_def)
  have "g_net s8 = g_net s5" using s6(2) s7(2) api_init_statics [OF api] by (simp add: same_statics_def)
  then have "n_dhcp_state (g_net s8) = DHCP_DISCOVER"
    using fb(2) fbs(2) p2 net4 by (simp add: same_statics_def set_net_def)
  with run md_configure_post [OF mac run] that show ?thesis by blast
qed

lemma md_init_silent:
  assumes live: "live K \<mu>" and steady: "steady K now" and silent: "silent K"
    and code: "register_codes K"
    and mac: "length (n_mac (g_net s)) = 6"
    and starting: "say K ''[netd] starting'' s = Some (0, s0)"
    and opens: "sys_open K NIC_PATH 2 0 s0 = (fd, s1)" "0 \<le> fd"
    and tells: "query_mac K (set_net (g_net s1\<lparr>n_fd := fd\<rparr>) s1) = Some (0, s2)"
  shows "\<exists>s'. md_init K s = Some (0, s') \<and> n_dhcp_state (g_net s') = DHCP_DISCOVER \<and>
    net_wf (g_net s') \<and> n_ip (g_net s') = 0x0A00020F"
proof -
  let ?s1 = "set_net (g_net s1\<lparr>n_fd := fd\<rparr>) s1"
  have n1: "g_net s1 = g_net s" using sys_open_statics [OF opens(1)] say_starting.keeps_net [OF starting]
    by (simp add: same_statics_def)
  obtain m where "length m = length (n_mac (g_net ?s1))" "g_net s2 = g_net ?s1\<lparr>n_mac := m\<rparr>"
    by (rule query_mac_post [OF tells])
  then have mac2: "length (n_mac (g_net s2)) = 6" using mac n1 by (simp add: set_net_def)
  obtain t where t: "say_mac K (n_mac (g_net s2)) s2 = Some (0, t)" "same_statics s2 t" by (rule say_mac.speaks)
  obtain v s3 where v: "query_word K NET_CMD_GET_MTU t = Some (v, s3)" "same_statics t s3"
    by (rule query_word_returns [OF live])
  let ?s3 = "set_net (g_net s3\<lparr>n_mtu := (if v \<noteq> 0 then v else 1500)\<rparr>) s3"
  obtain u s4 where u: "query_word K NET_CMD_GET_LINK_UP ?s3 = Some (u, s4)" "same_statics ?s3 s4"
    by (rule query_word_returns [OF live])
  let ?s4 = "set_net (g_net s4\<lparr>n_link_up := u\<rparr>) s4"
  obtain s5 where l: "say_link K (n_link_up (g_net ?s4)) (n_mtu (g_net ?s4)) ?s4 = Some (0, s5)" "same_statics ?s4 s5"
    by (rule say_link.speaks)
  have "length (n_mac (g_net s5)) = 6" using mac2 t(2) v(2) u(2) l(2) by (simp add: same_statics_def set_net_def)
  then obtain s' where conf: "md_configure K s5 = Some s'" "n_dhcp_state (g_net s') = DHCP_DISCOVER"
    "net_wf (g_net s')" "configured (g_net s')" by (rule md_configure_silent [OF live steady silent code])
  have "link_info K ?s1 = Some (0, s5)"
    using tells t(1) v(1) u(1) l(1) unfolding link_info_def Let_def by simp
  with starting opens conf(1) have "md_init K s = Some (0, s')" by (simp add: md_init_def driver_open_def)
  with conf show ?thesis by (simp add: configured_def)
qed

end
