(* ===== verification/Terminal.thy ===== *)
theory Terminal
  imports Daemon
begin

text \<open>
  Reading a line from the keyboard and draining the input devices (\<open>include/libc.h\<close>), and the entry point of the
  program, which drains them when \<open>md_main\<close> has returned. A line is edited as it is typed: a backspace takes the last
  character back, characters that cannot be printed or do not fit are dropped, and a line feed ends it.
\<close>

section \<open>Model\<close>

text \<open>The texts on the screen.\<close>

definition putc :: "'w kernel \<Rightarrow> u8 \<Rightarrow> 'w machine \<Rightarrow> 'w machine" where
  "putc K c s = snd (sys_write K 1 [c] s)"

definition puts_raw :: "'w kernel \<Rightarrow> u8 list option \<Rightarrow> 'w machine \<Rightarrow> 'w machine option" where
  "puts_raw K p s = do {
     let p = (case p of None \<Rightarrow> [32, 0] | Some p \<Rightarrow> p);
     n \<leftarrow> strlen p;
     bs \<leftarrow> rd p 0 n;
     Some (snd (sys_write K 1 bs s))
   }"

definition puts :: "'w kernel \<Rightarrow> u8 list option \<Rightarrow> 'w machine \<Rightarrow> 'w machine option" where
  "puts K p s = do { s \<leftarrow> puts_raw K p s; Some (putc K 10 s) }"

text \<open>\<open>read(fd, &c, 1)\<close>: the byte, if one was read.\<close>

definition read_char :: "'w kernel \<Rightarrow> int \<Rightarrow> 'w machine \<Rightarrow> (u8 option \<times> 'w machine) option" where
  "read_char K fd s =
     (case sys_read K fd 1 s of
        (ReadErr, s) \<Rightarrow> Some (None, s)
      | (ReadOk [], s) \<Rightarrow> Some (None, s)
      | (ReadOk [c], s) \<Rightarrow> Some (Some c, s)
      | (ReadOk _, s) \<Rightarrow> None)"

text \<open>The loops that drain a device.\<close>

partial_function (option) drain_events :: "'w kernel \<Rightarrow> int \<Rightarrow> 'w machine \<Rightarrow> 'w machine option" where
  "drain_events K fd s =
     (case sys_read K fd 64 s of
        (ReadErr, s) \<Rightarrow> Some s
      | (ReadOk bs, s) \<Rightarrow>
          if 64 < length bs then None else if bs = [] then Some s else drain_events K fd s)"

partial_function (option) drain_keys :: "'w kernel \<Rightarrow> int \<Rightarrow> 'w machine \<Rightarrow> 'w machine option" where
  "drain_keys K fd s = do {
     (c, s) \<leftarrow> read_char K fd s;
     if c = None then Some s else drain_keys K fd s
   }"

definition input_flush_events :: "'w kernel \<Rightarrow> 'w machine \<Rightarrow> 'w machine option" where
  "input_flush_events K s =
     (let (efd, s) = sys_open K ''$/dev/input/event0'' (O_RDONLY OR O_NONBLOCK) 0 s in
      if 0 \<le> efd then do { s \<leftarrow> drain_events K efd s; Some (snd (sys_close K efd s)) } else Some s)"

definition input_flush :: "'w kernel \<Rightarrow> 'w machine \<Rightarrow> 'w machine option" where
  "input_flush K s = do {
     let (kfd, s) = sys_open K ''$/dev/input/kbd0'' (O_RDONLY OR O_NONBLOCK) 0 s;
     s \<leftarrow> (if 0 \<le> kfd then do { s \<leftarrow> drain_keys K kfd s; Some (snd (sys_close K kfd s)) } else Some s);
     input_flush_events K s
   }"

text \<open>
  The loop over the characters of a line: \<open>n\<close> of them are in \<open>buf\<close>. A read that brings nothing, or fails, is tried
  again.
\<close>

partial_function (option) line_loop ::
  "'w kernel \<Rightarrow> int \<Rightarrow> nat \<Rightarrow> nat \<Rightarrow> u8 list \<Rightarrow> 'w machine \<Rightarrow> ((int \<times> u8 list) \<times> 'w machine) option" where
  "line_loop K fd safe_max n buf s = do {
     (r, s) \<leftarrow> read_char K fd s;
     (case r of
        None \<Rightarrow> line_loop K fd safe_max n buf (yield K s)
      | Some c \<Rightarrow>
          if c = 13 then line_loop K fd safe_max n buf s
          else if c = 10 then do {
            buf \<leftarrow> st8 n 0 buf;
            let s = snd (sys_close K fd s);
            s \<leftarrow> input_flush_events K s;
            Some ((int n, buf), s)
          }
          else if (c = 8 \<or> c = 127) \<and> 0 < n then do {
            buf \<leftarrow> st8 (n - 1) 0 buf;
            s \<leftarrow> puts_raw K (Some [8, 0]) s;
            line_loop K fd safe_max (n - 1) buf s
          }
          else if n < safe_max \<and> 32 \<le> sint c \<and> sint c < 127 then do {
            buf \<leftarrow> st8 n c buf;
            buf \<leftarrow> st8 (n + 1) 0 buf;
            s \<leftarrow> puts_raw K (Some [c, 0]) s;
            line_loop K fd safe_max (n + 1) buf s
          }
          else line_loop K fd safe_max n buf s)
   }"

text \<open>The result and the caller's array; a null \<open>buf\<close> is \<open>None\<close>.\<close>

definition input_line_to_buffer ::
  "'w kernel \<Rightarrow> u8 list option \<Rightarrow> nat \<Rightarrow> 'w machine \<Rightarrow> ((int \<times> u8 list option) \<times> 'w machine) option" where
  "input_line_to_buffer K p maxlen s =
     (case p of
        None \<Rightarrow> Some ((-1, None), s)
      | Some buf \<Rightarrow>
          if maxlen = 0 \<or> 0x7FFFFFFF < maxlen then Some ((-1, Some buf), s)
          else (case sys_open K ''$/dev/input/kbd0'' O_RDONLY 0 s of (fd, s) \<Rightarrow>
            if fd < 0 then do { buf \<leftarrow> st8 0 0 buf; Some ((-1, Some buf), s) }
            else do {
              ((n, buf), s) \<leftarrow> line_loop K fd (maxlen - 1) 0 buf s;
              Some ((n, Some buf), s)
            }))"

text \<open>\<open>input\<close> reads into its static array, whose contents are argument and result here.\<close>

definition input_line :: "'w kernel \<Rightarrow> u8 list \<Rightarrow> 'w machine \<Rightarrow> (u8 list \<times> 'w machine) option" where
  "input_line K input_buf s = do {
     ((_, p), s) \<leftarrow> input_line_to_buffer K (Some input_buf) 256 s;
     Some (case p of Some buf \<Rightarrow> buf | None \<Rightarrow> input_buf, s)
   }"

text \<open>
  The whole program: \<open>md_main\<close> loops for ever behind a successful start, and \<open>_start\<close> exits with its result after
  draining the input. The result is the exit status.
\<close>

partial_function (option) main_loop :: "'w kernel \<Rightarrow> 'w machine \<Rightarrow> (int \<times> 'w machine) option" where
  "main_loop K s = do { s \<leftarrow> main_step K s; main_loop K s }"

definition md_main :: "'w kernel \<Rightarrow> 'w machine \<Rightarrow> (int \<times> 'w machine) option" where
  "md_main K s = do {
     (rc, s) \<leftarrow> md_init K s;
     if rc \<noteq> 0 then Some (rc, s) else main_loop K s
   }"

definition start_process :: "'w kernel \<Rightarrow> 'w machine \<Rightarrow> (int \<times> 'w machine) option" where
  "start_process K s = do {
     (mdm, s) \<leftarrow> md_main K s;
     s \<leftarrow> input_flush K s;
     if mdm \<noteq> 0 then Some (mdm, s) else Some (0, s)
   }"

section \<open>The screen\<close>

lemma puts_raw_cstr: "cstr t p \<Longrightarrow> puts_raw K (Some p) s = Some (snd (sys_write K 1 t s))"
  by (auto simp: puts_raw_def strlen_cstr rd_def cstr_def)

section \<open>Draining ends\<close>

text \<open>
  A device has finitely many bytes to give: \<open>\<nu>\<close> counts what can still be read. No read brings more than it is asked for.
\<close>

definition finite_input :: "'w kernel \<Rightarrow> ('w \<Rightarrow> nat) \<Rightarrow> bool" where
  "finite_input K \<nu> \<longleftrightarrow> (\<forall>fd n w bs w'. k_read K fd n w = (ReadOk bs, w') \<longrightarrow>
     length bs \<le> n \<and> (bs \<noteq> [] \<longrightarrow> \<nu> w' < \<nu> w))"

lemma finite_inputD:
  "finite_input K \<nu> \<Longrightarrow> sys_read K fd n s = (ReadOk bs, s') \<Longrightarrow>
   length bs \<le> n \<and> (bs \<noteq> [] \<longrightarrow> \<nu> (os s') < \<nu> (os s))"
  by (fastforce simp: finite_input_def sys_read_def split: prod.splits)

lemma drain_events_returns:
  assumes fin: "finite_input K \<nu>"
  shows "\<exists>s'. drain_events K fd s = Some s' \<and> same_statics s s'"
proof (induction "\<nu> (os s)" arbitrary: s rule: less_induct)
  case less
  obtain r s1 where r: "sys_read K fd 64 s = (r, s1)" by fastforce
  have st: "same_statics s s1" using r by (rule sys_read_statics)
  show ?case
  proof (cases r)
    case ReadErr
    with r st show ?thesis by (subst drain_events.simps) simp
  next
    case (ReadOk bs)
    note bs = finite_inputD [OF fin r [unfolded ReadOk]]
    show ?thesis
    proof (cases "bs = []")
      case True
      with r st ReadOk show ?thesis by (subst drain_events.simps) simp
    next
      case False
      with bs less [of s1] obtain s' where "drain_events K fd s1 = Some s'" "same_statics s1 s'" by auto
      with r st ReadOk False bs show ?thesis
        by (subst drain_events.simps) (auto intro: same_statics_trans)
    qed
  qed
qed

lemma read_char_cases:
  assumes fin: "finite_input K \<nu>"
  obtains c s' where "read_char K fd s = Some (c, s')" "same_statics s s'" "c = None \<or> \<nu> (os s') < \<nu> (os s)"
proof -
  obtain r s1 where r: "sys_read K fd 1 s = (r, s1)" by fastforce
  have st: "same_statics s s1" using r by (rule sys_read_statics)
  show ?thesis
  proof (cases r)
    case ReadErr
    with r st that [of None s1] show ?thesis by (simp add: read_char_def)
  next
    case (ReadOk bs)
    with r finite_inputD [OF fin, of fd 1 s bs s1] have "length bs \<le> 1 \<and> (bs \<noteq> [] \<longrightarrow> \<nu> (os s1) < \<nu> (os s))" by simp
    then consider "bs = []" | c where "bs = [c]" "\<nu> (os s1) < \<nu> (os s)" by (cases bs) auto
    then show ?thesis
      by cases (use r st ReadOk that [of None s1] that [of "Some _" s1] in \<open>auto simp: read_char_def\<close>)
  qed
qed

lemma drain_keys_returns:
  assumes fin: "finite_input K \<nu>"
  shows "\<exists>s'. drain_keys K fd s = Some s' \<and> same_statics s s'"
proof (induction "\<nu> (os s)" arbitrary: s rule: less_induct)
  case less
  obtain c s1 where c: "read_char K fd s = Some (c, s1)" "same_statics s s1" "c = None \<or> \<nu> (os s1) < \<nu> (os s)"
    by (rule read_char_cases [OF fin, of fd s])
  show ?case
  proof (cases c)
    case None
    with c show ?thesis by (subst drain_keys.simps) simp
  next
    case (Some k)
    with c less [of s1] obtain s' where "drain_keys K fd s1 = Some s'" "same_statics s1 s'" by auto
    with c(1,2) Some show ?thesis by (subst drain_keys.simps) (auto intro: same_statics_trans)
  qed
qed

lemma closing: "same_statics s (snd (sys_close K fd s))"
  by (rule sys_close_statics [OF prod.collapse [symmetric]])

lemma input_flush_events_returns:
  assumes fin: "finite_input K \<nu>"
  obtains s' where "input_flush_events K s = Some s'" "same_statics s s'"
proof -
  obtain fd s1 where o: "sys_open K ''$/dev/input/event0'' (O_RDONLY OR O_NONBLOCK) 0 s = (fd, s1)" by fastforce
  have st: "same_statics s s1" using o by (rule sys_open_statics)
  obtain s2 where d: "drain_events K fd s1 = Some s2" "same_statics s1 s2"
    using drain_events_returns [OF fin] by blast
  have "same_statics s (snd (sys_close K fd s2))"
    using st d(2) closing by (blast intro: same_statics_trans)
  then show ?thesis using o st d(1) that by (cases "0 \<le> fd") (auto simp: input_flush_events_def)
qed

lemma input_flush_returns:
  assumes fin: "finite_input K \<nu>"
  obtains s' where "input_flush K s = Some s'" "same_statics s s'"
proof -
  obtain fd s1 where o: "sys_open K ''$/dev/input/kbd0'' (O_RDONLY OR O_NONBLOCK) 0 s = (fd, s1)" by fastforce
  have st: "same_statics s s1" using o by (rule sys_open_statics)
  obtain s2 where d: "drain_keys K fd s1 = Some s2" "same_statics s1 s2"
    using drain_keys_returns [OF fin] by blast
  let ?s3 = "if 0 \<le> fd then snd (sys_close K fd s2) else s1"
  have s3: "same_statics s ?s3" using st same_statics_trans [OF same_statics_trans [OF st d(2)] closing] by simp
  obtain s4 where e: "input_flush_events K ?s3 = Some s4" "same_statics ?s3 s4"
    by (rule input_flush_events_returns [OF fin])
  then have "input_flush K s = Some s4" using o d(1) by (cases "0 \<le> fd") (simp_all add: input_flush_def)
  then show ?thesis using same_statics_trans [OF s3 e(2)] that by blast
qed

section \<open>Editing a line\<close>

text \<open>What a key does to the line in front of the cursor, which holds at most \<open>mx\<close> characters.\<close>

definition printable :: "u8 \<Rightarrow> bool" where
  "printable c \<longleftrightarrow> 32 \<le> sint c \<and> sint c < 127"

definition edit_key :: "nat \<Rightarrow> u8 list \<Rightarrow> u8 \<Rightarrow> u8 list" where
  "edit_key mx l c =
     (if (c = 8 \<or> c = 127) \<and> l \<noteq> [] then butlast l
      else if length l < mx \<and> printable c then l @ [c] else l)"

definition typed_line :: "nat \<Rightarrow> u8 list \<Rightarrow> u8 list" where
  "typed_line mx ks = foldl (edit_key mx) [] ks"

lemma edit_key_return: "edit_key mx l 13 = l"
  by (simp add: edit_key_def printable_def)

lemma edit_key_ok:
  assumes "length l \<le> mx" "list_all printable l"
  shows "length (edit_key mx l c) \<le> mx" "list_all printable (edit_key mx l c)"
  using assms by (auto simp: edit_key_def list_all_iff dest: in_set_butlastD)

text \<open>
  The keyboard: \<open>kb\<close> are the keys still to be read. A read takes the next one or brings nothing, and then a \<open>yield\<close>
  comes nearer to the key (\<open>\<mu>\<close>). Echoing and yielding take no keys.
\<close>

definition keyboard :: "'w kernel \<Rightarrow> int \<Rightarrow> ('w \<Rightarrow> u8 list) \<Rightarrow> ('w \<Rightarrow> nat) \<Rightarrow> bool" where
  "keyboard K fd kb \<mu> \<longleftrightarrow>
     (\<forall>w r w' k ks. k_read K fd 1 w = (r, w') \<longrightarrow> kb w = k # ks \<longrightarrow>
        r = ReadOk [k] \<and> kb w' = ks \<or>
        (r = ReadErr \<or> r = ReadOk []) \<and> kb w' = kb w \<and> \<mu> (k_yield K w') < \<mu> w) \<and>
     (\<forall>w. kb (k_yield K w) = kb w) \<and>
     (\<forall>bs w n w'. k_write K 1 bs w = (n, w') \<longrightarrow> kb w' = kb w)"

lemma keyboard_read:
  assumes "keyboard K fd kb \<mu>" "kb (os s) = k # ks"
  obtains s' where "read_char K fd s = Some (Some k, s')" "kb (os s') = ks"
  | s' where "read_char K fd s = Some (None, s')" "kb (os (yield K s')) = k # ks" "\<mu> (os (yield K s')) < \<mu> (os s)"
proof -
  obtain r s1 where r: "sys_read K fd 1 s = (r, s1)" by fastforce
  then obtain w where w: "k_read K fd 1 (os s) = (r, w)" "s1 = s\<lparr>os := w\<rparr>"
    by (auto simp: sys_read_def split: prod.splits)
  with assms have "r = ReadOk [k] \<and> kb w = ks \<or>
      (r = ReadErr \<or> r = ReadOk []) \<and> kb w = k # ks \<and> \<mu> (k_yield K w) < \<mu> (os s) \<and> kb (k_yield K w) = kb w"
    unfolding keyboard_def by metis
  with r w(2) that show ?thesis by (auto simp: read_char_def yield_def)
qed

lemma keyboard_echo:
  assumes "keyboard K fd kb \<mu>"
  shows "kb (os (snd (sys_write K 1 bs s))) = kb (os s)"
  using assms by (auto simp: keyboard_def sys_write_def split: prod.split)

text \<open>The array while a line is typed: the line and its terminator, once there is one.\<close>

definition holds :: "u8 list \<Rightarrow> u8 list \<Rightarrow> bool" where
  "holds l buf \<longleftrightarrow> length l < length buf \<and> take (length l) buf = l"

lemma holds_snoc:
  assumes "holds l buf" "Suc (length l) < length buf"
  obtains b1 b2 where "st8 (length l) c buf = Some b1" "st8 (length l + 1) 0 b1 = Some b2" "holds (l @ [c]) b2"
    "length b2 = length buf" "drop (length l + 2) b2 = drop (length l + 2) buf"
proof -
  have "buf = l @ drop (length l) buf" using assms(1) by (metis append_take_drop_id holds_def)
  moreover obtain x y r where "drop (length l) buf = x # y # r"
    using assms(2) by (metis Cons_nth_drop_Suc Suc_lessD)
  ultimately have b: "buf = l @ x # y # r" by simp
  show ?thesis
    by (rule that [of "l @ c # y # r" "l @ c # 0 # r"]) (simp_all add: b st8_def wr_def holds_def)
qed

lemma holds_butlast:
  assumes "holds l buf" "l \<noteq> []"
  obtains b1 where "st8 (length l - 1) 0 buf = Some b1" "holds (butlast l) b1" "length b1 = length buf"
    "drop (length l) b1 = drop (length l) buf"
proof -
  obtain l' c where l: "l = l' @ [c]" using assms(2) by (metis rev_exhaust)
  have b: "buf = l' @ c # drop (length l) buf"
    using assms(1) unfolding l holds_def by (metis append.assoc append_Cons append_Nil append_take_drop_id)
  obtain r where r: "buf = l' @ c # r" using b by blast
  show ?thesis
    by (rule that [of "l' @ 0 # r"]) (simp_all add: r l st8_def wr_def holds_def)
qed

text \<open>The loop waits until the next key is there.\<close>

lemma read_char_statics: "read_char K fd s = Some (c, s') \<Longrightarrow> same_statics s s'"
  by (auto simp: read_char_def dest: sys_read_statics split: prod.splits read_result.splits list.splits)

lemma key_arrives:
  assumes kbd: "keyboard K fd kb \<mu>"
  shows "kb (os s) = k # ks \<Longrightarrow> \<exists>s0 s1. (\<forall>mx n buf. line_loop K fd mx n buf s = line_loop K fd mx n buf s0) \<and>
    read_char K fd s0 = Some (Some k, s1) \<and> kb (os s1) = ks \<and> same_statics s s1"
proof (induction "\<mu> (os s)" arbitrary: s rule: less_induct)
  case less
  from kbd less.prems show ?case
  proof (cases rule: keyboard_read)
    case (1 s1)
    then show ?thesis using read_char_statics by blast
  next
    case (2 s1)
    have eq: "line_loop K fd mx n buf s = line_loop K fd mx n buf (yield K s1)" for mx n buf
      using 2(1) by (subst line_loop.simps) simp
    obtain s0 s2 where s0: "\<forall>mx n buf. line_loop K fd mx n buf (yield K s1) = line_loop K fd mx n buf s0"
      "read_char K fd s0 = Some (Some k, s2)" "kb (os s2) = ks" "same_statics (yield K s1) s2"
      using less.hyps [OF 2(3,2)] by blast
    have "same_statics s s2"
      using read_char_statics [OF 2(1)] yield_statics s0(4) by (blast intro: same_statics_trans)
    with s0 eq show ?thesis by metis
  qed
qed

text \<open>What a key does in the loop.\<close>

lemma line_loop_key:
  assumes kbd: "keyboard K fd kb \<mu>" and key: "read_char K fd s = Some (Some k, s1)" "k \<noteq> 10"
    and buf: "holds l buf" "length l \<le> mx" "mx < length buf" "list_all printable l"
  obtains s2 buf' where
    "line_loop K fd mx (length l) buf s = line_loop K fd mx (length (edit_key mx l k)) buf' s2"
    "kb (os s2) = kb (os s1)" "same_statics s1 s2" "holds (edit_key mx l k) buf'" "length buf' = length buf"
    "drop (mx + 1) buf' = drop (mx + 1) buf"
proof -
  have echo: "puts_raw K (Some [c, 0]) s1 = Some (snd (sys_write K 1 [c] s1))" if "c \<noteq> 0" for c
    using puts_raw_cstr [of "[c]" "[c, 0]" K s1] that by simp
  let ?s2 = "\<lambda>c. snd (sys_write K 1 [c] s1)"
  have s2: "kb (os (?s2 c)) = kb (os s1)" "same_statics s1 (?s2 c)" for c
    using keyboard_echo [OF kbd] sys_write_statics [OF prod.collapse [symmetric]] by blast+
  consider (erase) "k = 8 \<or> k = 127" "l \<noteq> []" | (add) "\<not> ((k = 8 \<or> k = 127) \<and> l \<noteq> [])" "length l < mx" "printable k"
    | (skip) "\<not> ((k = 8 \<or> k = 127) \<and> l \<noteq> [])" "\<not> (length l < mx \<and> printable k)" by blast
  then show ?thesis
  proof cases
    case erase
    obtain b where b: "st8 (length l - 1) 0 buf = Some b" "holds (butlast l) b" "length b = length buf"
      "drop (length l) b = drop (length l) buf" by (rule holds_butlast [OF buf(1) erase(2)])
    have e: "edit_key mx l k = butlast l" "k \<noteq> 13" using erase by (auto simp: edit_key_def)
    have "drop (mx + 1) b = drop (mx + 1 - length l) (drop (length l) b)" using buf(2) by simp
    then have d: "drop (mx + 1) b = drop (mx + 1) buf" using b(4) buf(2) by simp
    have "line_loop K fd mx (length l) buf s = line_loop K fd mx (length (butlast l)) b (?s2 8)"
      using key erase e(2) b(1) echo [of 8] by (subst line_loop.simps) auto
    with e(1) s2 b(2,3) d that show ?thesis by metis
  next
    case add
    obtain b1 b2 where b: "st8 (length l) k buf = Some b1" "st8 (length l + 1) 0 b1 = Some b2" "holds (l @ [k]) b2"
      "length b2 = length buf" "drop (length l + 2) b2 = drop (length l + 2) buf"
      using holds_snoc [OF buf(1), of k] add(2) buf(3) by auto
    have e: "edit_key mx l k = l @ [k]" "k \<noteq> 13" "k \<noteq> 0" using add by (auto simp: edit_key_def printable_def)
    have le: "length l + 2 \<le> mx + 1" using add(2) by simp
    have "drop (mx + 1) b2 = drop (mx + 1 - (length l + 2)) (drop (length l + 2) b2)" using le by (simp only: drop_drop) simp
    also have "\<dots> = drop (mx + 1) buf" unfolding b(5) using le by (simp only: drop_drop) simp
    finally have d: "drop (mx + 1) b2 = drop (mx + 1) buf" .
    have "line_loop K fd mx (length l) buf s = line_loop K fd mx (length (l @ [k])) b2 (?s2 k)"
      using key add e(2) b(1,2) echo [OF e(3)] by (subst line_loop.simps) (auto simp: printable_def)
    with e(1) s2 b(3,4) d that show ?thesis by metis
  next
    case skip
    have e: "edit_key mx l k = l" using skip by (auto simp: edit_key_def)
    have "line_loop K fd mx (length l) buf s = line_loop K fd mx (length l) buf s1"
      using key skip by (subst line_loop.simps) (auto simp: printable_def)
    with e buf(1) that [of buf s1] show ?thesis by simp
  qed
qed

lemma line_loop_edits:
  assumes kbd: "keyboard K fd kb \<mu>" and fin: "finite_input K \<nu>"
  shows "kb (os s) = ks @ 10 # rest \<Longrightarrow> 10 \<notin> set ks \<Longrightarrow> holds l buf \<Longrightarrow> length l \<le> mx \<Longrightarrow> mx < length buf \<Longrightarrow>
    list_all printable l \<Longrightarrow>
    \<exists>buf' s'. line_loop K fd mx (length l) buf s = Some ((int (length (foldl (edit_key mx) l ks)), buf'), s') \<and>
      same_statics s s' \<and> take (Suc (length (foldl (edit_key mx) l ks))) buf' = foldl (edit_key mx) l ks @ [0] \<and>
      drop (mx + 1) buf' = drop (mx + 1) buf"
proof (induction ks arbitrary: s l buf)
  case Nil
  have "kb (os s) = 10 # rest" using Nil.prems(1) by simp
  from key_arrives [OF kbd, of s 10 rest, OF this] obtain s0 s1
    where s0: "\<forall>mx n buf. line_loop K fd mx n buf s = line_loop K fd mx n buf s0"
      "read_char K fd s0 = Some (Some 10, s1)" "same_statics s s1" by blast
  obtain s2 where s2: "input_flush_events K (snd (sys_close K fd s1)) = Some s2"
    "same_statics (snd (sys_close K fd s1)) s2" by (rule input_flush_events_returns [OF fin])
  have st: "same_statics s s2" using s0(3) closing s2(2) by (blast intro: same_statics_trans)
  have n: "length l < length buf" "take (length l) buf = l" using Nil.prems(3) by (simp_all add: holds_def)
  have b: "st8 (length l) 0 buf = Some (take (length l) buf @ 0 # drop (Suc (length l)) buf)"
    using n(1) by (simp add: st8_def wr_def)
  have run: "line_loop K fd mx (length l) buf s =
      Some ((int (length l), take (length l) buf @ 0 # drop (Suc (length l)) buf), s2)"
    using s0(1,2) b s2(1) by (simp, subst line_loop.simps) simp
  have "drop (mx + 1) (take (length l) buf @ 0 # drop (Suc (length l)) buf) = drop (mx + 1) buf"
    using n(1) Nil.prems(4) by (simp add: Suc_diff_le)
  with run st n show ?case by simp
next
  case (Cons k ks)
  have "kb (os s) = k # (ks @ 10 # rest)" using Cons.prems(1) by simp
  from key_arrives [OF kbd, of s k, OF this] obtain s0 s1
    where s0: "\<forall>mx n buf. line_loop K fd mx n buf s = line_loop K fd mx n buf s0"
      "read_char K fd s0 = Some (Some k, s1)" "kb (os s1) = ks @ 10 # rest" "same_statics s s1" by blast
  have k: "k \<noteq> 10" using Cons.prems(2) by auto
  obtain s2 b where s2: "line_loop K fd mx (length l) buf s0 = line_loop K fd mx (length (edit_key mx l k)) b s2"
    "kb (os s2) = kb (os s1)" "same_statics s1 s2" "holds (edit_key mx l k) b" "length b = length buf"
    "drop (mx + 1) b = drop (mx + 1) buf"
    by (rule line_loop_key [OF kbd s0(2) k Cons.prems(3-6)])
  note l' = edit_key_ok [OF Cons.prems(4,6), of k]
  have "\<exists>buf' s'. line_loop K fd mx (length (edit_key mx l k)) b s2 =
      Some ((int (length (foldl (edit_key mx) (edit_key mx l k) ks)), buf'), s') \<and> same_statics s2 s' \<and>
      take (Suc (length (foldl (edit_key mx) (edit_key mx l k) ks))) buf' = foldl (edit_key mx) (edit_key mx l k) ks @ [0] \<and>
      drop (mx + 1) buf' = drop (mx + 1) b"
    using s2 s0(3) Cons.prems l' by (intro Cons.IH) simp_all
  moreover have "same_statics s s2" using s0(4) s2(3) by (rule same_statics_trans)
  ultimately show ?case using s0(1) s2(1,6) by (auto intro: same_statics_trans)
qed

text \<open>
  A line read from a keyboard that opens: the characters left of what was typed in front of the line feed, terminated, and
  their number; behind \<open>maxlen\<close> bytes nothing is written.
\<close>

lemma input_line_to_buffer_reads:
  assumes kbd: "keyboard K fd kb \<mu>" and fin: "finite_input K \<nu>"
    and opens: "sys_open K ''$/dev/input/kbd0'' O_RDONLY 0 s = (fd, s1)" "0 \<le> fd"
    and keys: "kb (os s1) = ks @ 10 # rest" "10 \<notin> set ks"
    and room: "0 < maxlen" "maxlen \<le> length buf" "maxlen \<le> 0x7FFFFFFF"
  defines "line \<equiv> typed_line (maxlen - 1) ks"
  obtains buf' s' where
    "input_line_to_buffer K (Some buf) maxlen s = Some ((int (length line), Some buf'), s')"
    "same_statics s s'" "take (Suc (length line)) buf' = line @ [0]" "drop maxlen buf' = drop maxlen buf"
proof -
  have h: "holds [] buf" using room by (auto simp: holds_def)
  have st: "same_statics s s1" using opens(1) by (rule sys_open_statics)
  have mx: "maxlen - 1 < length buf" "maxlen - 1 + 1 = maxlen" using room by auto
  obtain buf' s' where run: "line_loop K fd (maxlen - 1) 0 buf s1 = Some ((int (length line), buf'), s')"
    "same_statics s1 s'" "take (Suc (length line)) buf' = line @ [0]" "drop maxlen buf' = drop maxlen buf"
    using line_loop_edits [OF kbd fin keys h _ mx(1)] unfolding mx(2) line_def typed_line_def by auto
  have "input_line_to_buffer K (Some buf) maxlen s = Some ((int (length line), Some buf'), s')"
    using opens room run(1) by (simp add: input_line_to_buffer_def)
  with run st that show ?thesis by (blast intro: same_statics_trans)
qed

section \<open>The end of the program\<close>

lemma main_loop_never_returns: "main_loop K s \<noteq> Some y"
proof
  assume "main_loop K s = Some y"
  then have False
    by (rule main_loop.raw_induct [where P = "\<lambda>K s y. False", rotated]) (auto elim!: run_bindE)
  then show False .
qed

text \<open>The process ends only with the status 1, of a device that does not open or does not tell its address.\<close>

lemma start_process_exits:
  assumes mac: "length (n_mac (g_net s)) = 6" and run: "start_process K s = Some (status, s')"
  shows "status = 1 \<and> (\<exists>s1. md_init K s = Some (1, s1))"
proof -
  from run obtain mdm s1 where m: "md_main K s = Some (mdm, s1)" and st: "status = (if mdm \<noteq> 0 then mdm else 0)"
    unfolding start_process_def by (auto elim!: run_bindE split: if_splits)
  from m obtain rc t where i: "md_init K s = Some (rc, t)" "(if rc \<noteq> 0 then Some (rc, t) else main_loop K t) = Some (mdm, s1)"
    unfolding md_main_def by (auto elim!: run_bindE)
  have "rc \<noteq> 0" using i(2) main_loop_never_returns [of K t] by auto
  with i st md_init_post(1) [OF mac i(1)] show ?thesis by auto
qed

end
