(* ===== verification/Sample.thy ===== *)
theory Sample
  imports Liveness Terminal
begin

text \<open>
  A kernel and states to run the model on: the clock counts nanoseconds and every call takes some, the
  device takes every request and answers with a reply header of zeros (status 0, no frame). The
  examples that follow the properties are evaluated on it.
\<close>

definition sample_kernel :: "nat kernel" where
  "sample_kernel = \<lparr>
     k_time = (\<lambda>w. (of_nat (clock_reading w), w + 1000000)),
     k_open = (\<lambda>path flags md w. (3, w + 1)),
     k_close = (\<lambda>fd w. (0, w + 1)),
     k_write = (\<lambda>fd bs w. (int (length bs), w + 1)),
     k_read = (\<lambda>fd n w. if n = 0 then (ReadErr, w) else (ReadOk (take n (replicate 12 0)), w + 1)),
     k_yield = (\<lambda>w. w + 1),
     k_sleep = (\<lambda>sec w. w + unat sec * 1000000000),
     k_register = (\<lambda>path perms w. (0, w + 1)),
     k_junk = (\<lambda>w i. 0)\<rparr>"

text \<open>The same kernel with a device that answers every read with the bytes \<open>r\<close>.\<close>

definition wire_kernel :: "u8 list \<Rightarrow> nat kernel" where
  "wire_kernel r = sample_kernel\<lparr>k_read := (\<lambda>fd n w. (ReadOk r, w + 1))\<rparr>"

text \<open>One on which the frame \<open>f\<close> arrives with every poll.\<close>

definition frame_kernel :: "u8 list \<Rightarrow> nat kernel" where
  "frame_kernel f = sample_kernel\<lparr>k_read :=
     (\<lambda>fd n w. if n = 0 then (ReadErr, w)
        else (ReadOk (take n (replicate 8 0 @ le32 (of_nat (length f)) @ f @ [0])), w + 1))\<rparr>"

lemma frame_kernel_live: "live (frame_kernel f) (\<lambda>_. 0)"
  by (auto simp: live_def frame_kernel_def le32_def split: if_splits)

text \<open>A host 10.0.2.15 on 10.0.2.0/24.\<close>

definition sample_net :: netd_state_t where
  "sample_net = zero_net\<lparr>n_fd := 3, n_mac := [2, 0, 0, 0, 0, 1], n_mtu := 1500, n_ip := 0x0A00020F,
     n_netmask := 0xFFFFFF00, n_gateway := 0x0A000201, n_dns := 0x08080808\<rparr>"

definition sample :: "nat machine" where
  "sample = \<lparr>g_net = sample_net, g_ip_id = 1, os = 0\<rparr>"

lemma sample_live: "live sample_kernel (\<lambda>_. 0)"
  by (auto simp: live_def sample_kernel_def split: if_splits)

lemma unat_clock_reading: "unat (of_nat (clock_reading w) :: u64) = clock_reading w"
  by (simp add: clock_reading_def unat_of_nat take_bit_nat_eq_self_iff)

lemma sample_steady: "steady sample_kernel id"
  by (auto simp: steady_def sample_kernel_def unat_clock_reading split: if_splits)

lemma sample_silent: "silent sample_kernel"
  by (auto simp: silent_def sample_kernel_def reply_len_def of_le32_def)

lemma sample_codes: "register_codes sample_kernel"
  by (simp add: register_codes_def sample_kernel_def int_code_def INT_MAX_def)

lemma sample_time [simp]:
  "time_ms sample_kernel s = (of_nat (clock_reading (os s)), s\<lparr>os := os s + 1000000\<rparr>)"
  by (simp add: time_ms_def sample_kernel_def)

lemma sample_write [simp]:
  "sys_write sample_kernel fd bs s = (int (length bs), s\<lparr>os := os s + 1\<rparr>)"
  by (simp add: sys_write_def sample_kernel_def)

lemma sample_net_simps [simp]:
  "n_fd sample_net = 3" "n_mac sample_net = [2, 0, 0, 0, 0, 1]" "n_ip sample_net = 0x0A00020F"
  "n_netmask sample_net = 0xFFFFFF00" "n_gateway sample_net = 0x0A000201" "n_dns sample_net = 0x08080808"
  "n_arp_cache sample_net = replicate 16 zero_arp_entry" "n_udp_binds sample_net = replicate 16 zero_udp_bind"
  "n_dhcp_state sample_net = DHCP_IDLE" "n_dhcp_xid sample_net = 0" "n_dns_txid sample_net = 0"
  "n_ping_id sample_net = 0" "n_ping_seq sample_net = 0" "n_dns_done sample_net = 0"
  "g_net sample = sample_net" "os sample = 0" "g_ip_id sample = 1"
  by (simp_all add: sample_net_def zero_net_def sample_def)

lemma sample_binds_wf [simp]: "binds_wf (replicate 16 zero_udp_bind)"
  using zero_binds_wf by simp

lemma sample_arp_wf [simp]: "arp_wf (replicate 16 zero_arp_entry)"
  using arp_init_wf [of sample] by (simp add: arp_init_def set_arp_def set_net_def)

lemma sample_wf [simp]: "net_wf sample_net"
  by (simp add: net_wf_def link_wf_def)

lemma sample_reply:
  "transact_read sample_kernel (replicate 1520 0) 0 s =
     Some (Inr (replicate 1520 0, 12), s\<lparr>os := os s + 1\<rparr>)"
proof -
  have "replicate 12 0 @ drop 12 (replicate 1520 0) = replicate 1520 (0 :: u8)"
    by (simp add: drop_replicate flip: replicate_add)
  then have "wr 0 (replicate 12 0) (replicate 1520 0) = Some (replicate 1520 (0 :: u8))"
    by (simp add: wr_def)
  then show ?thesis
    by (subst transact_read.simps) (simp add: sys_read_def sample_kernel_def ld8_def)
qed

lemma sample_query_mac:
  assumes "length (n_mac (g_net s)) = 6"
  shows "\<exists>s'. query_mac sample_kernel s = Some (0, s')"
proof -
  have "ld32 (replicate 1520 0) 4 = Some 0" "ld32 (replicate 1520 0) 8 = Some 0"
    by (simp_all add: ld32_def rd_def of_le32_def)
  then show ?thesis using sample_reply
    by (simp add: query_mac_def driver_transact_def transact_pkt_def wr_def st32_def rd_def)
qed

text \<open>The daemon starts on it, with the fallback addresses.\<close>

lemma sample_begins:
  assumes "length (n_mac (g_net s)) = 6"
  obtains s0 s1 s2 where "say sample_kernel ''[netd] starting'' s = Some (0, s0)"
    "sys_open sample_kernel NIC_PATH 2 0 s0 = (3, s1)"
    "query_mac sample_kernel (set_net (g_net s1\<lparr>n_fd := 3\<rparr>) s1) = Some (0, s2)"
proof -
  obtain s0 where s0: "say sample_kernel ''[netd] starting'' s = Some (0, s0)" "same_statics s s0"
    by (rule say_starting.speaks)
  let ?s1 = "s0\<lparr>os := os s0 + 1\<rparr>"
  have o: "sys_open sample_kernel NIC_PATH 2 0 s0 = (3, ?s1)"
    by (simp add: sys_open_def sample_kernel_def)
  have "length (n_mac (g_net (set_net (g_net ?s1\<lparr>n_fd := 3\<rparr>) ?s1))) = 6"
    using assms s0(2) by (simp add: set_net_def same_statics_def)
  from sample_query_mac [OF this] s0(1) o that show ?thesis by blast
qed

lemma sample_starts:
  obtains s' where "md_init sample_kernel (boot 0) = Some (0, s')" "n_ip (g_net s') = 0x0A00020F"
proof -
  have mac: "length (n_mac (g_net (boot 0))) = 6" by (simp add: boot_def zero_net_def)
  obtain s0 s1 s2 where b: "say sample_kernel ''[netd] starting'' (boot 0) = Some (0, s0)"
    "sys_open sample_kernel NIC_PATH 2 0 s0 = (3, s1)"
    "query_mac sample_kernel (set_net (g_net s1\<lparr>n_fd := 3\<rparr>) s1) = Some (0, s2)"
    by (rule sample_begins [OF mac])
  show ?thesis
    using md_init_silent [OF sample_live sample_steady sample_silent sample_codes mac b(1,2) _ b(3)] that by auto
qed

text \<open>The host with port 7 bound, and with the hardware address of its gateway in the cache.\<close>

definition sample_bound :: "nat machine" where
  "sample_bound = snd (udp_bind 7 sample)"

lemma sample_bound_simps [simp]:
  "udp_bind 7 sample = (0, sample_bound)" "net_wf (g_net sample_bound)" "n_ip (g_net sample_bound) = 0x0A00020F"
  "ports_of sample_bound 7 = Some ([], 0, 0)" "binds_wf (n_udp_binds (g_net sample_bound))"
proof -
  let ?bs = "replicate 16 zero_udp_bind"
  have "p \<notin> dom (binds_view ?bs)" for p
    unfolding binds_view_dom by (auto simp: bound_to_def zero_udp_bind_def)
  then have e: "dom (binds_view ?bs) = {}" by blast
  have new: "fst (binds_bind 7 ?bs) = 0"
    "binds_view (snd (binds_bind 7 ?bs)) = (binds_view ?bs)(7 \<mapsto> ([], 0, 0))"
    using ports.bind_new [OF sample_binds_wf, of 7] unfolding e by simp_all
  have b: "udp_bind 7 sample = (0, set_binds (snd (binds_bind 7 ?bs)) sample)"
    using new(1) by (simp add: udp_bind_def Let_def prod.case_eq_if)
  then have s: "sample_bound = set_binds (snd (binds_bind 7 ?bs)) sample" by (simp add: sample_bound_def)
  show "udp_bind 7 sample = (0, sample_bound)" using b s by simp
  show wf: "net_wf (g_net sample_bound)"
    using keeps_net_wf [OF udp_bind_keeps(1) [of sample 7]] by (simp add: sample_bound_def)
  show "n_ip (g_net sample_bound) = 0x0A00020F" by (simp add: s set_binds_def set_net_def)
  show "ports_of sample_bound 7 = Some ([], 0, 0)" using new(2) by (simp add: s)
  show "binds_wf (n_udp_binds (g_net sample_bound))" using wf by (simp add: net_wf_def)
qed

text \<open>The host with a datagram of 1500 bytes in the mailbox of port 7.\<close>

definition sample_mail :: "nat machine" where
  "sample_mail = set_binds (binds_put 7 (replicate 1500 0, 5, 9) (n_udp_binds (g_net sample_bound))) sample_bound"

lemma sample_mail_simps [simp]:
  "net_wf (g_net sample_mail)" "ports_of sample_mail 7 = Some (replicate 1500 0, 5, 9)"
proof -
  let ?bs = "n_udp_binds (g_net sample_bound)"
  have w: "binds_wf (binds_put 7 (replicate 1500 0, 5, 9) ?bs)" by (rule ports.put_inv) simp_all
  have "net_wf (g_net sample_bound)" by simp
  with w show "net_wf (g_net sample_mail)" by (simp add: sample_mail_def net_wf_def set_binds_def set_net_def link_wf_def)
  have "7 \<in> dom (binds_view ?bs)" by auto
  then show "ports_of sample_mail 7 = Some (replicate 1500 0, 5, 9)"
    by (simp add: sample_mail_def ports.put_view)
qed

definition sample_cached :: "nat machine" where
  "sample_cached = set_arp (arp_store 0x0A000201 [2, 0, 0, 0, 0, 2] 0 (n_arp_cache sample_net)) sample"

lemma sample_cached_simps [simp]:
  "link_wf (g_net sample_cached)" "n_ip (g_net sample_cached) = 0x0A00020F"
  "n_netmask (g_net sample_cached) = 0xFFFFFF00" "n_gateway (g_net sample_cached) = 0x0A000201"
  "n_mac (g_net sample_cached) = [2, 0, 0, 0, 0, 1]" "g_ip_id sample_cached = 1" "os sample_cached = 0"
  "arp_view (n_arp_cache (g_net sample_cached)) 0x0A000201 = Some ([2, 0, 0, 0, 0, 2], 0)"
proof -
  have "arp_ok (n_arp_cache sample_net)" using sample_arp_wf by (simp add: arp_wf_def)
  from ac.store_same [OF this, of "0x0A000201" "([2, 0, 0, 0, 0, 2], 0)"]
  show "arp_view (n_arp_cache (g_net sample_cached)) 0x0A000201 = Some ([2, 0, 0, 0, 0, 2], 0)"
    by (simp add: sample_cached_def set_arp_def set_net_def)
  have "arp_wf (arp_store 0x0A000201 [2, 0, 0, 0, 0, 2] 0 (replicate 16 zero_arp_entry))"
    by (intro arp_store_wf) simp_all
  then show "link_wf (g_net sample_cached)" by (simp add: link_wf_def sample_cached_def set_arp_def set_net_def)
qed (simp_all add: sample_cached_def set_arp_def set_net_def)

text \<open>An echo request and a datagram to the host, in the frame array.\<close>

definition sample_echo :: "u8 list" where
  "sample_echo = ip_frame [2, 0, 0, 0, 0, 1] [2, 0, 0, 0, 0, 2] 9 IPPROTO_ICMP 0x0A000201 0x0A00020F (ping_msg 7 1) @
     replicate 1468 0"

definition sample_datagram :: "u8 list" where
  "sample_datagram = ip_frame [2, 0, 0, 0, 0, 1] [2, 0, 0, 0, 0, 2] 9 IPPROTO_UDP 0x0A000201 0x0A00020F
     (udp_datagram 9 7 [1, 2, 3]) @ replicate 1473 0"

lemma frame_lengths:
  assumes "length dmac = 6" "length smac = 6" "length payload < 65516"
  shows "tot_len_at (ip_frame dmac smac ident proto src dst payload @ pad) = 20 + length payload"
    "ihl_at (ip_frame dmac smac ident proto src dst payload @ pad) = 20"
    "(ip_frame dmac smac ident proto src dst payload @ pad) ! 23 = proto"
    "drop 34 (ip_frame dmac smac ident proto src dst payload @ pad) = payload @ pad"
proof -
  let ?F = "ip_frame dmac smac ident proto src dst payload @ pad"
  have u: "unat (of_nat (20 + length payload) :: u16) = 20 + length payload"
    using assms(3) by (intro unat_of_nat_u16) simp
  have "take 2 (drop 16 ?F) = be16 (of_nat (20 + length payload))"
    using assms by (simp add: ip_frame_def ip_header_def)
  with u show "tot_len_at ?F = 20 + length payload" by (simp only: tot_len_at_def of_be16_be16)
  show "?F ! 23 = proto" "drop 34 ?F = payload @ pad"
    using assms by (simp_all add: ip_frame_def ip_header_def nth_append be16_def nth_Cons')
  have "?F ! 14 = 0x45" using assms by (simp add: ip_frame_def ip_header_def nth_append be16_def nth_Cons')
  then show "ihl_at ?F = 20" by (simp add: ihl_at_def)
qed

lemma sample_echo_lengths [simp]:
  "length sample_echo = 1518" "tot_len_at sample_echo = 36" "ihl_at sample_echo = 20"
  "sample_echo ! 23 = IPPROTO_ICMP" "sample_echo ! 34 = ICMP_ECHO_REQ"
proof -
  have l: "length (ping_msg 7 1) = 16" by (rule ping_msg_verifies)
  then show "length sample_echo = 1518" by (simp add: sample_echo_def ip_frame_def)
  show "tot_len_at sample_echo = 36" "ihl_at sample_echo = 20" "sample_echo ! 23 = IPPROTO_ICMP"
    unfolding sample_echo_def using l by (simp_all add: frame_lengths)
  have "drop 34 sample_echo = ping_msg 7 1 @ replicate 1468 0"
    unfolding sample_echo_def using l by (intro frame_lengths) simp_all
  then have "drop 34 sample_echo ! 0 = ICMP_ECHO_REQ" by (simp add: ping_msg_def icmp_msg_def)
  then show "sample_echo ! 34 = ICMP_ECHO_REQ" using \<open>length sample_echo = 1518\<close> by simp
qed

lemma sample_datagram_lengths [simp]:
  "length sample_datagram = 1518" "tot_len_at sample_datagram = 31" "ihl_at sample_datagram = 20"
  "sample_datagram ! 23 = IPPROTO_UDP" "udp_len_at (drop 34 sample_datagram) = 11"
proof -
  have l: "length (udp_datagram 9 7 [1, 2, 3]) = 11" by (simp add: udp_datagram_def)
  then show "length sample_datagram = 1518" by (simp add: sample_datagram_def ip_frame_def)
  show "tot_len_at sample_datagram = 31" "ihl_at sample_datagram = 20" "sample_datagram ! 23 = IPPROTO_UDP"
    unfolding sample_datagram_def using l by (simp_all add: frame_lengths)
  have "drop 34 sample_datagram = udp_datagram 9 7 [1, 2, 3] @ replicate 1473 0"
    unfolding sample_datagram_def using l by (intro frame_lengths) simp_all
  then show "udp_len_at (drop 34 sample_datagram) = 11" by (simp add: udp_len_at_def udp_datagram_def)
qed

text \<open>A cache with an entry in every slot, the oldest for the address 1.\<close>

definition sample_full :: "arp_entry_t list" where
  "sample_full = map (\<lambda>i. \<lparr>ae_ip = of_nat i + 1, ae_mac = replicate 6 1, ae_ts = of_nat i + 5, ae_valid = True\<rparr>) [0..<16]"

text \<open>A server message of the transaction 0.\<close>

definition sample_msg :: "u32 \<Rightarrow> dhcp_opt list \<Rightarrow> u8 list" where
  "sample_msg your_ip opl =
     (2 # replicate 15 0) @ be32 your_ip @ replicate 216 0 @ be32 DHCP_MAGIC @ enc_opts opl @ [OPT_END]"

lemma sample_msg_ok:
  assumes "\<forall>x\<in>set opl. opt_ok x"
  shows "dhcp_msg (sample_msg your_ip opl) (int (length (sample_msg your_ip opl))) 0 your_ip opl"
proof -
  have z: "be32 0 = replicate 4 (0 :: u8)" by (simp add: be32_def numeral_eq_Suc)
  show ?thesis
    using assms unfolding dhcp_msg_def sample_msg_def z by simp
qed

text \<open>The frame that a poll brings, with what was in the array behind it.\<close>

lemma frame_arrives:
  assumes f: "f \<noteq> []" "length f < 1500"
  shows "driver_rx (frame_kernel f) (junk (frame_kernel f) s 1518) 1518 s =
    Some ((int (length f), f @ drop (length f) (junk (frame_kernel f) s 1518), of_nat (length f)), s\<lparr>os := os s + 2\<rparr>)"
proof -
  let ?r = "replicate 8 0 @ le32 (of_nat (length f)) @ f @ [0]" and ?K = "frame_kernel f"
  have u: "unat (of_nat (length f) :: u32) = length f"
    using f(2) by (simp add: unat_of_nat take_bit_nat_eq_self_iff)
  have L: "reply_len ?r = length f" using u by (simp add: reply_len_def)
  have w: "k_write ?K (n_fd (g_net s)) (le32 NET_CMD_RX_POLL @ replicate 4 0) (os s) = (8, os s + 1)"
    by (simp add: frame_kernel_def sample_kernel_def)
  have d: "delivers ?K (n_fd (g_net s)) 0 [?r] (os s + 1) (os s + 2)"
    using f(2) by (simp add: frame_kernel_def)
  have "drop 12 ?r = f @ [0]" by simp
  then have t: "take (length f) (drop 12 (?r @ replicate 1520 0)) = f" by simp
  have min: "min (length f) 1518 = length f" using f(2) by simp
  show ?thesis
    using driver_rx_delivers [OF w _ d _ _ _ _ _ _, of ?r 1518 "junk ?K s 1518"] f L t min by (simp add: Let_def)
qed

text \<open>A host that has asked for a lease, and the frame that acknowledges one of 10.0.2.9 to all hosts.\<close>

definition sample_asking :: "nat machine" where
  "sample_asking = set_net (sample_net\<lparr>n_ip := 0, n_dhcp_state := DHCP_REQUEST\<rparr>) sample"

definition ack_frame :: "u8 list" where
  "ack_frame = ip_frame (replicate 6 255) (replicate 6 2) 5 IPPROTO_UDP 0x0A000202 IP_BCAST
     (udp_datagram DHCP_PORT_SERVER DHCP_PORT_CLIENT (sample_msg 0x0A000209 [Opt 53 [5], Opt 1 [255, 255, 255, 0]]))"

lemma ack_frame_received:
  obtains s' where "rx_once (frame_kernel ack_frame) sample_asking = Some ((), s')"
    "n_ip (g_net s') = 0x0A000209" "n_dhcp_state (g_net s') = DHCP_BOUND"
proof -
  let ?opl = "[Opt 53 [5], Opt 1 [255, 255, 255, 0]]" and ?K = "frame_kernel ack_frame"
  let ?d = "sample_msg 0x0A000209 ?opl" and ?s1 = "sample_asking\<lparr>os := os sample_asking + 2\<rparr>"
  have ld: "length ?d = 250" by (simp add: sample_msg_def enc_opts_def)
  then have lf: "length ack_frame = 292" by (simp add: ack_frame_def ip_frame_def udp_datagram_def)
  have m: "dhcp_msg ?d (int (length ?d)) (n_dhcp_xid (g_net ?s1)) 0x0A000209 ?opl"
    using sample_msg_ok [of ?opl "0x0A000209"] by (simp add: sample_asking_def set_net_def)
  have o: "find_msg_type ?opl = MSG_ACK" "find_opt32 OPT_SUBNET ?opl = 0xFFFFFF00" by code_simp+
  have wf: "link_wf (g_net ?s1)" by (simp add: link_wf_def sample_asking_def set_net_def)
  have st: "n_dhcp_state (g_net ?s1) = DHCP_REQUEST" by (simp add: sample_asking_def set_net_def)
  have fl: "34 \<le> sint (of_nat (length ack_frame) :: u32)" unfolding lf by simp
  have side: "length (replicate 6 (255 :: u8)) = 6" "length (replicate 6 (2 :: u8)) = 6" "length ?d \<le> 1458"
    "(0xFFFFFF00 :: u32) \<noteq> 0" by (simp_all add: ld)
  obtain s' where "handle_frame ?K (ack_frame @ drop (length ack_frame) (junk ?K sample_asking 1518))
      (of_nat (length ack_frame)) ?s1 = Some ((), s')"
    "n_ip (g_net s') = 0x0A000209" "n_dhcp_state (g_net s') = DHCP_BOUND"
    unfolding ack_frame_def
    by (rule lease_delivered [OF frame_kernel_live wf side(1,2) fl [unfolded ack_frame_def] side(3) st m o side(4)])
  moreover have "ack_frame \<noteq> []" "length ack_frame < 1500" using lf by auto
  ultimately show ?thesis
    using frame_arrives [of ack_frame sample_asking] lf that by (simp add: rx_once_def)
qed

text \<open>A kernel with nothing but a keyboard, whose state are the keys typed.\<close>

definition key_kernel :: "u8 list kernel" where
  "key_kernel = \<lparr>
     k_time = (\<lambda>w. (0, w)),
     k_open = (\<lambda>path flags md w. (3, w)),
     k_close = (\<lambda>fd w. (0, w)),
     k_write = (\<lambda>fd bs w. (int (length bs), w)),
     k_read = (\<lambda>fd n w. case w of k # ks \<Rightarrow> if n = 1 then (ReadOk [k], ks) else (ReadErr, w) | [] \<Rightarrow> (ReadErr, w)),
     k_yield = (\<lambda>w. w),
     k_sleep = (\<lambda>sec w. w),
     k_register = (\<lambda>path perms w. (0, w)),
     k_junk = (\<lambda>w i. 0)\<rparr>"

definition key_machine :: "u8 list \<Rightarrow> u8 list machine" where
  "key_machine ks = \<lparr>g_net = zero_net, g_ip_id = 1, os = ks\<rparr>"

lemma key_kernel_keyboard: "keyboard key_kernel fd (\<lambda>w. w) \<mu>" "finite_input key_kernel length"
  by (auto simp: keyboard_def finite_input_def key_kernel_def split: list.splits if_splits)

end
