(* ===== verification/Libc_Heap.thy ===== *)
theory Libc_Heap
  imports Prelude
begin

text \<open>
  The heap of \<open>include/libc.h\<close>: \<open>malloc\<close>, \<open>free\<close>, \<open>calloc\<close> and \<open>realloc\<close> over a free list that is kept in
  address order. The memory is one array of bytes, indexed by the address; an address that is not mapped has no
  value, and an access there is a fault. A header is 24 bytes of it: the payload size, the next free block, the
  magic number and the free flag, each little-endian. Addresses and sizes are natural numbers below \<open>2 ^ 64\<close>;
  where the C wraps around, \<open>mod 2 ^ 64\<close> is written out. The kernel's \<open>sbrk\<close> is a parameter.
\<close>

section \<open>Bytes and headers\<close>

type_synonym ram = "nat \<Rightarrow> u8 option"

definition ram_rd :: "ram \<Rightarrow> nat \<Rightarrow> nat \<Rightarrow> u8 list option" where
  "ram_rd m a n = those (map m [a..<a + n])"

definition ram_upd :: "nat \<Rightarrow> u8 list \<Rightarrow> ram \<Rightarrow> ram" where
  "ram_upd a bs m = (\<lambda>x. if a \<le> x \<and> x < a + length bs then Some (bs ! (x - a)) else m x)"

definition ram_wr :: "nat \<Rightarrow> u8 list \<Rightarrow> ram \<Rightarrow> ram option" where
  "ram_wr a bs m =
     (if list_all (\<lambda>x. m x \<noteq> None) [a..<a + length bs] then Some (ram_upd a bs m) else None)"

definition le64 :: "u64 \<Rightarrow> u8 list" where
  "le64 v = le32 (ucast v) @ le32 (ucast (drop_bit 32 v))"

definition of_le64 :: "u8 list \<Rightarrow> u64" where
  "of_le64 bs = ucast (of_le32 (take 4 bs)) OR push_bit 32 (ucast (of_le32 (drop 4 bs)))"

record uheap_hdr_t =
  uh_size :: nat
  uh_next :: nat
  uh_magic :: u32
  uh_free :: u32

definition UHEAP_MAGIC :: u32 where "UHEAP_MAGIC = 0xC0FFEE55"

definition enc_hdr :: "uheap_hdr_t \<Rightarrow> u8 list" where
  "enc_hdr h = le64 (of_nat (uh_size h)) @ le64 (of_nat (uh_next h)) @ le32 (uh_magic h) @ le32 (uh_free h)"

definition dec_hdr :: "u8 list \<Rightarrow> uheap_hdr_t" where
  "dec_hdr bs = \<lparr>uh_size = unat (of_le64 (take 8 bs)), uh_next = unat (of_le64 (take 8 (drop 8 bs))),
     uh_magic = of_le32 (take 4 (drop 16 bs)), uh_free = of_le32 (drop 20 bs)\<rparr>"

text \<open>The process: its memory, the static \<open>g_uheap_free\<close> and the rest of the system.\<close>

record 'w uheap =
  u_ram :: ram
  u_list :: nat
  u_os :: 'w

definition get_hdr :: "nat \<Rightarrow> 'w uheap \<Rightarrow> uheap_hdr_t option" where
  "get_hdr a s = map_option dec_hdr (ram_rd (u_ram s) a 24)"

definition put_hdr :: "nat \<Rightarrow> uheap_hdr_t \<Rightarrow> 'w uheap \<Rightarrow> 'w uheap option" where
  "put_hdr a h s = map_option (\<lambda>m. s\<lparr>u_ram := m\<rparr>) (ram_wr a (enc_hdr h) (u_ram s))"

section \<open>Model\<close>

definition uheap_align :: "nat \<Rightarrow> nat" where
  "uheap_align n = unat ((of_nat n + 15 :: u64) AND NOT 15)"

text \<open>
  \<open>pp\<close>, a pointer to a pointer to a block: to \<open>g_uheap_free\<close> (\<open>None\<close>) or to the field \<open>next\<close> of a block.
\<close>

definition load_pp :: "nat option \<Rightarrow> 'w uheap \<Rightarrow> nat option" where
  "load_pp pp s = (case pp of None \<Rightarrow> Some (u_list s) | Some a \<Rightarrow> map_option uh_next (get_hdr a s))"

definition store_pp :: "nat option \<Rightarrow> nat \<Rightarrow> 'w uheap \<Rightarrow> 'w uheap option" where
  "store_pp pp v s =
     (case pp of
        None \<Rightarrow> Some (s\<lparr>u_list := v\<rparr>)
      | Some a \<Rightarrow> do { h \<leftarrow> get_hdr a s; put_hdr a (h\<lparr>uh_next := v\<rparr>) s })"

partial_function (option) find_pp :: "nat \<Rightarrow> nat option \<Rightarrow> 'w uheap \<Rightarrow> nat option option" where
  "find_pp b pp s = do {
     v \<leftarrow> load_pp pp s;
     if v \<noteq> 0 \<and> v < b then find_pp b (Some v) s else Some pp
   }"

definition uheap_insert_free :: "nat \<Rightarrow> 'w uheap \<Rightarrow> 'w uheap option" where
  "uheap_insert_free b s = do {
     h \<leftarrow> get_hdr b s;
     s \<leftarrow> put_hdr b (h\<lparr>uh_free := 1\<rparr>) s;
     pp \<leftarrow> find_pp b None s;
     v \<leftarrow> load_pp pp s;
     h \<leftarrow> get_hdr b s;
     s \<leftarrow> put_hdr b (h\<lparr>uh_next := v\<rparr>) s;
     store_pp pp b s
   }"

partial_function (option) remove_loop :: "nat \<Rightarrow> nat option \<Rightarrow> 'w uheap \<Rightarrow> 'w uheap option" where
  "remove_loop b pp s = do {
     v \<leftarrow> load_pp pp s;
     if v = 0 then Some s
     else if v = b then do {
       h \<leftarrow> get_hdr b s;
       s \<leftarrow> store_pp pp (uh_next h) s;
       h \<leftarrow> get_hdr b s;
       put_hdr b (h\<lparr>uh_next := 0\<rparr>) s
     }
     else remove_loop b (Some v) s
   }"

definition uheap_remove_free :: "nat \<Rightarrow> 'w uheap \<Rightarrow> 'w uheap option" where
  "uheap_remove_free b s = remove_loop b None s"

text \<open>The end of a block's payload, by pointer arithmetic: \<open>(uint8_t*)(h + 1) + h->size\<close>.\<close>

definition block_end :: "nat \<Rightarrow> uheap_hdr_t \<Rightarrow> nat" where
  "block_end a h = (a + 24 + uh_size h) mod 2 ^ 64"

partial_function (option) coalesce_loop :: "nat \<Rightarrow> 'w uheap \<Rightarrow> 'w uheap option" where
  "coalesce_loop cur s =
     (if cur = 0 then Some s
      else do {
        c \<leftarrow> get_hdr cur s;
        let nxt = uh_next c;
        if nxt = 0 then Some s
        else if block_end cur c = nxt then do {
          n \<leftarrow> get_hdr nxt s;
          s \<leftarrow> put_hdr cur (c\<lparr>uh_size := (uh_size c + (24 + uh_size n)) mod 2 ^ 64, uh_next := uh_next n\<rparr>) s;
          n \<leftarrow> get_hdr nxt s;
          s \<leftarrow> put_hdr nxt (n\<lparr>uh_magic := 0\<rparr>) s;
          coalesce_loop cur s
        }
        else coalesce_loop nxt s
      })"

definition uheap_coalesce :: "'w uheap \<Rightarrow> 'w uheap option" where
  "uheap_coalesce s = coalesce_loop (u_list s) s"

text \<open>\<open>sbrk inc\<close>: the kernel returns a value and may map memory. The code reads the result as a signed number.\<close>

type_synonym 'w sbrk = "int \<Rightarrow> ram \<Rightarrow> 'w \<Rightarrow> int \<times> ram \<times> 'w"

definition sbrk :: "'w sbrk \<Rightarrow> int \<Rightarrow> 'w uheap \<Rightarrow> int \<times> 'w uheap" where
  "sbrk K inc s = (let (r, m, w) = K inc (u_ram s) (u_os s) in (r, s\<lparr>u_ram := m, u_os := w\<rparr>))"

text \<open>\<open>(size_t)-1 - sizeof(uheap_hdr_t)\<close> is \<open>2 ^ 64 - 25\<close>. The result 0 is \<open>NULL\<close>.\<close>

definition uheap_request_from_kernel :: "'w sbrk \<Rightarrow> nat \<Rightarrow> 'w uheap \<Rightarrow> (nat \<times> 'w uheap) option" where
  "uheap_request_from_kernel K payload s =
     (if 2 ^ 64 - 25 < payload then Some (0, s)
      else
        (let tot = uheap_align (24 + payload) in
         if tot < payload then Some (0, s)
         else
           (let (mem, s) = sbrk K (sint (of_nat tot :: u64)) s in
            if mem \<le> 0 then Some (0, s)
            else do {
              let h = nat mem;
              s \<leftarrow> put_hdr h \<lparr>uh_size = tot - 24, uh_next = 0, uh_magic = UHEAP_MAGIC, uh_free = 0\<rparr> s;
              Some (h, s)
            })))"

definition uheap_split_if_needed :: "nat \<Rightarrow> nat \<Rightarrow> 'w uheap \<Rightarrow> 'w uheap option" where
  "uheap_split_if_needed a need s = do {
     h \<leftarrow> get_hdr a s;
     let remain = (if need < uh_size h then uh_size h - need else 0);
     if remain < 24 + 32 then Some s
     else do {
       let nh = (a + 24 + need) mod 2 ^ 64;
       s \<leftarrow> put_hdr nh \<lparr>uh_size = remain - 24, uh_next = 0, uh_magic = UHEAP_MAGIC, uh_free = 1\<rparr> s;
       h \<leftarrow> get_hdr a s;
       s \<leftarrow> put_hdr a (h\<lparr>uh_size := need\<rparr>) s;
       uheap_insert_free nh s
     }
   }"

text \<open>The first-fit loop: \<open>Some p\<close> is the value \<open>malloc\<close> returns from inside it, \<open>None\<close> the end of the list.\<close>

partial_function (option) first_fit ::
  "nat \<Rightarrow> nat \<Rightarrow> nat \<Rightarrow> 'w uheap \<Rightarrow> (nat option \<times> 'w uheap) option" where
  "first_fit prev cur need s =
     (if cur = 0 then Some (None, s)
      else do {
        c \<leftarrow> get_hdr cur s;
        if uh_magic c \<noteq> UHEAP_MAGIC then Some (Some 0, s)
        else if uh_free c \<noteq> 0 \<and> need \<le> uh_size c then do {
          s \<leftarrow> (if prev \<noteq> 0 then do { p \<leftarrow> get_hdr prev s; put_hdr prev (p\<lparr>uh_next := uh_next c\<rparr>) s }
               else Some (s\<lparr>u_list := uh_next c\<rparr>));
          c \<leftarrow> get_hdr cur s;
          s \<leftarrow> put_hdr cur (c\<lparr>uh_next := 0, uh_free := 0\<rparr>) s;
          s \<leftarrow> uheap_split_if_needed cur need s;
          Some (Some (cur + 24), s)
        }
        else first_fit cur (uh_next c) need s
      })"

definition malloc :: "'w sbrk \<Rightarrow> nat \<Rightarrow> 'w uheap \<Rightarrow> (nat \<times> 'w uheap) option" where
  "malloc K sz s =
     (if sz = 0 then Some (0, s)
      else do {
        let sz = uheap_align sz;
        (r, s) \<leftarrow> first_fit 0 (u_list s) sz s;
        (case r of
           Some p \<Rightarrow> Some (p, s)
         | None \<Rightarrow> do {
             (h, s) \<leftarrow> uheap_request_from_kernel K sz s;
             if h = 0 then Some (0, s)
             else do {
               s \<leftarrow> uheap_split_if_needed h sz s;
               Some (h + 24, s)
             }
           })
      })"

text \<open>The header of a payload: \<open>((uheap_hdr_t*)ptr) - 1\<close>.\<close>

definition hdr_of :: "nat \<Rightarrow> nat" where
  "hdr_of ptr = (ptr + (2 ^ 64 - 24)) mod 2 ^ 64"

definition free :: "nat \<Rightarrow> 'w uheap \<Rightarrow> (unit \<times> 'w uheap) option" where
  "free ptr s =
     (if ptr = 0 then Some ((), s)
      else do {
        let a = hdr_of ptr;
        h \<leftarrow> get_hdr a s;
        if uh_magic h \<noteq> UHEAP_MAGIC then Some ((), s)
        else if uh_free h \<noteq> 0 then Some ((), s)
        else do {
          s \<leftarrow> uheap_insert_free a s;
          s \<leftarrow> uheap_coalesce s;
          Some ((), s)
        }
      })"

definition calloc :: "'w sbrk \<Rightarrow> nat \<Rightarrow> nat \<Rightarrow> 'w uheap \<Rightarrow> (nat \<times> 'w uheap) option" where
  "calloc K nmemb sz s =
     (if 0 < nmemb \<and> (2 ^ 64 - 1) div nmemb < sz then Some (0, s)
      else do {
        let tot = (nmemb * sz) mod 2 ^ 64;
        (p, s) \<leftarrow> malloc K tot s;
        if p = 0 then Some (0, s)
        else do {
          m \<leftarrow> ram_wr p (replicate tot 0) (u_ram s);
          Some (p, s\<lparr>u_ram := m\<rparr>)
        }
      })"

text \<open>The walk over the free list that looks for the block \<open>b\<close>.\<close>

partial_function (option) in_free_list :: "nat \<Rightarrow> nat \<Rightarrow> 'w uheap \<Rightarrow> bool option" where
  "in_free_list b f s =
     (if f = 0 then Some False
      else if f = b then Some True
      else do { h \<leftarrow> get_hdr f s; in_free_list b (uh_next h) s })"

text \<open>The last resort of \<open>realloc\<close>: a new block, the bytes of the old one, and the old one freed.\<close>

definition realloc_move :: "'w sbrk \<Rightarrow> nat \<Rightarrow> nat \<Rightarrow> 'w uheap \<Rightarrow> (nat \<times> 'w uheap) option" where
  "realloc_move K ptr new_sz s = do {
     (n, s) \<leftarrow> malloc K new_sz s;
     if n = 0 then Some (0, s)
     else do {
       h \<leftarrow> get_hdr (hdr_of ptr) s;
       bs \<leftarrow> ram_rd (u_ram s) ptr (uh_size h);
       m \<leftarrow> ram_wr n bs (u_ram s);
       (_, s) \<leftarrow> free ptr (s\<lparr>u_ram := m\<rparr>);
       Some (n, s)
     }
   }"

definition realloc :: "'w sbrk \<Rightarrow> nat \<Rightarrow> nat \<Rightarrow> 'w uheap \<Rightarrow> (nat \<times> 'w uheap) option" where
  "realloc K ptr sz s =
     (if ptr = 0 then malloc K sz s
      else if sz = 0 then do { (_, s) \<leftarrow> free ptr s; Some (0, s) }
      else do {
        let a = hdr_of ptr;
        h \<leftarrow> get_hdr a s;
        if uh_magic h \<noteq> UHEAP_MAGIC then Some (0, s)
        else do {
          let new_sz = uheap_align sz;
          if new_sz \<le> uh_size h then do {
            s \<leftarrow> uheap_split_if_needed a new_sz s;
            Some (ptr, s)
          }
          else do {
            let nxt = block_end a h;
            n \<leftarrow> get_hdr nxt s;
            is_free \<leftarrow> (if uh_magic n = UHEAP_MAGIC \<and> uh_free n = 1 then in_free_list nxt (u_list s) s
                        else Some False);
            if is_free then
              if (2 ^ 64 - 1 - uh_size h + (2 ^ 64 - 24)) mod 2 ^ 64 < uh_size n then Some (0, s)
              else do {
                let combined = uh_size h + 24 + uh_size n;
                if new_sz \<le> combined then do {
                  s \<leftarrow> uheap_remove_free nxt s;
                  n \<leftarrow> get_hdr nxt s;
                  s \<leftarrow> put_hdr nxt (n\<lparr>uh_magic := 0\<rparr>) s;
                  h \<leftarrow> get_hdr a s;
                  s \<leftarrow> put_hdr a (h\<lparr>uh_size := combined\<rparr>) s;
                  s \<leftarrow> uheap_split_if_needed a new_sz s;
                  Some (ptr, s)
                }
                else realloc_move K ptr new_sz s
              }
            else realloc_move K ptr new_sz s
          }
        }
      })"

section \<open>Reading back what was written\<close>

lemma those_Some: "those xs = Some ys \<longleftrightarrow> xs = map Some ys"
  by (induction xs arbitrary: ys) (auto split: option.splits simp: Cons_eq_map_conv)

lemma ram_rd_Some: "ram_rd m a n = Some bs \<longleftrightarrow> length bs = n \<and> (\<forall>i<n. m (a + i) = Some (bs ! i))"
  unfolding ram_rd_def those_Some by (auto simp: list_eq_iff_nth_eq)

lemma ram_rd_mapped: "{a..<a + n} \<subseteq> dom m \<Longrightarrow> \<exists>bs. ram_rd m a n = Some bs"
  unfolding ram_rd_Some
  by (intro exI [of _ "map (\<lambda>i. the (m (a + i))) [0..<n]"]) (auto simp: subset_iff domIff)

lemma ram_rd_cong: "(\<And>x. a \<le> x \<Longrightarrow> x < a + n \<Longrightarrow> m' x = m x) \<Longrightarrow> ram_rd m' a n = ram_rd m a n"
  by (auto simp: ram_rd_def intro!: arg_cong [of _ _ those])

lemma ram_rd_upd_same: "n = length bs \<Longrightarrow> ram_rd (ram_upd a bs m) a n = Some bs"
  by (simp add: ram_rd_Some ram_upd_def)

lemma ram_rd_upd_other:
  "b + n \<le> a \<or> a + length bs \<le> b \<Longrightarrow> ram_rd (ram_upd a bs m) b n = ram_rd m b n"
  by (rule ram_rd_cong) (auto simp: ram_upd_def)

lemma ram_wr_mapped: "{a..<a + length bs} \<subseteq> dom m \<Longrightarrow> ram_wr a bs m = Some (ram_upd a bs m)"
  by (auto simp: ram_wr_def list_all_iff)

lemma dom_ram_upd: "{a..<a + length bs} \<subseteq> dom m \<Longrightarrow> dom (ram_upd a bs m) = dom m"
  by (auto simp: ram_upd_def dom_def)

lemma length_le64 [simp]: "length (le64 v) = 8"
  by (simp add: le64_def)

lemma length_enc_hdr [simp]: "length (enc_hdr h) = 24"
  by (simp add: enc_hdr_def)

lemma of_le64_le64 [simp]: "of_le64 (le64 v) = v"
proof -
  have "of_le64 (le64 v) = ucast (ucast v :: u32) OR push_bit 32 (ucast (ucast (drop_bit 32 v) :: u32))"
    by (simp add: of_le64_def le64_def)
  also have "\<dots> = v"
    by (rule bit_word_eqI) (auto simp: bit_simps)
  finally show ?thesis .
qed

text \<open>A header whose fields fit into 64 bits is read back as it was written.\<close>

definition fits :: "uheap_hdr_t \<Rightarrow> bool" where
  "fits h \<longleftrightarrow> uh_size h < 2 ^ 64 \<and> uh_next h < 2 ^ 64"

lemma dec_enc_hdr: "fits h \<Longrightarrow> dec_hdr (enc_hdr h) = h"
  by (cases h) (simp add: fits_def dec_hdr_def enc_hdr_def unat_of_nat take_bit_nat_eq_self_iff)

lemma dec_hdr_fits: "fits (dec_hdr bs)"
  using unsigned_less [of "of_le64 (take 8 bs)", where 'a = nat] unsigned_less [of "of_le64 (take 8 (drop 8 bs))", where 'a = nat]
  by (simp add: fits_def dec_hdr_def)

definition mapped :: "'w uheap \<Rightarrow> nat \<Rightarrow> nat \<Rightarrow> bool" where
  "mapped s a n \<longleftrightarrow> {a..<a + n} \<subseteq> dom (u_ram s)"

definition upd_hdr :: "nat \<Rightarrow> uheap_hdr_t \<Rightarrow> 'w uheap \<Rightarrow> 'w uheap" where
  "upd_hdr a h s = s\<lparr>u_ram := ram_upd a (enc_hdr h) (u_ram s)\<rparr>"

lemma upd_hdr_simps [simp]: "u_list (upd_hdr a h s) = u_list s" "u_os (upd_hdr a h s) = u_os s"
  by (simp_all add: upd_hdr_def)

lemma put_hdr_mapped: "mapped s a 24 \<Longrightarrow> put_hdr a h s = Some (upd_hdr a h s)"
  by (simp add: put_hdr_def upd_hdr_def mapped_def ram_wr_mapped)

lemma get_upd_same: "fits h \<Longrightarrow> get_hdr a (upd_hdr a h s) = Some h"
  by (simp add: get_hdr_def upd_hdr_def ram_rd_upd_same dec_enc_hdr)

lemma get_upd_other: "b + 24 \<le> a \<or> a + 24 \<le> b \<Longrightarrow> get_hdr b (upd_hdr a h s) = get_hdr b s"
  by (simp add: get_hdr_def upd_hdr_def ram_rd_upd_other)

lemma get_hdr_cong: "(\<And>x. a \<le> x \<Longrightarrow> x < a + 24 \<Longrightarrow> u_ram s' x = u_ram s x) \<Longrightarrow> get_hdr a s' = get_hdr a s"
  unfolding get_hdr_def by (rule arg_cong [of _ _ "map_option dec_hdr"], rule ram_rd_cong) blast

lemma get_hdr_mapped: "mapped s a 24 \<Longrightarrow> \<exists>h. get_hdr a s = Some h \<and> fits h"
  using ram_rd_mapped [of a 24 "u_ram s"] by (auto simp: mapped_def get_hdr_def dec_hdr_fits)

lemma get_hdr_fits: "get_hdr a s = Some h \<Longrightarrow> fits h"
  by (auto simp: get_hdr_def dec_hdr_fits)

lemma mapped_upd [simp]: "mapped s a 24 \<Longrightarrow> mapped (upd_hdr a h s) b n = mapped s b n"
  by (simp add: mapped_def upd_hdr_def dom_ram_upd)

lemma mapped_mono: "mapped s a n \<Longrightarrow> a \<le> b \<Longrightarrow> b + k \<le> a + n \<Longrightarrow> mapped s b k"
  unfolding mapped_def by (erule subset_trans [rotated]) auto

lemma u_ram_upd: "x < a \<or> a + 24 \<le> x \<Longrightarrow> u_ram (upd_hdr a h s) x = u_ram s x"
  by (auto simp: upd_hdr_def ram_upd_def)

end
