(* ===== verification/Heap_Blocks.thy ===== *)
theory Heap_Blocks
  imports Libc_Heap
begin

text \<open>
  The invariant of the heap and what the steps of the allocator do to it: the blocks lie apart from each other in
  mapped memory, each with its header, and the free ones form a list in the order of their addresses. Inserting a
  block, merging neighbours, splitting a block and taking one from the list keep that.
\<close>

section \<open>Blocks and the free list\<close>

text \<open>
  \<open>blk\<close> describes the blocks: the payload size at the address of each header. They are apart from each other
  and each lies in memory, with its header in front; \<open>F\<close> are those flagged as free.
\<close>

definition layout :: "(nat \<Rightarrow> nat option) \<Rightarrow> bool" where
  "layout blk \<longleftrightarrow> (\<forall>a sz. blk a = Some sz \<longrightarrow> 0 < a \<and> a + 24 + sz < 2 ^ 63) \<and>
     (\<forall>a sa b. blk a = Some sa \<longrightarrow> b \<in> dom blk \<longrightarrow> a < b \<longrightarrow> a + 24 + sa \<le> b)"

definition stored :: "'w uheap \<Rightarrow> (nat \<Rightarrow> nat option) \<Rightarrow> nat set \<Rightarrow> bool" where
  "stored s blk F \<longleftrightarrow> (\<forall>a sz. blk a = Some sz \<longrightarrow> mapped s a (24 + sz) \<and>
     (\<exists>h. get_hdr a s = Some h \<and> uh_size h = sz \<and> uh_magic h = UHEAP_MAGIC \<and> uh_free h = (if a \<in> F then 1 else 0)))"

text \<open>\<open>links s xs v\<close>: each block of \<open>xs\<close> points to the following one, the last one to \<open>v\<close>.\<close>

fun links :: "'w uheap \<Rightarrow> nat list \<Rightarrow> nat \<Rightarrow> bool" where
  "links s [] v = True"
| "links s (x # xs) v \<longleftrightarrow> map_option uh_next (get_hdr x s) = Some (hd (xs @ [v])) \<and> links s xs v"

definition chain :: "'w uheap \<Rightarrow> nat list \<Rightarrow> nat \<Rightarrow> bool" where
  "chain s xs v \<longleftrightarrow> u_list s = hd (xs @ [v]) \<and> links s xs v"

definition heap_inv :: "'w uheap \<Rightarrow> (nat \<Rightarrow> nat option) \<Rightarrow> nat list \<Rightarrow> bool" where
  "heap_inv s blk fs \<longleftrightarrow> layout blk \<and> stored s blk (set fs) \<and> sorted_wrt (<) fs \<and> set fs \<subseteq> dom blk \<and> chain s fs 0"

lemma layout_block: "layout blk \<Longrightarrow> blk a = Some sz \<Longrightarrow> 0 < a \<and> a + 24 + sz < 2 ^ 63"
  by (simp add: layout_def)

lemma layout_apart:
  assumes "layout blk" "blk a = Some sa" "b \<in> dom blk" "a < b"
  shows "a + 24 + sa \<le> b"
  using assms by (simp add: layout_def)

lemma layout_between:
  assumes "layout blk" "blk a = Some sa" "blk b = Some sb" "a \<noteq> b"
  shows "a + 24 + sa \<le> b \<or> b + 24 + sb \<le> a"
  using layout_apart [OF assms(1,2), of b] layout_apart [OF assms(1,3), of a] assms(2-4)
  by (metis domI nat_neq_iff)

lemma layout_apart24: "layout blk \<Longrightarrow> a \<in> dom blk \<Longrightarrow> b \<in> dom blk \<Longrightarrow> a \<noteq> b \<Longrightarrow> a + 24 \<le> b \<or> b + 24 \<le> a"
  using layout_apart [of blk a _ b] layout_apart [of blk b _ a] by (cases a b rule: linorder_cases) force+

lemma stored_mapped: "stored s blk F \<Longrightarrow> a \<in> dom blk \<Longrightarrow> mapped s a 24"
proof -
  assume s: "stored s blk F" "a \<in> dom blk"
  then obtain sz where "mapped s a (24 + sz)" by (auto simp: stored_def)
  then show ?thesis by (rule mapped_mono) simp_all
qed

lemma links_append: "links s (xs @ ys) v \<longleftrightarrow> links s xs (hd (ys @ [v])) \<and> links s ys v"
proof (induction xs)
  case (Cons x xs)
  then show ?case by (cases xs) auto
qed simp

lemma links_cong: "(\<And>x. x \<in> set xs \<Longrightarrow> get_hdr x s' = get_hdr x s) \<Longrightarrow> links s' xs v = links s xs v"
  by (induction xs) simp_all

lemma chain_append: "chain s (xs @ ys) v \<longleftrightarrow> chain s xs (hd (ys @ [v])) \<and> links s ys v"
  unfolding chain_def links_append by (cases xs) auto

lemma get_upd_block:
  "layout blk \<Longrightarrow> a \<in> dom blk \<Longrightarrow> b \<in> dom blk \<Longrightarrow> a \<noteq> b \<Longrightarrow> get_hdr b (upd_hdr a h s) = get_hdr b s"
  using layout_apart24 [of blk a b] by (intro get_upd_other) blast

lemma links_upd:
  assumes "layout blk" "a \<in> dom blk" "set xs \<subseteq> dom blk" "a \<notin> set xs"
  shows "links (upd_hdr a h s) xs v = links s xs v"
  using assms by (intro links_cong get_upd_block [of blk]) auto

lemma stored_upd:
  assumes "layout blk" "stored s blk F" "blk a = Some (uh_size h)" "uh_magic h = UHEAP_MAGIC"
    and "uh_free h = (if a \<in> F' then 1 else 0)" "F' - {a} = F - {a}" "uh_next h < 2 ^ 64"
  shows "stored (upd_hdr a h s) blk F'"
  unfolding stored_def
proof (intro allI impI)
  fix b sz assume b: "blk b = Some sz"
  have m: "mapped s a 24" using assms(2,3) by (intro stored_mapped) auto
  have f: "fits h" using layout_block [OF assms(1,3)] assms(7) by (simp add: fits_def)
  have F: "b \<in> F' \<longleftrightarrow> b \<in> F" if "b \<noteq> a" using assms(6) that by blast
  show "mapped (upd_hdr a h s) b (24 + sz) \<and> (\<exists>h'. get_hdr b (upd_hdr a h s) = Some h' \<and> uh_size h' = sz \<and>
      uh_magic h' = UHEAP_MAGIC \<and> uh_free h' = (if b \<in> F' then 1 else 0))"
  proof (cases "b = a")
    case True
    with assms(2-5) b m f show ?thesis by (auto simp: get_upd_same stored_def)
  next
    case False
    with assms(1,3) b have g: "get_hdr b (upd_hdr a h s) = get_hdr b s" by (intro get_upd_block [of blk]) auto
    show ?thesis unfolding g F [OF False] using assms(2) b m unfolding stored_def by simp
  qed
qed

lemma stored_hdr:
  assumes "stored s blk F" "blk a = Some sz"
  obtains h where "get_hdr a s = Some h" "uh_size h = sz" "uh_magic h = UHEAP_MAGIC"
    "uh_free h = (if a \<in> F then 1 else 0)" "uh_next h < 2 ^ 64" "fits h"
  using assms get_hdr_fits [of a s] unfolding stored_def fits_def by blast

text \<open>What an operation on headers leaves alone: the rest of the system, what is mapped, and every byte that is
  not in a header of \<open>A\<close>.\<close>

definition headers_only :: "nat set \<Rightarrow> 'w uheap \<Rightarrow> 'w uheap \<Rightarrow> bool" where
  "headers_only A s s' \<longleftrightarrow> u_os s' = u_os s \<and> dom (u_ram s') = dom (u_ram s) \<and>
     (\<forall>x. (\<forall>a\<in>A. \<not> (a \<le> x \<and> x < a + 24)) \<longrightarrow> u_ram s' x = u_ram s x)"

lemma headers_only_refl [simp]: "headers_only A s s"
  by (simp add: headers_only_def)

lemma headers_only_trans: "headers_only A s s' \<Longrightarrow> headers_only A s' s'' \<Longrightarrow> headers_only A s s''"
  by (simp add: headers_only_def)

lemma headers_only_mono: "headers_only A s s' \<Longrightarrow> A \<subseteq> B \<Longrightarrow> headers_only B s s'"
  unfolding headers_only_def by blast

lemma headers_only_upd: "a \<in> A \<Longrightarrow> mapped s a 24 \<Longrightarrow> headers_only A s (upd_hdr a h s)"
  using dom_ram_upd [of a "enc_hdr h" "u_ram s"]
  by (simp add: headers_only_def upd_hdr_def mapped_def) (auto simp: ram_upd_def)

lemma headers_only_list [simp]: "headers_only A s (s\<lparr>u_list := v\<rparr>)"
  by (simp add: headers_only_def)

section \<open>Pointers into the list\<close>

text \<open>\<open>pp_of xs\<close>: the place that holds the pointer behind the prefix \<open>xs\<close> of the list.\<close>

definition pp_of :: "nat list \<Rightarrow> nat option" where
  "pp_of xs = (if xs = [] then None else Some (last xs))"

lemma pp_of_snoc [simp]: "pp_of (xs @ [x]) = Some x"
  by (simp add: pp_of_def)

lemma links_last: "links s xs v \<Longrightarrow> xs \<noteq> [] \<Longrightarrow> map_option uh_next (get_hdr (last xs) s) = Some v"
proof (induction xs)
  case (Cons x xs)
  then show ?case by (cases xs) auto
qed simp

lemma load_pp_of: "chain s xs v \<Longrightarrow> load_pp (pp_of xs) s = Some v"
  using links_last [of s xs v] by (auto simp: chain_def load_pp_def pp_of_def)

definition set_pp :: "nat list \<Rightarrow> nat \<Rightarrow> 'w uheap \<Rightarrow> 'w uheap" where
  "set_pp xs v s = (if xs = [] then s\<lparr>u_list := v\<rparr>
     else upd_hdr (last xs) ((the (get_hdr (last xs) s))\<lparr>uh_next := v\<rparr>) s)"

lemma set_pp_list: "u_list s = hd (xs @ [w]) \<Longrightarrow> u_list (set_pp xs v s) = hd (xs @ [v])"
  by (cases xs) (simp_all add: set_pp_def)

lemma store_pp_of:
  assumes "stored s blk F" "set xs \<subseteq> dom blk"
  shows "store_pp (pp_of xs) v s = Some (set_pp xs v s)"
proof (cases "xs = []")
  case False
  then have d: "last xs \<in> dom blk" using assms(2) last_in_set by blast
  then obtain sz where "blk (last xs) = Some sz" by blast
  then obtain h where "get_hdr (last xs) s = Some h" using stored_hdr [OF assms(1)] by metis
  with False stored_mapped [OF assms(1) d] show ?thesis
    by (simp add: store_pp_def pp_of_def set_pp_def put_hdr_mapped)
qed (simp add: store_pp_def pp_of_def set_pp_def)

lemma set_pp_props:
  assumes lay: "layout blk" and st: "stored s blk F" and xs: "set xs \<subseteq> dom blk" and v: "v < 2 ^ 64"
  shows "stored (set_pp xs v s) blk F" "headers_only (dom blk) s (set_pp xs v s)"
    "\<And>b. b \<in> dom blk \<Longrightarrow> b \<notin> set xs \<Longrightarrow> get_hdr b (set_pp xs v s) = get_hdr b s"
proof -
  have "stored (set_pp xs v s) blk F \<and> headers_only (dom blk) s (set_pp xs v s) \<and>
    (\<forall>b. b \<in> dom blk \<longrightarrow> b \<notin> set xs \<longrightarrow> get_hdr b (set_pp xs v s) = get_hdr b s)"
  proof (cases "xs = []")
    case True
    then show ?thesis using st by (simp add: set_pp_def stored_def mapped_def get_hdr_def)
  next
    case False
    let ?a = "last xs"
    have l: "?a \<in> set xs" using False by simp
    with xs have d: "?a \<in> dom blk" by blast
    then obtain sz where sz: "blk ?a = Some sz" by blast
    obtain h where h: "get_hdr ?a s = Some h" "uh_size h = sz" "uh_magic h = UHEAP_MAGIC"
      "uh_free h = (if ?a \<in> F then 1 else 0)"
      by (rule stored_hdr [OF st sz])
    have e: "set_pp xs v s = upd_hdr ?a (h\<lparr>uh_next := v\<rparr>) s" using False h(1) by (simp add: set_pp_def)
    have "stored (upd_hdr ?a (h\<lparr>uh_next := v\<rparr>) s) blk F"
      using lay st by (rule stored_upd) (use sz h v in simp_all)
    moreover have "get_hdr b (upd_hdr ?a (h\<lparr>uh_next := v\<rparr>) s) = get_hdr b s" if "b \<in> dom blk" "b \<notin> set xs" for b
      using lay d that(1) by (rule get_upd_block) (use l that in blast)
    ultimately show ?thesis unfolding e using headers_only_upd [OF d stored_mapped [OF st d]] by blast
  qed
  then show "stored (set_pp xs v s) blk F" "headers_only (dom blk) s (set_pp xs v s)"
    "\<And>b. b \<in> dom blk \<Longrightarrow> b \<notin> set xs \<Longrightarrow> get_hdr b (set_pp xs v s) = get_hdr b s"
    by blast+
qed

lemma set_pp_chain:
  assumes lay: "layout blk" and st: "stored s blk F" and xs: "set xs \<subseteq> dom blk" and v: "v < 2 ^ 64"
    and ch: "chain s xs w" and dist: "distinct xs"
  shows "chain (set_pp xs v s) xs v"
proof (cases xs rule: rev_cases)
  case Nil
  with ch show ?thesis by (simp add: chain_def set_pp_def)
next
  case (snoc ys a)
  then have d: "a \<in> dom blk" "set ys \<subseteq> dom blk" "a \<notin> set ys" using xs dist by auto
  then obtain sz where sz: "blk a = Some sz" by blast
  obtain h where h: "get_hdr a s = Some h" "fits h" by (rule stored_hdr [OF st sz])
  have e: "set_pp xs v s = upd_hdr a (h\<lparr>uh_next := v\<rparr>) s" using h(1) by (simp add: set_pp_def snoc)
  have "fits (h\<lparr>uh_next := v\<rparr>)" using h(2) v by (simp add: fits_def)
  then have "links (upd_hdr a (h\<lparr>uh_next := v\<rparr>) s) [a] v" by (simp add: get_upd_same)
  moreover have "links (upd_hdr a (h\<lparr>uh_next := v\<rparr>) s) ys a"
    using ch links_upd [OF lay d(1,2,3), of _ s a] by (simp add: snoc links_append chain_def)
  moreover have "u_list s = hd (ys @ [a])" using ch by (cases ys) (simp_all add: snoc chain_def)
  ultimately show ?thesis unfolding e unfolding snoc chain_append by (simp add: chain_def)
qed

lemma find_pp_eq:
  "chain s (xs @ ys) 0 \<Longrightarrow> 0 \<notin> set ys \<Longrightarrow> find_pp b (pp_of xs) s = Some (pp_of (xs @ takeWhile (\<lambda>a. a < b) ys))"
proof (induction ys arbitrary: xs)
  case Nil
  then have "load_pp (pp_of xs) s = Some 0" by (simp add: load_pp_of)
  then show ?case by (subst find_pp.simps) simp
next
  case (Cons y ys)
  then have c: "chain s xs y" by (simp add: chain_append)
  show ?case
  proof (cases "y < b")
    case True
    have "find_pp b (pp_of (xs @ [y])) s = Some (pp_of ((xs @ [y]) @ takeWhile (\<lambda>a. a < b) ys))"
      using Cons.prems by (intro Cons.IH) simp_all
    then show ?thesis using True load_pp_of [OF c] Cons.prems(2) by (subst find_pp.simps) simp
  next
    case False
    then show ?thesis using load_pp_of [OF c] by (subst find_pp.simps) simp
  qed
qed

section \<open>Inserting, merging, removing\<close>

text \<open>The list with a block at its place.\<close>

definition insert_at :: "nat \<Rightarrow> nat list \<Rightarrow> nat list" where
  "insert_at b fs = takeWhile (\<lambda>a. a < b) fs @ b # dropWhile (\<lambda>a. a < b) fs"

lemma set_insert_at [simp]: "set (insert_at b fs) = insert b (set fs)"
  unfolding insert_at_def
  by (metis Un_insert_right list.simps(15) set_append takeWhile_dropWhile_id)

lemma sorted_insert_at: "sorted_wrt (<) fs \<Longrightarrow> b \<notin> set fs \<Longrightarrow> sorted_wrt (<) (insert_at b fs)"
proof (induction fs)
  case (Cons x fs)
  show ?case
  proof (cases "x < b")
    case True
    have e: "insert_at b (x # fs) = x # insert_at b fs" using True by (simp add: insert_at_def)
    show ?thesis unfolding e using Cons True by simp
  next
    case False
    then have e: "insert_at b (x # fs) = b # x # fs" by (simp add: insert_at_def)
    show ?thesis unfolding e using Cons False by auto
  qed
qed (simp add: insert_at_def)

lemma sorted_wrt_less_distinct: "sorted_wrt (<) (xs :: nat list) \<Longrightarrow> distinct xs"
  by (simp add: strict_sorted_iff)

text \<open>\<open>uheap_insert_free\<close> on a block that is not in the list, whatever its flag says.\<close>

lemma insert_free_returns:
  assumes lay: "layout blk" and st: "stored s blk F" and F: "F - {b} = set fs" and b: "b \<in> dom blk" "b \<notin> set fs"
    and fs: "sorted_wrt (<) fs" "set fs \<subseteq> dom blk" and ch: "chain s fs 0"
  shows "\<exists>s'. uheap_insert_free b s = Some s' \<and> heap_inv s' blk (insert_at b fs) \<and> headers_only (dom blk) s s'"
proof -
  define xs ys where "xs = takeWhile (\<lambda>a. a < b) fs" and "ys = dropWhile (\<lambda>a. a < b) fs"
  have fs_eq: "fs = xs @ ys" by (simp add: xs_def ys_def)
  have sub: "set xs \<subseteq> dom blk" "set ys \<subseteq> dom blk" "b \<notin> set xs" "b \<notin> set ys" "distinct xs" "set xs \<inter> set ys = {}"
    using fs(2) b(2) sorted_wrt_less_distinct [OF fs(1)] unfolding fs_eq by auto
  have pos: "a \<in> dom blk \<Longrightarrow> 0 < a \<and> a < 2 ^ 64" for a using layout_block [OF lay] by fastforce
  obtain sz where sz: "blk b = Some sz" using b(1) by blast
  obtain h where h: "get_hdr b s = Some h" "uh_size h = sz" "uh_magic h = UHEAP_MAGIC" "uh_next h < 2 ^ 64"
    by (rule stored_hdr [OF st sz])
  have m: "mapped s b 24" by (rule stored_mapped [OF st b(1)])
  let ?F = "insert b (set fs)"
  define s1 where "s1 = upd_hdr b (h\<lparr>uh_free := 1\<rparr>) s"
  have st1: "stored s1 blk ?F" unfolding s1_def
    using lay st by (rule stored_upd) (use sz h F in auto)
  have ch1: "chain s1 fs 0"
    using ch links_upd [OF lay b(1) fs(2) b(2), of _ s] by (simp add: chain_def s1_def)
  have "0 \<notin> set fs" using fs(2) pos by blast
  then have pp: "find_pp b None s1 = Some (pp_of xs)"
    using find_pp_eq [of s1 "[]" fs b] ch1 by (simp add: pp_of_def xs_def)
  let ?v = "hd (ys @ [0])"
  have v: "?v < 2 ^ 64" using sub(2) pos by (cases ys) auto
  have c1: "chain s1 xs ?v" "links s1 ys 0" using ch1 unfolding fs_eq chain_append by blast+
  obtain h1 where h1: "get_hdr b s1 = Some h1" "uh_size h1 = sz" "uh_magic h1 = UHEAP_MAGIC" "uh_free h1 = 1"
    by (rule stored_hdr [OF st1 sz]) (use that in simp)
  define s2 where "s2 = upd_hdr b (h1\<lparr>uh_next := ?v\<rparr>) s1"
  have m1: "mapped s1 b 24" using m by (simp add: s1_def)
  have st2: "stored s2 blk ?F" unfolding s2_def
    using lay st1 by (rule stored_upd) (use sz h1 v in auto)
  have c2: "chain s2 xs ?v" "links s2 ys 0"
    using c1 links_upd [OF lay b(1) sub(1,3), of _ s1] links_upd [OF lay b(1) sub(2,4), of _ s1]
    by (simp_all add: chain_def s2_def)
  have "fits (h1\<lparr>uh_next := ?v\<rparr>)" using v h1(2) layout_block [OF lay sz] by (simp add: fits_def)
  then have l2: "map_option uh_next (get_hdr b s2) = Some ?v" by (simp add: s2_def get_upd_same)
  define s3 where "s3 = set_pp xs b s2"
  have bv: "b < 2 ^ 64" using pos [OF b(1)] by blast
  note p3 = set_pp_props [OF lay st2 sub(1) bv, folded s3_def]
  have c3: "chain s3 xs b" unfolding s3_def by (rule set_pp_chain [OF lay st2 sub(1) bv c2(1) sub(5)])
  have "links s3 ys 0 = links s2 ys 0" by (rule links_cong, rule p3(3)) (use sub in auto)
  then have "links s3 (b # ys) 0" using l2 c2(2) p3(3) [OF b(1) sub(3)] by simp
  with c3 have "chain s3 (insert_at b fs) 0"
    by (simp add: insert_at_def flip: xs_def ys_def add: chain_append)
  moreover have "uheap_insert_free b s = Some s3"
    using m m1 pp load_pp_of [OF c1(1)] store_pp_of [OF st2 sub(1), of b] h(1) h1(1)
    by (simp add: uheap_insert_free_def put_hdr_mapped s3_def flip: s1_def s2_def)
  moreover have "headers_only (dom blk) s s3"
    using headers_only_upd [OF b(1) m, of "h\<lparr>uh_free := 1\<rparr>"] headers_only_upd [OF b(1) m1, of "h1\<lparr>uh_next := ?v\<rparr>"] p3(2)
    by (metis headers_only_trans s1_def s2_def)
  ultimately show ?thesis
    using lay p3(1) fs b sorted_insert_at [OF fs(1) b(2)] by (auto simp: heap_inv_def)
qed

text \<open>The bytes a set of blocks takes, headers included, and lists without neighbours that touch.\<close>

definition extent :: "(nat \<Rightarrow> nat option) \<Rightarrow> nat set \<Rightarrow> nat set" where
  "extent blk A = (\<Union>a\<in>A. {a..<a + 24 + the (blk a)})"

text \<open>Every block of \<open>A\<close> lies within one of \<open>A'\<close>.\<close>

definition within ::
  "(nat \<Rightarrow> nat option) \<Rightarrow> nat set \<Rightarrow> (nat \<Rightarrow> nat option) \<Rightarrow> nat set \<Rightarrow> bool" where
  "within blk A blk' A' \<longleftrightarrow> (\<forall>a\<in>A. \<exists>b\<in>A'. b \<le> a \<and> a + the (blk a) \<le> b + the (blk' b))"

fun apart :: "(nat \<Rightarrow> nat option) \<Rightarrow> nat list \<Rightarrow> bool" where
  "apart blk (a # b # r) \<longleftrightarrow> a + 24 + the (blk a) \<noteq> b \<and> apart blk (b # r)"
| "apart blk _ = True"

lemma heap_invD:
  assumes "heap_inv s blk fs"
  shows "layout blk" "stored s blk (set fs)" "sorted_wrt (<) fs" "set fs \<subseteq> dom blk" "chain s fs 0"
  using assms by (simp_all add: heap_inv_def)

text \<open>The block \<open>n\<close> behind the block \<open>c\<close> becomes a part of it.\<close>

definition merged :: "nat \<Rightarrow> nat \<Rightarrow> (nat \<Rightarrow> nat option) \<Rightarrow> nat \<Rightarrow> nat option" where
  "merged c n blk = blk(c \<mapsto> the (blk c) + 24 + the (blk n), n := None)"

lemma layout_merged:
  assumes lay: "layout blk" and c: "blk c = Some sc" and n: "blk n = Some sn" and adj: "c + 24 + sc = n"
  shows "layout (merged c n blk)"
proof -
  have cn: "c < n" using adj by simp
  note L = layout_block [OF lay] layout_apart [OF lay]
  have "0 < a \<and> a + 24 + sz < 2 ^ 63" if "merged c n blk a = Some sz" for a sz
    using that L(1) [of a sz] L(1) [OF c] L(1) [OF n] c n adj cn by (auto simp: merged_def split: if_splits)
  moreover have "a + 24 + sa \<le> b"
    if m: "merged c n blk a = Some sa" "b \<in> dom (merged c n blk)" "a < b" for a sa b
  proof -
    have b: "b \<in> dom blk" "b \<noteq> n" using m(2) c by (auto simp: merged_def split: if_splits)
    show ?thesis
    proof (cases "a = c")
      case True
      then have sa: "sa = sc + 24 + sn" using m(1) c n cn by (simp add: merged_def)
      have "n \<le> b" using L(2) [OF c b(1)] m(3) True adj by simp
      then have "n + 24 + sn \<le> b" using L(2) [OF n b(1)] b(2) by simp
      then show ?thesis using sa True adj by simp
    next
      case False
      then have "blk a = Some sa" using m(1) by (simp add: merged_def split: if_splits)
      then show ?thesis using L(2) b(1) m(3) by blast
    qed
  qed
  ultimately show ?thesis unfolding layout_def by blast
qed

text \<open>Writing the header of \<open>c\<close> for both and wiping the magic number of \<open>n\<close> does that in memory.\<close>

lemma merged_stored:
  assumes lay: "layout blk" and st: "stored s blk F" and c: "blk c = Some sc" and n: "blk n = Some sn"
    and adj: "c + 24 + sc = n" and h: "uh_size h = sc + 24 + sn" "uh_magic h = UHEAP_MAGIC" "uh_next h < 2 ^ 64"
    "uh_free h = (if c \<in> F' then 1 else 0)" and F: "F' - {c, n} = F - {c, n}"
    and s': "s' = upd_hdr n hn (upd_hdr c h s)"
  shows "stored s' (merged c n blk) F'"
    and "\<And>b. b \<in> dom blk \<Longrightarrow> b \<noteq> c \<Longrightarrow> b \<noteq> n \<Longrightarrow> get_hdr b s' = get_hdr b s"
    and "get_hdr c s' = Some h" and "headers_only {c, n} s s'"
proof -
  have cn: "c < n" using adj by simp
  have dom: "c \<in> dom blk" "n \<in> dom blk" using c n by blast+
  note mc = stored_mapped [OF st dom(1)] and mn = stored_mapped [OF st dom(2)]
  show other: "\<And>b. b \<in> dom blk \<Longrightarrow> b \<noteq> c \<Longrightarrow> b \<noteq> n \<Longrightarrow> get_hdr b s' = get_hdr b s"
    using get_upd_block [OF lay] dom unfolding s' by metis
  have "fits h" using h layout_block [OF layout_merged [OF lay c n adj], of c "sc + 24 + sn"] c n cn
    by (simp add: fits_def merged_def)
  then show hc: "get_hdr c s' = Some h"
    using get_upd_block [OF lay dom(2,1), of hn "upd_hdr c h s"] cn unfolding s' by (simp add: get_upd_same)
  show "headers_only {c, n} s s'"
    using headers_only_upd [of c "{c, n}", OF _ mc] headers_only_upd [of n "{c, n}" "upd_hdr c h s" hn] mn mc
    unfolding s' by (auto intro: headers_only_trans)
  show "stored s' (merged c n blk) F'"
    unfolding stored_def
  proof (intro allI impI)
    fix b sz assume b: "merged c n blk b = Some sz"
    have map': "mapped s' a k = mapped s a k" for a k using mc mn unfolding s' by simp
    show "mapped s' b (24 + sz) \<and> (\<exists>h'. get_hdr b s' = Some h' \<and> uh_size h' = sz \<and> uh_magic h' = UHEAP_MAGIC \<and>
        uh_free h' = (if b \<in> F' then 1 else 0))"
    proof (cases "b = c")
      case True
      then have sz: "sz = sc + 24 + sn" using b c n cn by (simp add: merged_def)
      have "mapped s c (24 + sc)" "mapped s n (24 + sn)" using st c n by (simp_all add: stored_def)
      then have "mapped s c (24 + sz)" using adj unfolding mapped_def sz
        by (auto simp: subset_iff) (metis add.assoc add.commute atLeastLessThan_iff domD not_le)
      then show ?thesis using h hc sz True by (simp add: map')
    next
      case False
      then have b': "blk b = Some sz" "b \<noteq> n" using b by (auto simp: merged_def split: if_splits)
      then have g: "get_hdr b s' = get_hdr b s" using other False by blast
      have F: "b \<in> F' \<longleftrightarrow> b \<in> F" using F False b'(2) by blast
      show ?thesis unfolding g F map' using st b'(1) by (simp add: stored_def)
    qed
  qed
qed

lemma extent_merged:
  assumes "blk c = Some sc" "blk n = Some sn" "c + 24 + sc = n" "n \<notin> set r" "c \<notin> set r"
  shows "extent (merged c n blk) (set (c # r)) = extent blk (set (c # n # r))"
proof -
  have "c \<noteq> n" using assms(3) by simp
  have r: "extent (merged c n blk) (set r) = extent blk (set r)"
    unfolding extent_def using assms(4,5) by (intro SUP_cong) (auto simp: merged_def)
  have "{c..<c + 24 + (sc + 24 + sn)} = {c..<c + 24 + sc} \<union> {n..<n + 24 + sn}" using assms(3) by auto
  with r assms(1,2) \<open>c \<noteq> n\<close> show ?thesis by (auto simp: extent_def merged_def)
qed

lemma block_end_eq: "layout blk \<Longrightarrow> blk a = Some (uh_size h) \<Longrightarrow> block_end a h = a + 24 + uh_size h"
  using layout_block [of blk a "uh_size h"] by (simp add: block_end_def)

text \<open>One merge of the loop keeps the invariant.\<close>

lemma merge_step:
  assumes inv: "heap_inv s blk (xs @ c # n # r)" and c: "get_hdr c s = Some hc" and e: "block_end c hc = n"
  shows "\<exists>hn s'. get_hdr n s = Some hn \<and> heap_inv s' (merged c n blk) (xs @ c # r) \<and> headers_only {c, n} s s' \<and>
    do { s \<leftarrow> put_hdr c (hc\<lparr>uh_size := (uh_size hc + (24 + uh_size hn)) mod 2 ^ 64, uh_next := uh_next hn\<rparr>) s;
         n' \<leftarrow> get_hdr n s;
         put_hdr n (n'\<lparr>uh_magic := 0\<rparr>) s } = Some s' \<and>
    c + 24 + the (blk c) = n \<and> map_option uh_magic (get_hdr n s') = Some 0"
proof -
  note I = heap_invD [OF inv]
  have dom: "c \<in> dom blk" "n \<in> dom blk" using I(4) by auto
  then obtain sc sn where sz: "blk c = Some sc" "blk n = Some sn" by blast
  have hc: "uh_size hc = sc" "uh_magic hc = UHEAP_MAGIC" "uh_free hc = 1"
    using stored_hdr [OF I(2) sz(1)] c by (metis in_set_conv_decomp option.inject)+
  obtain hn where hn: "get_hdr n s = Some hn" "uh_size hn = sn" "uh_next hn < 2 ^ 64"
    by (rule stored_hdr [OF I(2) sz(2)])
  have adj: "c + 24 + sc = n" using e block_end_eq [OF I(1), of c hc] sz(1) hc(1) by simp
  have cn: "c \<noteq> n" using adj by simp
  note lay = layout_merged [OF I(1) sz adj]
  let ?h = "hc\<lparr>uh_size := sc + 24 + sn, uh_next := uh_next hn\<rparr>"
  have lt: "sc + 24 + sn < 2 ^ 64" using layout_block [OF lay, of c] sz cn by (simp add: merged_def)
  have m: "mapped s c 24" "mapped s n 24" using stored_mapped [OF I(2)] dom by blast+
  obtain hn' where hn': "get_hdr n (upd_hdr c ?h s) = Some hn'"
    using get_hdr_mapped [of "upd_hdr c ?h s" n] m by auto
  define s' where "s' = upd_hdr n (hn'\<lparr>uh_magic := 0\<rparr>) (upd_hdr c ?h s)"
  have dist: "distinct (xs @ c # n # r)" by (rule sorted_wrt_less_distinct [OF I(3)])
  note M = merged_stored [OF I(1,2) sz adj, of ?h "set (xs @ c # r)" s' "hn'\<lparr>uh_magic := 0\<rparr>"]
  have fl: "uh_free ?h = (if c \<in> set (xs @ c # r) then 1 else 0)" using hc by simp
  have F: "set (xs @ c # r) - {c, n} = set (xs @ c # n # r) - {c, n}" by auto
  have M': "stored s' (merged c n blk) (set (xs @ c # r))" "get_hdr c s' = Some ?h" "headers_only {c, n} s s'"
    "\<And>b. b \<in> dom blk \<Longrightarrow> b \<noteq> c \<Longrightarrow> b \<noteq> n \<Longrightarrow> get_hdr b s' = get_hdr b s"
    using M [OF _ _ _ fl F s'_def] hc(2) hn(3) by simp_all
  have run: "do { s \<leftarrow> put_hdr c (hc\<lparr>uh_size := (uh_size hc + (24 + uh_size hn)) mod 2 ^ 64, uh_next := uh_next hn\<rparr>) s;
         n' \<leftarrow> get_hdr n s; put_hdr n (n'\<lparr>uh_magic := 0\<rparr>) s } = Some s'"
    using hc(1) hn(2) lt m hn' by (simp add: put_hdr_mapped s'_def add.assoc)
  have c5: "chain s xs c" "uh_next hn = hd (r @ [0])" "links s r 0"
    using I(5) hn(1) by (simp_all add: chain_append)
  have "links s' xs c = links s xs c" "links s' r 0 = links s r 0"
    using dist I(4) by (auto intro!: links_cong M'(4))
  moreover have "u_list s' = u_list s" by (simp add: s'_def)
  ultimately have "chain s' (xs @ c # r) 0" using c5 M'(2) unfolding chain_append by (simp add: chain_def)
  moreover have "sorted_wrt (<) (xs @ c # r)" "set (xs @ c # r) \<subseteq> dom (merged c n blk)"
    using I(3,4) dist sz cn by (auto simp: sorted_wrt_append merged_def)
  ultimately have "heap_inv s' (merged c n blk) (xs @ c # r)" using lay M'(1) by (simp add: heap_inv_def)
  moreover have "map_option uh_magic (get_hdr n s') = Some 0"
    using get_hdr_fits [OF hn'] by (simp add: s'_def get_upd_same fits_def)
  ultimately show ?thesis using hn(1) run M'(3) adj sz(1) by auto
qed

text \<open>What merging does to the free blocks \<open>fs\<close> of a layout: only headers are written, the blocks kept are among them, they
  cover the same addresses, no two of them are adjacent, and the headers of the others are marked as dead.\<close>

definition coalesced ::
  "(nat \<rightharpoonup> nat) \<Rightarrow> nat list \<Rightarrow> 'w uheap \<Rightarrow> (nat \<rightharpoonup> nat) \<Rightarrow> nat list \<Rightarrow> 'w uheap \<Rightarrow> bool" where
  "coalesced blk fs s blk' fs' s' \<longleftrightarrow>
     headers_only (set fs) s s' \<and> (\<forall>a. a \<notin> set fs \<longrightarrow> blk' a = blk a) \<and> set fs' = set fs \<inter> dom blk' \<and>
     extent blk' (set fs') = extent blk (set fs) \<and> apart blk' fs' \<and> hd (fs' @ [0]) = hd (fs @ [0]) \<and>
     (\<forall>a\<in>set fs - dom blk'. map_option uh_magic (get_hdr a s') = Some 0) \<and> within blk (set fs) blk' (set fs')"

lemma coalesced_Nil: "coalesced blk [] s blk [] s"
  by (simp add: coalesced_def within_def)

lemma coalesced_single: "c \<in> dom blk \<Longrightarrow> coalesced blk [c] s blk [c] s"
  by (auto simp: coalesced_def within_def)

lemma within_merged:
  assumes w: "within (merged c n blk) (set (c # r)) blk' fs'" and sz: "blk c = Some sc" "blk n = Some sn" "c + 24 + sc = n"
    and dist: "distinct (c # n # r)"
  shows "within blk (set (c # n # r)) blk' fs'"
proof -
  have w: "\<exists>b\<in>fs'. b \<le> a \<and> a + the (merged c n blk a) \<le> b + the (blk' b)" if "a \<in> set (c # r)" for a
    using w that unfolding within_def by blast
  have mc: "the (merged c n blk c) = sc + 24 + sn" using sz by (simp add: merged_def)
  have "the (merged c n blk a) = the (blk a)" if "a \<in> set r" for a using that dist by (auto simp: merged_def)
  then have "\<exists>b\<in>fs'. b \<le> a \<and> a + the (blk a) \<le> b + the (blk' b)" if "a \<in> set r" for a
    using w [of a] that by simp
  moreover obtain b where "b \<in> fs'" "b \<le> c" "c + (sc + 24 + sn) \<le> b + the (blk' b)" using w [of c] mc by auto
  then have "\<exists>b\<in>fs'. b \<le> c \<and> c + the (blk c) \<le> b + the (blk' b)"
    "\<exists>b\<in>fs'. b \<le> n \<and> n + the (blk n) \<le> b + the (blk' b)"
    using sz by (auto intro!: bexI [of _ b])
  ultimately show ?thesis by (auto simp: within_def)
qed

text \<open>Headers do not overlap, so what is written into some of them leaves the others.\<close>

lemma headers_only_get_hdr:
  assumes lay: "layout blk" and h: "headers_only B s s'" and B: "B \<subseteq> dom blk - {n}" and n: "n \<in> dom blk"
  shows "get_hdr n s' = get_hdr n s"
proof (rule get_hdr_cong)
  fix x assume x: "n \<le> x" "x < n + 24"
  have "\<not> (b \<le> x \<and> x < b + 24)" if "b \<in> B" for b
  proof -
    have "b \<in> dom blk" "b \<noteq> n" using B that by auto
    then show ?thesis using layout_apart24 [OF lay _ n, of b] x by auto
  qed
  then show "u_ram s' x = u_ram s x" using h unfolding headers_only_def by blast
qed

lemma coalesced_merge:
  assumes inv: "heap_inv s blk (xs @ c # n # r)" and sz: "blk c = Some sc" "c + 24 + sc = n"
    and s1: "headers_only {c, n} s s1" "map_option uh_magic (get_hdr n s1) = Some 0"
    and rest: "coalesced (merged c n blk) (c # r) s1 blk' fs' s'"
  shows "coalesced blk (c # n # r) s blk' fs' s'"
proof -
  note I = heap_invD [OF inv]
  have dist: "distinct (xs @ c # n # r)" by (rule sorted_wrt_less_distinct [OF I(3)])
  obtain sn where sn: "blk n = Some sn" using I(4) by auto
  have r: "headers_only (set (c # r)) s1 s'" "\<And>a. a \<notin> set (c # r) \<Longrightarrow> blk' a = merged c n blk a"
    "set fs' = set (c # r) \<inter> dom blk'" "extent blk' (set fs') = extent (merged c n blk) (set (c # r))"
    "apart blk' fs'" "hd (fs' @ [0]) = c" "\<forall>a\<in>set (c # r) - dom blk'. map_option uh_magic (get_hdr a s') = Some 0"
    "within (merged c n blk) (set (c # r)) blk' (set fs')"
    using rest unfolding coalesced_def by auto
  have nb: "n \<notin> dom blk'" using r(2) [of n] dist by (simp add: merged_def domIff)
  have "headers_only (set (c # n # r)) s s'"
    using headers_only_mono [OF s1(1), of "set (c # n # r)"] headers_only_mono [OF r(1), of "set (c # n # r)"]
    by (auto intro: headers_only_trans)
  moreover have "blk' a = blk a" if "a \<notin> set (c # n # r)" for a
    using r(2) [of a] that sz by (auto simp: merged_def)
  moreover have "set fs' = set (c # n # r) \<inter> dom blk'" using r(3) nb by auto
  moreover have "extent blk' (set fs') = extent blk (set (c # n # r))"
    using r(4) extent_merged [OF sz(1) sn sz(2), of r] dist by simp
  moreover have "within blk (set (c # n # r)) blk' (set fs')"
    by (rule within_merged [OF r(8) sz(1) sn sz(2)]) (use dist in simp)
  moreover have "get_hdr n s' = get_hdr n s1"
    by (rule headers_only_get_hdr [OF I(1) r(1)]) (use dist I(4) in auto)
  then have "\<forall>a\<in>set (c # n # r) - dom blk'. map_option uh_magic (get_hdr a s') = Some 0"
    using r(7) s1(2) by auto
  ultimately show ?thesis using r(5,6) unfolding coalesced_def by auto
qed

lemma coalesced_skip:
  assumes sc: "blk c = Some sc" and dist: "c \<notin> set (n # r)" and n: "n \<noteq> 0" "c + 24 + sc \<noteq> n"
    and rest: "coalesced blk (n # r) s blk' fs' s'"
  shows "coalesced blk (c # n # r) s blk' (c # fs') s'"
proof -
  have r: "headers_only (set (n # r)) s s'" "\<And>a. a \<notin> set (n # r) \<Longrightarrow> blk' a = blk a"
    "set fs' = set (n # r) \<inter> dom blk'" "extent blk' (set fs') = extent blk (set (n # r))"
    "apart blk' fs'" "hd (fs' @ [0]) = n" "\<forall>a\<in>set (n # r) - dom blk'. map_option uh_magic (get_hdr a s') = Some 0"
    "within blk (set (n # r)) blk' (set fs')"
    using rest unfolding coalesced_def by auto
  have bc: "blk' c = Some sc" using r(2) [of c] dist sc by simp
  obtain f2 where f2: "fs' = n # f2" using r(6) n(1) by (cases fs') auto
  have "apart blk' (c # fs')" using r(5) bc f2 n(2) by simp
  moreover have "extent blk' (set (c # fs')) = extent blk (set (c # n # r))" using r(4) bc sc by (simp add: extent_def)
  moreover have "set (c # fs') = set (c # n # r) \<inter> dom blk'" using r(3) bc by auto
  moreover have "headers_only (set (c # n # r)) s s'" using r(1) by (rule headers_only_mono) auto
  moreover have "within blk (set (c # n # r)) blk' (set (c # fs'))" using r(8) bc sc by (auto simp: within_def)
  ultimately show ?thesis using r(2,7) bc unfolding coalesced_def by auto
qed

lemma coalesce_loop_returns:
  "heap_inv s blk (xs @ fs) \<Longrightarrow>
   \<exists>s' blk' fs'. coalesce_loop (hd (fs @ [0])) s = Some s' \<and> heap_inv s' blk' (xs @ fs') \<and> coalesced blk fs s blk' fs' s'"
proof (induction "length fs" arbitrary: s blk xs fs rule: less_induct)
  case less
  note I = heap_invD [OF less.prems]
  show ?case
  proof (cases fs)
    case Nil
    then show ?thesis using less.prems coalesced_Nil by (subst coalesce_loop.simps) fastforce
  next
    case (Cons c fs1)
    then have "c \<in> dom blk" using I(4) by auto
    then obtain sc where sc: "blk c = Some sc" by blast
    obtain hc where hc: "get_hdr c s = Some hc" "uh_size hc = sc" by (rule stored_hdr [OF I(2) sc])
    have c0: "c \<noteq> 0" using layout_block [OF I(1) sc] by simp
    have nx: "uh_next hc = hd (fs1 @ [0])" using I(5) hc(1) by (simp add: Cons chain_append)
    show ?thesis
    proof (cases fs1)
      case Nil
      then have "coalesce_loop c s = Some s" using c0 hc(1) nx by (subst coalesce_loop.simps) simp
      then show ?thesis using less.prems coalesced_single [of c blk s] sc unfolding Cons Nil by fastforce
    next
      case fs1: (Cons n r)
      then have "n \<in> dom blk" using I(4) Cons by auto
      then have n0: "n \<noteq> 0" using layout_block [OF I(1)] by fastforce
      show ?thesis
      proof (cases "block_end c hc = n")
        case True
        have inv: "heap_inv s blk (xs @ c # n # r)" using less.prems Cons fs1 by simp
        obtain hn s1 where m: "get_hdr n s = Some hn" "heap_inv s1 (merged c n blk) (xs @ c # r)"
          "headers_only {c, n} s s1" "c + 24 + sc = n" "map_option uh_magic (get_hdr n s1) = Some 0"
          "do { s \<leftarrow> put_hdr c (hc\<lparr>uh_size := (uh_size hc + (24 + uh_size hn)) mod 2 ^ 64, uh_next := uh_next hn\<rparr>) s;
             n' \<leftarrow> get_hdr n s; put_hdr n (n'\<lparr>uh_magic := 0\<rparr>) s } = Some s1"
          using merge_step [OF inv hc(1) True] sc by auto
        have step: "coalesce_loop c s = coalesce_loop c s1"
          using m(6) True hc(1) m(1) nx fs1 c0 n0
          by (subst coalesce_loop.simps) (auto simp: Option.bind_eq_Some_conv)
        show ?thesis
          using less.hyps [of "c # r", OF _ m(2)] coalesced_merge [OF inv sc m(4,3,5)] step unfolding Cons fs1 by fastforce
      next
        case False
        have inv: "heap_inv s blk ((xs @ [c]) @ n # r)" using less.prems Cons fs1 by simp
        have step: "coalesce_loop c s = coalesce_loop n s"
          using False hc(1) nx fs1 c0 n0 by (subst coalesce_loop.simps) simp
        have ne: "c \<notin> set (n # r)" "c + 24 + sc \<noteq> n"
          using False block_end_eq [OF I(1), of c hc] sc hc(2) sorted_wrt_less_distinct [OF I(3)] by (simp_all add: Cons fs1)
        show ?thesis
          using less.hyps [of "n # r", OF _ inv] coalesced_skip [of blk c, OF sc ne(1) n0 ne(2)] step unfolding Cons fs1 by fastforce
      qed
    qed
  qed
qed

lemma coalesce_returns:
  "heap_inv s blk (xs @ fs) \<Longrightarrow>
   \<exists>s' blk' fs'. coalesce_loop (hd (fs @ [0])) s = Some s' \<and> heap_inv s' blk' (xs @ fs') \<and>
     headers_only (set fs) s s' \<and> (\<forall>a. a \<notin> set fs \<longrightarrow> blk' a = blk a) \<and> set fs' = set fs \<inter> dom blk' \<and>
     extent blk' (set fs') = extent blk (set fs) \<and> apart blk' fs' \<and> hd (fs' @ [0]) = hd (fs @ [0]) \<and>
     (\<forall>a\<in>set fs - dom blk'. map_option uh_magic (get_hdr a s') = Some 0) \<and> within blk (set fs) blk' (set fs')"
  using coalesce_loop_returns unfolding coalesced_def by blast

section \<open>Splitting\<close>

lemma uheap_align_eq: "uheap_align n = (n + 15) mod 2 ^ 64 div 16 * 16"
proof -
  have m: "15 = (mask 4 :: u64)" by (simp add: mask_eq_exp_minus_1)
  have "unat (x AND NOT 15) = push_bit 4 (drop_bit 4 (unat x))" for x :: u64
    unfolding m by (rule bit_eqI) (auto simp: bit_simps dest: bit_imp_le_length)
  moreover have "unat (of_nat n + 15 :: u64) = (n + 15) mod 2 ^ 64"
    using unat_of_nat [of "n + 15", where 'a = 64] by (simp add: take_bit_nat_def)
  ultimately show ?thesis by (simp add: uheap_align_def push_bit_eq_mult drop_bit_eq_div)
qed

lemma uheap_align_bounds:
  assumes "n + 15 < 2 ^ 64"
  shows "n \<le> uheap_align n" "uheap_align n < n + 16" "uheap_align n mod 16 = 0"
proof -
  have e: "uheap_align n = (n + 15) div 16 * 16" using assms by (simp add: uheap_align_eq)
  have "(n + 15) div 16 * 16 + (n + 15) mod 16 = n + 15" by simp
  moreover have "(n + 15) mod 16 < 16" by simp
  ultimately show "n \<le> uheap_align n" "uheap_align n < n + 16" unfolding e by linarith+
  show "uheap_align n mod 16 = 0" unfolding e by simp
qed

text \<open>A block of which the first \<open>need\<close> bytes remain, and the block behind them.\<close>

definition halved :: "nat \<Rightarrow> nat \<Rightarrow> (nat \<Rightarrow> nat option) \<Rightarrow> nat \<Rightarrow> nat option" where
  "halved a need blk = blk(a \<mapsto> need, a + 24 + need \<mapsto> the (blk a) - need - 24)"

lemma layout_halved:
  assumes lay: "layout blk" and a: "blk a = Some sz" and sz: "need + 24 \<le> sz"
  shows "layout (halved a need blk)" "a + 24 + need \<notin> dom blk"
proof -
  note L = layout_block [OF lay] layout_apart [OF lay]
  let ?n = "a + 24 + need"
  show new: "?n \<notin> dom blk"
  proof
    assume n: "?n \<in> dom blk"
    have "a + 24 + sz \<le> ?n" using L(2) [OF a n] by simp
    with sz show False by simp
  qed
  have pos: "0 < b \<and> b + 24 + sb < 2 ^ 63" if "halved a need blk b = Some sb" for b sb
    using that L(1) [of b sb] L(1) [OF a] a sz by (auto simp: halved_def split: if_splits)
  have ap: "b + 24 + sb \<le> c" if h: "halved a need blk b = Some sb" "c \<in> dom (halved a need blk)" "b < c" for b sb c
  proof -
    consider (new) "c = ?n" | (old) "c \<noteq> ?n" "c \<in> dom blk" using h(2) a by (auto simp: halved_def split: if_splits)
    then show ?thesis
    proof cases
      case new
      show ?thesis
      proof (cases "b = a")
        case True
        then show ?thesis using h(1) new by (simp add: halved_def)
      next
        case False
        then have b: "blk b = Some sb" using h new by (simp add: halved_def)
        have "\<not> a < b"
        proof
          assume "a < b"
          then have "a + 24 + sz \<le> b" using L(2) [OF a, of b] b by blast
          with h(3) new sz show False by simp
        qed
        then have "b + 24 + sb \<le> a" using L(2) [OF b, of a] a False by auto
        then show ?thesis using new by simp
      qed
    next
      case old
      show ?thesis
      proof (cases "b = a \<or> b = ?n")
        case True
        then have "a < c" using h(3) by auto
        then have "a + 24 + sz \<le> c" using L(2) [OF a old(2)] by blast
        then show ?thesis using True h(1) a sz by (auto simp: halved_def split: if_splits)
      next
        case False
        then have "blk b = Some sb" using h(1) by (simp add: halved_def)
        then show ?thesis using L(2) old(2) h(3) by blast
      qed
    qed
  qed
  show "layout (halved a need blk)" unfolding layout_def using pos ap by blast
qed

text \<open>The two headers that a split writes, before the new block goes to the free list.\<close>

lemma halved_stored:
  assumes inv: "heap_inv s blk fs" and a: "blk a = Some sz" "a \<notin> set fs" and need: "need + 56 \<le> sz"
    and h: "get_hdr a s = Some h" "uh_magic h = UHEAP_MAGIC" "uh_free h = 0" "uh_next h < 2 ^ 64"
    and hn: "hn = \<lparr>uh_size = sz - need - 24, uh_next = 0, uh_magic = UHEAP_MAGIC, uh_free = 1\<rparr>"
    and s1: "s1 = upd_hdr (a + 24 + need) hn s" and s2: "s2 = upd_hdr a (h\<lparr>uh_size := need\<rparr>) s1"
  shows "stored s2 (halved a need blk) (insert (a + 24 + need) (set fs))" "get_hdr a s1 = Some h"
    "\<And>b. b \<in> dom blk \<Longrightarrow> b \<noteq> a \<Longrightarrow> get_hdr b s2 = get_hdr b s"
    "mapped s (a + 24 + need) 24" "mapped s a 24"
proof -
  let ?n = "a + 24 + need" and ?blk = "halved a need blk"
  note I = heap_invD [OF inv]
  have lay: "layout ?blk" "?n \<notin> dom blk" using layout_halved [OF I(1) a(1), of need] need by simp_all
  have lt: "a + 24 + sz < 2 ^ 63" using layout_block [OF I(1) a(1)] by simp
  have dom: "dom ?blk = insert ?n (dom blk)" using a(1) by (auto simp: halved_def)
  have d: "a \<in> dom ?blk" "?n \<in> dom ?blk" by (simp_all add: halved_def)
  have ma: "mapped s a (24 + sz)" using I(2) a(1) by (simp add: stored_def)
  show m: "mapped s ?n 24" "mapped s a 24" by (rule mapped_mono [OF ma]; use need in simp)+
  have map2: "mapped s2 b k = mapped s b k" for b k using m by (simp add: s1 s2)
  have f: "fits hn" "fits (h\<lparr>uh_size := need\<rparr>)" using lt h(4) need by (simp_all add: fits_def hn)
  show "get_hdr a s1 = Some h" using get_upd_block [OF lay(1) d(2,1), of hn s] h(1) by (simp add: s1)
  have ga: "get_hdr a s2 = Some (h\<lparr>uh_size := need\<rparr>)" using f(2) by (simp add: s2 get_upd_same)
  have gn: "get_hdr ?n s2 = Some hn" using get_upd_block [OF lay(1) d(1,2), of _ s1] f(1) by (simp add: s2 s1 get_upd_same)
  show go: "get_hdr b s2 = get_hdr b s" if "b \<in> dom blk" "b \<noteq> a" for b
  proof -
    have "b \<in> dom ?blk" "b \<noteq> ?n" using that(1) dom lay(2) by auto
    then show ?thesis
      using get_upd_block [OF lay(1) d(1), of b _ s1] get_upd_block [OF lay(1) d(2), of b _ s] that(2) by (simp add: s1 s2)
  qed
  show "stored s2 ?blk (insert ?n (set fs))"
    unfolding stored_def
  proof (intro allI impI)
    fix b sb assume b: "?blk b = Some sb"
    consider "b = ?n" "sb = sz - need - 24" | "b = a" "sb = need" | (old) "b \<noteq> ?n" "b \<noteq> a" "blk b = Some sb"
      using b a(1) by (auto simp: halved_def split: if_splits)
    then show "mapped s2 b (24 + sb) \<and> (\<exists>h'. get_hdr b s2 = Some h' \<and> uh_size h' = sb \<and>
        uh_magic h' = UHEAP_MAGIC \<and> uh_free h' = (if b \<in> insert ?n (set fs) then 1 else 0))"
    proof cases
      case 1
      have "mapped s ?n (24 + (sz - need - 24))" by (rule mapped_mono [OF ma]) (use need in simp_all)
      then show ?thesis using gn by (simp add: 1 map2 hn)
    next
      case 2
      have "mapped s a (24 + need)" by (rule mapped_mono [OF ma]) (use need in simp_all)
      then show ?thesis using ga h a(2) by (simp add: 2 map2)
    next
      case old
      then have "get_hdr b s2 = get_hdr b s" using go by blast
      then show ?thesis using I(2) old by (simp add: stored_def map2)
    qed
  qed
qed

lemma split_returns:
  assumes inv: "heap_inv s blk fs" and a: "blk a = Some sz" "a \<notin> set fs"
  shows "\<exists>s' blk' fs'. uheap_split_if_needed a need s = Some s' \<and> heap_inv s' blk' fs' \<and>
    headers_only (dom blk') s s' \<and>
    (if need + 56 \<le> sz then blk' = halved a need blk \<and> fs' = insert_at (a + 24 + need) fs else s' = s \<and> blk' = blk \<and> fs' = fs)"
proof -
  note I = heap_invD [OF inv]
  obtain h where h: "get_hdr a s = Some h" "uh_size h = sz" "uh_magic h = UHEAP_MAGIC" "uh_free h = 0" "uh_next h < 2 ^ 64"
    by (rule stored_hdr [OF I(2) a(1)]) (use a(2) that in simp)
  show ?thesis
  proof (cases "need + 56 \<le> sz")
    case False
    then have "uheap_split_if_needed a need s = Some s" using h(1,2) by (auto simp: uheap_split_if_needed_def Let_def)
    with False inv show ?thesis by auto
  next
    case True
    let ?n = "a + 24 + need" and ?blk = "halved a need blk"
    let ?hn = "\<lparr>uh_size = sz - need - 24, uh_next = 0, uh_magic = UHEAP_MAGIC, uh_free = 1\<rparr>"
    have lay: "layout ?blk" "?n \<notin> dom blk" using layout_halved [OF I(1) a(1), of need] True by simp_all
    have lt: "a + 24 + sz < 2 ^ 63" using layout_block [OF I(1) a(1)] by simp
    define s1 where "s1 = upd_hdr ?n ?hn s"
    define s2 where "s2 = upd_hdr a (h\<lparr>uh_size := need\<rparr>) s1"
    note H = halved_stored [OF inv a True h(1,3,4,5) refl s1_def s2_def]
    have d: "a \<in> dom ?blk" "?n \<in> dom ?blk" by (simp_all add: halved_def)
    have nfs: "?n \<notin> set fs" "insert ?n (set fs) - {?n} = set fs" using lay(2) I(4) by auto
    have sub: "set fs \<subseteq> dom ?blk" using I(4) by (auto simp: halved_def)
    have "links s2 fs 0 = links s fs 0" by (rule links_cong, rule H(3)) (use I(4) a(2) in auto)
    then have ch: "chain s2 fs 0" using I(5) by (simp add: chain_def s1_def s2_def)
    obtain s' where s': "uheap_insert_free ?n s2 = Some s'" "heap_inv s' ?blk (insert_at ?n fs)"
      "headers_only (dom ?blk) s2 s'"
      using insert_free_returns [OF lay(1) H(1) nfs(2) d(2) nfs(1) I(3) sub ch] by blast
    have "uheap_split_if_needed a need s = Some s'"
      using True h(1,2) H(2,4,5) lt s'(1)
      by (simp add: uheap_split_if_needed_def Let_def put_hdr_mapped flip: s1_def) (simp add: s1_def s2_def put_hdr_mapped)
    moreover have "headers_only (dom ?blk) s s'"
      using headers_only_upd [OF d(2) H(4), of ?hn] headers_only_upd [OF d(1), of s1 "h\<lparr>uh_size := need\<rparr>"] H(4,5) s'(3)
      by (auto simp: s1_def s2_def intro: headers_only_trans)
    ultimately show ?thesis using s'(2) True by auto
  qed
qed

section \<open>What the caller sees\<close>

text \<open>The blocks in use; and the bytes of their payloads are what they were.\<close>

definition used :: "(nat \<Rightarrow> nat option) \<Rightarrow> nat list \<Rightarrow> nat \<Rightarrow> nat option" where
  "used blk fs a = (if a \<in> set fs then None else blk a)"

definition same_data :: "(nat \<Rightarrow> nat option) \<Rightarrow> 'w uheap \<Rightarrow> 'w uheap \<Rightarrow> bool" where
  "same_data us s s' \<longleftrightarrow> (\<forall>a sz x. us a = Some sz \<longrightarrow> a + 24 \<le> x \<longrightarrow> x < a + 24 + sz \<longrightarrow> u_ram s' x = u_ram s x)"

lemma same_data_refl [simp]: "same_data us s s"
  by (simp add: same_data_def)

lemma same_data_trans: "same_data us s s' \<Longrightarrow> same_data us s' s'' \<Longrightarrow> same_data us s s''"
  by (simp add: same_data_def)

lemma same_data_mono: "same_data us s s' \<Longrightarrow> us' \<subseteq>\<^sub>m us \<Longrightarrow> same_data us' s s'"
  unfolding same_data_def map_le_def by (metis domI)

lemma used_le: "used blk fs \<subseteq>\<^sub>m blk"
  by (auto simp: used_def map_le_def)

lemma headers_data:
  assumes lay: "layout blk" and h: "headers_only (dom blk) s s'" and us: "us \<subseteq>\<^sub>m blk"
  shows "same_data us s s'"
  unfolding same_data_def
proof (intro allI impI)
  fix a sz x assume x: "us a = Some sz" "a + 24 \<le> x" "x < a + 24 + sz"
  then have a: "blk a = Some sz" using us unfolding map_le_def by (metis domI)
  have "\<not> (b \<le> x \<and> x < b + 24)" if "b \<in> dom blk" for b
    using layout_apart [OF lay a that] layout_apart [OF lay _ _, of b _ a] that a x by (cases a b rule: linorder_cases) force+
  then show "u_ram s' x = u_ram s x" using h unfolding headers_only_def by blast
qed

text \<open>Splitting a block in use gives back what is too much of it.\<close>

lemma carve_returns:
  assumes inv: "heap_inv s blk fs" and a: "blk a = Some sz" "a \<notin> set fs"
  shows "\<exists>s' blk' fs' n. uheap_split_if_needed a need s = Some s' \<and> heap_inv s' blk' fs' \<and>
    used blk' fs' = (used blk fs)(a \<mapsto> n) \<and> n \<le> sz \<and> (need \<le> sz \<longrightarrow> need \<le> n \<and> n < need + 56) \<and>
    same_data ((used blk fs)(a \<mapsto> n)) s s'"
proof -
  obtain s' blk' fs' where r: "uheap_split_if_needed a need s = Some s'" "heap_inv s' blk' fs'"
    "headers_only (dom blk') s s'"
    "if need + 56 \<le> sz then blk' = halved a need blk \<and> fs' = insert_at (a + 24 + need) fs
     else s' = s \<and> blk' = blk \<and> fs' = fs"
    using split_returns [OF inv a] by blast
  let ?n = "if need + 56 \<le> sz then need else sz"
  have u: "used blk' fs' = (used blk fs)(a \<mapsto> ?n)"
  proof (cases "need + 56 \<le> sz")
    case True
    have "a + 24 + need \<notin> dom blk" using layout_halved(2) [OF heap_invD(1) [OF inv] a(1)] True by simp
    with True r(4) a(2) heap_invD(4) [OF inv] show ?thesis by (auto simp: used_def halved_def fun_eq_iff domIff)
  next
    case False
    then show ?thesis using r(4) a by (auto simp: used_def)
  qed
  have "same_data (used blk' fs') s s'" by (rule headers_data [OF heap_invD(1) [OF r(2)] r(3) used_le])
  with r(1,2) u show ?thesis by (intro exI [of _ s'] exI [of _ blk'] exI [of _ fs'] exI [of _ ?n]) auto
qed

section \<open>Taking a block from the list\<close>

lemma unlink_props:
  assumes inv: "heap_inv s blk (xs @ c # ys)" and s1: "s1 = set_pp xs (hd (ys @ [0])) s"
  shows "stored s1 blk (set (xs @ c # ys))" "chain s1 (xs @ ys) 0" "headers_only (dom blk) s s1"
    "get_hdr c s1 = get_hdr c s"
proof -
  note I = heap_invD [OF inv]
  have dist: "distinct (xs @ c # ys)" by (rule sorted_wrt_less_distinct [OF I(3)])
  have sub: "set xs \<subseteq> dom blk" "set ys \<subseteq> dom blk" "c \<in> dom blk" using I(4) by auto
  have v: "hd (ys @ [0]) < 2 ^ 64" using sub(2) layout_block [OF I(1)] by (cases ys) fastforce+
  note P = set_pp_props [OF I(1,2) sub(1) v, folded s1]
  show "stored s1 blk (set (xs @ c # ys))" "headers_only (dom blk) s s1" by (rule P(1), rule P(2))
  show "get_hdr c s1 = get_hdr c s" by (rule P(3)) (use sub dist in auto)
  have ch: "chain s xs c" "links s ys 0" using I(5) by (simp_all add: chain_append)
  have "chain s1 xs (hd (ys @ [0]))" unfolding s1 by (rule set_pp_chain [OF I(1,2) sub(1) v ch(1)]) (use dist in simp)
  moreover have "links s1 ys 0 = links s ys 0" by (rule links_cong, rule P(3)) (use sub dist in auto)
  ultimately show "chain s1 (xs @ ys) 0" using ch(2) by (simp add: chain_append)
qed

lemma take_inv:
  assumes inv: "heap_inv s blk (xs @ c # ys)" and s1: "s1 = set_pp xs (hd (ys @ [0])) s" and h: "get_hdr c s = Some h"
    and s2: "s2 = upd_hdr c (h\<lparr>uh_next := 0, uh_free := 0\<rparr>) s1"
  shows "heap_inv s2 blk (xs @ ys)" "headers_only (dom blk) s s2"
proof -
  note I = heap_invD [OF inv] and U = unlink_props [OF inv s1]
  have c: "c \<in> dom blk" "c \<notin> set (xs @ ys)" "set (xs @ ys) \<subseteq> dom blk" "sorted_wrt (<) (xs @ ys)"
    using I(3,4) sorted_wrt_less_distinct [OF I(3)] by (auto simp: sorted_wrt_append)
  then obtain sz where sz: "blk c = Some sz" by blast
  then have h': "uh_size h = sz" "uh_magic h = UHEAP_MAGIC"
    using stored_hdr [OF I(2) sz] h by (metis option.inject)+
  have "stored s2 blk (set (xs @ ys))"
    unfolding s2 by (rule stored_upd [OF I(1) U(1)]) (use sz h' c(2) in auto)
  moreover have "chain s2 (xs @ ys) 0"
    using U(2) links_upd [OF I(1) c(1,3,2), of _ s1] by (simp add: chain_def s2)
  ultimately show "heap_inv s2 blk (xs @ ys)" using I(1) c by (simp add: heap_inv_def)
  show "headers_only (dom blk) s s2"
    using headers_only_upd [OF c(1) stored_mapped [OF U(1) c(1)]] U(3) unfolding s2 by (blast intro: headers_only_trans)
qed

text \<open>What an allocation promises: a block with room and little more, and the others as they were.\<close>

definition alloc_post ::
  "(nat \<Rightarrow> nat option) \<Rightarrow> nat \<Rightarrow> nat \<Rightarrow> 'w uheap \<Rightarrow> 'w uheap \<Rightarrow> bool" where
  "alloc_post us need p s s' \<longleftrightarrow> (\<exists>a n blk' fs'. p = a + 24 \<and> us a = None \<and> need \<le> n \<and> n < need + 56 \<and>
     heap_inv s' blk' fs' \<and> used blk' fs' = us(a \<mapsto> n) \<and> same_data us s s')"

lemma carve_alloc:
  assumes inv: "heap_inv s1 blk fs" and a: "blk a = Some sz" "a \<notin> set fs" "need \<le> sz"
    and us: "us a = None" "used blk fs = us(a \<mapsto> sz)" and same: "same_data us s s1"
  shows "\<exists>s'. uheap_split_if_needed a need s1 = Some s' \<and> alloc_post us need (a + 24) s s'"
proof -
  obtain s' blk' fs' n where r: "uheap_split_if_needed a need s1 = Some s'" "heap_inv s' blk' fs'"
    "used blk' fs' = us(a \<mapsto> n)" "need \<le> n" "n < need + 56" "same_data (us(a \<mapsto> n)) s1 s'"
    using carve_returns [OF inv a(1,2), of need] a(3) us(2) by auto
  have "same_data us s1 s'" using r(6) by (rule same_data_mono) (use us(1) in \<open>auto simp: map_le_def\<close>)
  with r us(1) same show ?thesis unfolding alloc_post_def by (metis same_data_trans)
qed

lemma first_fit_returns:
  "heap_inv s blk (xs @ ys) \<Longrightarrow> \<exists>r s'. first_fit (if xs = [] then 0 else last xs) (hd (ys @ [0])) need s = Some (r, s') \<and>
     (case r of None \<Rightarrow> s' = s \<and> (\<forall>a\<in>set ys. the (blk a) < need)
      | Some p \<Rightarrow> alloc_post (used blk (xs @ ys)) need p s s')"
proof (induction ys arbitrary: xs)
  case Nil
  then show ?case by (subst first_fit.simps) simp
next
  case (Cons c ys)
  note I = heap_invD [OF Cons.prems]
  have c: "c \<in> dom blk" and dist: "distinct (xs @ c # ys)" using I(4) sorted_wrt_less_distinct [OF I(3)] by auto
  then obtain sz where sz: "blk c = Some sz" by blast
  obtain h where h: "get_hdr c s = Some h" "uh_size h = sz" "uh_magic h = UHEAP_MAGIC" "uh_free h = 1"
    by (rule stored_hdr [OF I(2) sz]) (use that in simp)
  have nx: "uh_next h = hd (ys @ [0])" using I(5) h(1) by (simp add: chain_append)
  have c0: "c \<noteq> 0" using layout_block [OF I(1) sz] by simp
  show ?case
  proof (cases "need \<le> sz")
    case False
    have e: "(xs @ [c]) @ ys = xs @ c # ys" by simp
    have "heap_inv s blk ((xs @ [c]) @ ys)" using Cons.prems by simp
    from Cons.IH [OF this, unfolded e] obtain r s' where r: "first_fit c (hd (ys @ [0])) need s = Some (r, s')"
      "case r of None \<Rightarrow> s' = s \<and> (\<forall>a\<in>set ys. the (blk a) < need) | Some p \<Rightarrow> alloc_post (used blk (xs @ c # ys)) need p s s'"
      by auto
    have "first_fit (if xs = [] then 0 else last xs) c need s = Some (r, s')"
      using False h c0 r(1) nx by (subst first_fit.simps) simp
    moreover have "case r of None \<Rightarrow> s' = s \<and> (\<forall>a\<in>set (c # ys). the (blk a) < need)
        | Some p \<Rightarrow> alloc_post (used blk (xs @ c # ys)) need p s s'"
      using r(2) False sz by (cases r) simp_all
    ultimately show ?thesis by auto
  next
    case True
    define s1 where "s1 = set_pp xs (hd (ys @ [0])) s"
    define s2 where "s2 = upd_hdr c (h\<lparr>uh_next := 0, uh_free := 0\<rparr>) s1"
    note U = unlink_props [OF Cons.prems s1_def] and T = take_inv [OF Cons.prems s1_def h(1) s2_def]
    have sub: "set xs \<subseteq> dom blk" using I(4) by auto
    have pp: "store_pp (pp_of xs) (uh_next h) s = Some s1" unfolding nx s1_def by (rule store_pp_of [OF I(2) sub])
    have us: "used blk (xs @ c # ys) c = None" "used blk (xs @ ys) = (used blk (xs @ c # ys))(c \<mapsto> sz)"
      using sz dist by (auto simp: used_def fun_eq_iff)
    have "same_data (used blk (xs @ c # ys)) s s2" by (rule headers_data [OF I(1) T(2) used_le])
    moreover have "c \<notin> set (xs @ ys)" using dist by simp
    ultimately obtain s' where s': "uheap_split_if_needed c need s2 = Some s'"
      "alloc_post (used blk (xs @ c # ys)) need (c + 24) s s'"
      using carve_alloc [OF T(1) sz _ True us] by blast
    have "first_fit (if xs = [] then 0 else last xs) c need s = Some (Some (c + 24), s')"
    proof (cases "xs = []")
      case True
      then have "s1 = s\<lparr>u_list := uh_next h\<rparr>" using pp by (simp add: store_pp_def pp_of_def)
      then show ?thesis using \<open>need \<le> sz\<close> True h c0 U(4) s'(1) stored_mapped [OF U(1) c]
        by (subst first_fit.simps) (simp add: put_hdr_mapped s2_def)
    next
      case False
      then have "last xs \<noteq> 0" using sub layout_block [OF I(1), of "last xs"] last_in_set [of xs] by fastforce
      moreover from False pp obtain p where "get_hdr (last xs) s = Some p"
        "put_hdr (last xs) (p\<lparr>uh_next := uh_next h\<rparr>) s = Some s1"
        by (auto simp: store_pp_def pp_of_def Option.bind_eq_Some_conv)
      ultimately show ?thesis using \<open>need \<le> sz\<close> False h c0 U(4) s'(1) stored_mapped [OF U(1) c]
        by (subst first_fit.simps) (simp add: put_hdr_mapped s2_def)
    qed
    with s'(2) show ?thesis by auto
  qed
qed

end
