(* ===== verification/Heap_Ops.thy ===== *)
theory Heap_Ops
  imports Heap_Blocks
begin

text \<open>
  \<open>malloc\<close>, \<open>free\<close>, \<open>calloc\<close> and \<open>realloc\<close> against what their callers know: \<open>heap_ok s us\<close>, where \<open>us\<close> gives the
  size of every payload in use. On a kernel whose \<open>sbrk\<close> adds fresh memory every operation returns, hands out
  payloads that do not meet and leaves the bytes of the others alone.
\<close>

section \<open>Memory from the kernel\<close>

text \<open>
  What is relied on of \<open>sbrk\<close>: a request for more keeps what is mapped, and where it succeeds, with a positive
  address, it adds that many bytes that were not mapped before.
\<close>

definition sbrk_ok :: "'w sbrk \<Rightarrow> bool" where
  "sbrk_ok K \<longleftrightarrow> (\<forall>inc m w r m' w'. 0 < inc \<longrightarrow> K inc m w = (r, m', w') \<longrightarrow>
     (\<forall>x\<in>dom m. m' x = m x) \<and>
     (0 < r \<longrightarrow> r + inc < 2 ^ 63 \<and> {nat r..<nat (r + inc)} \<subseteq> dom m' \<and> {nat r..<nat (r + inc)} \<inter> dom m = {}))"

definition grows :: "'w uheap \<Rightarrow> 'w uheap \<Rightarrow> bool" where
  "grows s s' \<longleftrightarrow> u_list s' = u_list s \<and> (\<forall>x\<in>dom (u_ram s). u_ram s' x = u_ram s x)"

lemma get_hdr_grows: "grows s s' \<Longrightarrow> mapped s a 24 \<Longrightarrow> get_hdr a s' = get_hdr a s"
proof (rule get_hdr_cong)
  fix x assume "grows s s'" "mapped s a 24" "a \<le> x" "x < a + 24"
  moreover from this have "x \<in> dom (u_ram s)" unfolding mapped_def by (meson atLeastLessThan_iff subsetD)
  ultimately show "u_ram s' x = u_ram s x" unfolding grows_def by blast
qed

lemma mapped_grows: "grows s s' \<Longrightarrow> mapped s a n \<Longrightarrow> mapped s' a n"
  unfolding mapped_def
proof
  fix x assume "grows s s'" "{a..<a + n} \<subseteq> dom (u_ram s)" "x \<in> {a..<a + n}"
  then have "x \<in> dom (u_ram s)" "u_ram s' x = u_ram s x" unfolding grows_def by blast+
  then show "x \<in> dom (u_ram s')" by (simp add: domIff)
qed

lemma stored_grows: "grows s s' \<Longrightarrow> stored s blk F \<Longrightarrow> stored s' blk F"
proof -
  assume g: "grows s s'" and st: "stored s blk F"
  have "get_hdr a s' = get_hdr a s" if "blk a = Some sz" for a sz
    using get_hdr_grows [OF g stored_mapped [OF st]] that by blast
  then show ?thesis using st mapped_grows [OF g] by (simp add: stored_def)
qed

lemma heap_inv_grows:
  assumes "grows s s'" "heap_inv s blk fs"
  shows "heap_inv s' blk fs"
proof -
  note I = heap_invD [OF assms(2)]
  have "links s' fs 0 = links s fs 0"
    by (rule links_cong, rule get_hdr_grows [OF assms(1)], rule stored_mapped [OF I(2)]) (use I(4) in blast)
  then show ?thesis using I stored_grows [OF assms(1)] assms(1) by (simp add: heap_inv_def chain_def grows_def)
qed

lemma same_data_grows: "grows s s' \<Longrightarrow> stored s blk F \<Longrightarrow> us \<subseteq>\<^sub>m blk \<Longrightarrow> same_data us s s'"
proof -
  assume g: "grows s s'" and st: "stored s blk F" and us: "us \<subseteq>\<^sub>m blk"
  show ?thesis
    unfolding same_data_def
  proof (intro allI impI)
    fix a sz x assume x: "us a = Some sz" "a + 24 \<le> x" "x < a + 24 + sz"
    then have "blk a = Some sz" using us unfolding map_le_def by (metis domI)
    then have "mapped s a (24 + sz)" using st by (simp add: stored_def)
    then have "x \<in> dom (u_ram s)" using x unfolding mapped_def by (simp add: subset_iff)
    then show "u_ram s' x = u_ram s x" using g unfolding grows_def by blast
  qed
qed

text \<open>A block of fresh memory joins the others.\<close>

lemma layout_fresh:
  assumes lay: "layout blk" and a: "0 < a" "a + 24 + sz < 2 ^ 63"
    and off: "\<And>b sb. blk b = Some sb \<Longrightarrow> b + 24 + sb \<le> a \<or> a + 24 + sz \<le> b"
  shows "layout (blk(a \<mapsto> sz))"
  unfolding layout_def
proof (intro conjI allI impI)
  fix b sb assume "(blk(a \<mapsto> sz)) b = Some sb"
  then show "0 < b" "b + 24 + sb < 2 ^ 63"
    using layout_block [OF lay, of b sb] a by (auto split: if_splits)
next
  fix b sb c assume b: "(blk(a \<mapsto> sz)) b = Some sb" "c \<in> dom (blk(a \<mapsto> sz))" "b < c"
  consider "b = a" "c \<in> dom blk" | "c = a" "blk b = Some sb" | "blk b = Some sb" "c \<in> dom blk"
    using b by (auto split: if_splits)
  then show "b + 24 + sb \<le> c"
  proof cases
    case 1
    then obtain sc where "blk c = Some sc" by blast
    from off [OF this] show ?thesis using 1 b by simp
  next
    case 2
    then show ?thesis using off [OF 2(2)] b(3) by simp
  next
    case 3
    then show ?thesis using layout_apart [OF lay] b(3) by blast
  qed
qed

lemma stored_fresh:
  assumes st: "stored s blk F" and g: "grows s s1" and lay: "layout (blk(a \<mapsto> sz))" and new: "a \<notin> dom blk" "a \<notin> F"
    and m: "mapped s1 a (24 + sz)" and h: "uh_size h = sz" "uh_magic h = UHEAP_MAGIC" "uh_free h = 0" "fits h"
  shows "stored (upd_hdr a h s1) (blk(a \<mapsto> sz)) F" "\<And>b. b \<in> dom blk \<Longrightarrow> get_hdr b (upd_hdr a h s1) = get_hdr b s"
proof -
  have m24: "mapped s1 a 24" by (rule mapped_mono [OF m]) simp_all
  have old: "get_hdr b (upd_hdr a h s1) = get_hdr b s" if "b \<in> dom blk" for b
  proof -
    have "get_hdr b (upd_hdr a h s1) = get_hdr b s1"
      by (rule get_upd_block [OF lay]) (use that new in auto)
    also have "\<dots> = get_hdr b s" by (rule get_hdr_grows [OF g stored_mapped [OF st that]])
    finally show ?thesis .
  qed
  then show "\<And>b. b \<in> dom blk \<Longrightarrow> get_hdr b (upd_hdr a h s1) = get_hdr b s" .
  have ga: "get_hdr a (upd_hdr a h s1) = Some h" using h(4) by (rule get_upd_same)
  show "stored (upd_hdr a h s1) (blk(a \<mapsto> sz)) F"
    unfolding stored_def
  proof (intro allI impI)
    fix b sb assume b: "(blk(a \<mapsto> sz)) b = Some sb"
    show "mapped (upd_hdr a h s1) b (24 + sb) \<and> (\<exists>h'. get_hdr b (upd_hdr a h s1) = Some h' \<and> uh_size h' = sb \<and>
        uh_magic h' = UHEAP_MAGIC \<and> uh_free h' = (if b \<in> F then 1 else 0))"
    proof (cases "b = a")
      case True
      then show ?thesis using b ga h m m24 new by auto
    next
      case False
      then have "blk b = Some sb" using b by simp
      then have "get_hdr b (upd_hdr a h s1) = get_hdr b s" "mapped s b (24 + sb)" using old st by (auto simp: stored_def)
      then show ?thesis using st \<open>blk b = Some sb\<close> mapped_grows [OF g] m24 by (simp add: stored_def)
    qed
  qed
qed

lemma fresh_inv:
  assumes inv: "heap_inv s blk fs" and g: "grows s s1" and a: "0 < a" "a + 24 + sz < 2 ^ 63" "mapped s1 a (24 + sz)"
    and fresh: "{a..<a + 24 + sz} \<inter> dom (u_ram s) = {}"
    and h: "uh_size h = sz" "uh_magic h = UHEAP_MAGIC" "uh_free h = 0" "uh_next h < 2 ^ 64"
  shows "heap_inv (upd_hdr a h s1) (blk(a \<mapsto> sz)) fs" "a \<notin> dom blk" "same_data blk s (upd_hdr a h s1)"
proof -
  let ?s = "upd_hdr a h s1" and ?b = "blk(a \<mapsto> sz)"
  note I = heap_invD [OF inv]
  have off: "b + 24 + sb \<le> a \<or> a + 24 + sz \<le> b" if b: "blk b = Some sb" for b sb
  proof (rule ccontr)
    assume "\<not> ?thesis"
    then have "max a b \<in> {a..<a + 24 + sz} \<inter> {b..<b + (24 + sb)}" by auto
    moreover have "{b..<b + (24 + sb)} \<subseteq> dom (u_ram s)" using I(2) b by (auto simp: stored_def mapped_def)
    ultimately show False using fresh by blast
  qed
  show na: "a \<notin> dom blk"
  proof
    assume "a \<in> dom blk"
    then obtain sb where "blk a = Some sb" by blast
    from off [OF this] show False by simp
  qed
  have lay: "layout ?b" by (rule layout_fresh [OF I(1) a(1,2) off])
  have "fits h" using h a by (simp add: fits_def)
  note S = stored_fresh [OF I(2) g lay na _ a(3) h(1-3) this]
  have afs: "a \<notin> set fs" using na I(4) by blast
  have "links ?s fs 0 = links s fs 0" by (rule links_cong, rule S(2)) (use afs I(4) in auto)
  then have "chain ?s fs 0" using I(5) g by (simp add: chain_def grows_def)
  then show "heap_inv ?s ?b fs" using lay S(1) afs I(3,4) by (auto simp: heap_inv_def)
  have "mapped s1 a 24" by (rule mapped_mono [OF a(3)]) simp_all
  then have "same_data blk s1 ?s"
    by (intro headers_data [OF lay headers_only_upd]) (use na in \<open>auto simp: map_le_def domIff\<close>)
  moreover have "same_data blk s s1" using g I(2) by (rule same_data_grows) simp
  ultimately show "same_data blk s ?s" by (blast intro: same_data_trans)
qed

lemma request_returns:
  assumes inv: "heap_inv s blk fs" and K: "sbrk_ok K" and lt: "payload + 40 < 2 ^ 63"
  shows "\<exists>h s1. uheap_request_from_kernel K payload s = Some (h, s1) \<and>
    (if h = 0 then heap_inv s1 blk fs \<and> same_data blk s s1
     else \<exists>sz. payload \<le> sz \<and> h \<notin> dom blk \<and> heap_inv s1 (blk(h \<mapsto> sz)) fs \<and> same_data blk s s1)"
proof -
  let ?tot = "uheap_align (24 + payload)"
  have tot: "24 + payload \<le> ?tot" "?tot < 24 + payload + 16"
    by (rule uheap_align_bounds; use lt in simp)+
  have lt': "?tot < 2 ^ 63" using tot(2) lt by simp
  have si: "sint (of_nat ?tot :: u64) = int ?tot"
  proof -
    have "int ?tot < 2 ^ 63" using lt' by simp
    then show ?thesis by (simp add: signed_of_nat signed_take_bit_int_eq_self)
  qed
  obtain r m w where k: "K (int ?tot) (u_ram s) (u_os s) = (r, m, w)" by (cases "K (int ?tot) (u_ram s) (u_os s)") auto
  define s1 where "s1 = s\<lparr>u_ram := m, u_os := w\<rparr>"
  have sb: "sbrk K (sint (of_nat ?tot :: u64)) s = (r, s1)" unfolding si by (simp add: sbrk_def k s1_def)
  have pos: "0 < int ?tot" using tot(1) by simp
  have S: "\<forall>x\<in>dom (u_ram s). m x = u_ram s x"
    "0 < r \<Longrightarrow> r + int ?tot < 2 ^ 63 \<and> {nat r..<nat (r + int ?tot)} \<subseteq> dom m \<and> {nat r..<nat (r + int ?tot)} \<inter> dom (u_ram s) = {}"
    using K pos k unfolding sbrk_ok_def by blast+
  have g: "grows s s1" using S(1) by (simp add: grows_def s1_def)
  show ?thesis
  proof (cases "0 < r")
    case False
    then have "uheap_request_from_kernel K payload s = Some (0, s1)"
      using lt tot sb by (simp add: uheap_request_from_kernel_def Let_def)
    moreover have "same_data blk s s1" using g heap_invD(2) [OF inv] by (rule same_data_grows) simp
    ultimately show ?thesis using heap_inv_grows [OF g inv] by auto
  next
    case True
    define a sz where "a = nat r" and "sz = ?tot - 24"
    have e: "nat (r + int ?tot) = a + ?tot" "?tot = 24 + sz" using True tot(1) by (simp_all add: a_def sz_def nat_add_distrib)
    have ra: "r = int a" using True by (simp add: a_def)
    have "int (a + 24 + sz) < int (2 ^ 63)" using S(2) [OF True] unfolding ra e(2) by simp
    then have lt_a: "a + 24 + sz < 2 ^ 63" by (simp only: of_nat_less_iff)
    have "{a..<a + ?tot} \<subseteq> dom m" "{a..<a + ?tot} \<inter> dom (u_ram s) = {}"
      using S(2) [OF True] unfolding e(1) unfolding a_def [symmetric] by blast+
    then have a: "0 < a" "a + 24 + sz < 2 ^ 63" "mapped s1 a (24 + sz)" "{a..<a + 24 + sz} \<inter> dom (u_ram s) = {}"
      using True lt_a unfolding e(2) by (simp_all add: mapped_def s1_def a_def add.assoc)
    let ?h = "\<lparr>uh_size = sz, uh_next = 0, uh_magic = UHEAP_MAGIC, uh_free = 0\<rparr>"
    have f: "heap_inv (upd_hdr a ?h s1) (blk(a \<mapsto> sz)) fs" "a \<notin> dom blk" "same_data blk s (upd_hdr a ?h s1)"
      by (rule fresh_inv [OF inv g a, of ?h]; simp)+
    have "mapped s1 a 24" by (rule mapped_mono [OF a(3)]) simp_all
    then have "uheap_request_from_kernel K payload s = Some (a, upd_hdr a ?h s1)"
      using lt tot sb True by (simp add: uheap_request_from_kernel_def Let_def put_hdr_mapped a_def sz_def)
    moreover have "payload \<le> sz" using tot(1) by (simp add: sz_def)
    ultimately show ?thesis using f a(1) by (intro exI [of _ a] exI [of _ "upd_hdr a ?h s1"]) auto
  qed
qed

section \<open>The operations\<close>

lemma malloc_returns:
  assumes inv: "heap_inv s blk fs" and K: "sbrk_ok K" and sz: "0 < sz" "sz \<le> 2 ^ 62"
  shows "\<exists>p s'. malloc K sz s = Some (p, s') \<and>
    (if p = 0 then heap_inv s' blk fs \<and> same_data (used blk fs) s s' \<and> (\<forall>a\<in>set fs. the (blk a) < uheap_align sz)
     else alloc_post (used blk fs) (uheap_align sz) p s s')"
proof -
  let ?n = "uheap_align sz"
  have n: "sz \<le> ?n" "?n < sz + 16" by (rule uheap_align_bounds; use sz in simp)+
  have u: "u_list s = hd (fs @ [0])" using heap_invD(5) [OF inv] by (simp add: chain_def)
  obtain r s1 where r: "first_fit 0 (u_list s) ?n s = Some (r, s1)"
    "case r of None \<Rightarrow> s1 = s \<and> (\<forall>a\<in>set fs. the (blk a) < ?n) | Some p \<Rightarrow> alloc_post (used blk fs) ?n p s s1"
    using first_fit_returns [of s blk "[]" fs ?n, unfolded append_Nil] inv u by auto
  show ?thesis
  proof (cases r)
    case (Some p)
    then have "alloc_post (used blk fs) ?n p s s1" using r(2) by simp
    moreover from this have "p \<noteq> 0" by (auto simp: alloc_post_def)
    moreover have "malloc K sz s = Some (p, s1)" using sz r(1) Some by (simp add: malloc_def)
    ultimately show ?thesis by auto
  next
    case None
    then have s1: "s1 = s" "\<forall>a\<in>set fs. the (blk a) < ?n" using r(2) by simp_all
    have "?n + 40 < 2 ^ 63" using n sz by simp
    from request_returns [OF inv K this] obtain h s2 where h: "uheap_request_from_kernel K ?n s = Some (h, s2)"
      "if h = 0 then heap_inv s2 blk fs \<and> same_data blk s s2
       else \<exists>sz. ?n \<le> sz \<and> h \<notin> dom blk \<and> heap_inv s2 (blk(h \<mapsto> sz)) fs \<and> same_data blk s s2"
      by blast
    show ?thesis
    proof (cases "h = 0")
      case True
      then have "malloc K sz s = Some (0, s2)" using sz r(1) None s1 h(1) by (simp add: malloc_def)
      then show ?thesis using True h(2) s1(2) same_data_mono [OF _ used_le] by auto
    next
      case False
      then obtain k where k: "?n \<le> k" "h \<notin> dom blk" "heap_inv s2 (blk(h \<mapsto> k)) fs" "same_data blk s s2"
        using h(2) by auto
      have nf: "h \<notin> set fs" using k(2) heap_invD(4) [OF inv] by blast
      have us: "used blk fs h = None" "used (blk(h \<mapsto> k)) fs = (used blk fs)(h \<mapsto> k)"
        using k(2) nf by (auto simp: used_def fun_eq_iff)
      have "same_data (used blk fs) s s2" by (rule same_data_mono [OF k(4) used_le])
      then obtain s' where s': "uheap_split_if_needed h ?n s2 = Some s'" "alloc_post (used blk fs) ?n (h + 24) s s'"
        using carve_alloc [OF k(3) _ nf k(1) us] by auto
      have "malloc K sz s = Some (h + 24, s')" using sz r(1) None s1 h(1) False s'(1) by (simp add: malloc_def)
      with s'(2) show ?thesis by auto
    qed
  qed
qed

lemma hdr_of_payload: "a + 24 < 2 ^ 64 \<Longrightarrow> hdr_of (a + 24) = a"
proof -
  assume a: "a + 24 < 2 ^ 64"
  have "a + 24 + (2 ^ 64 - 24) = a + 2 ^ 64" by simp
  then have "hdr_of (a + 24) = (a + 2 ^ 64) mod 2 ^ 64" unfolding hdr_of_def by (rule arg_cong)
  also have "\<dots> = a" using a by (simp del: power_numeral)
  finally show ?thesis .
qed

lemma free_returns:
  assumes inv: "heap_inv s blk fs" and a: "blk a = Some sz" "a \<notin> set fs"
  shows "\<exists>s' blk' fs'. free (a + 24) s = Some ((), s') \<and> heap_inv s' blk' fs' \<and> headers_only (dom blk) s s' \<and>
    used blk' fs' = (used blk fs)(a := None) \<and> apart blk' fs' \<and>
    extent blk' (set fs') = extent blk (insert a (set fs)) \<and> free (a + 24) s' = Some ((), s') \<and>
    within blk (insert a (set fs)) blk' (set fs')"
proof -
  note I = heap_invD [OF inv]
  obtain h where h: "get_hdr a s = Some h" "uh_size h = sz" "uh_magic h = UHEAP_MAGIC" "uh_free h = 0"
    by (rule stored_hdr [OF I(2) a(1)]) (use a(2) that in simp)
  have ad: "a \<in> dom blk" using a(1) by blast
  have "set fs - {a} = set fs" using a(2) by blast
  from insert_free_returns [OF I(1,2) this ad a(2) I(3,4,5)] obtain s1 where s1: "uheap_insert_free a s = Some s1"
    "heap_inv s1 blk (insert_at a fs)" "headers_only (dom blk) s s1" by blast
  let ?fs = "insert_at a fs"
  have hd: "u_list s1 = hd (?fs @ [0])" using heap_invD(5) [OF s1(2)] by (simp add: chain_def)
  from coalesce_returns [of s1 blk "[]" ?fs] s1(2) obtain s' blk' fs' where c: "coalesce_loop (u_list s1) s1 = Some s'"
    "heap_inv s' blk' fs'" "headers_only (set ?fs) s1 s'" "\<forall>b. b \<notin> set ?fs \<longrightarrow> blk' b = blk b" "set fs' = set ?fs \<inter> dom blk'"
    "extent blk' (set fs') = extent blk (set ?fs)" "apart blk' fs'"
    "\<forall>b\<in>set ?fs - dom blk'. map_option uh_magic (get_hdr b s') = Some 0" "within blk (set ?fs) blk' (set fs')"
    unfolding hd by auto
  have e: "hdr_of (a + 24) = a" using layout_block [OF I(1) a(1)] by (intro hdr_of_payload) simp
  have run: "free (a + 24) s = Some ((), s')"
    using h s1(1) c(1) by (simp add: free_def e uheap_coalesce_def Let_def)
  have "free (a + 24) s' = Some ((), s')"
  proof (cases "a \<in> dom blk'")
    case True
    then have "a \<in> set fs'" using c(5) by simp
    moreover obtain k where "blk' a = Some k" using True by blast
    ultimately obtain h' where "get_hdr a s' = Some h'" "uh_free h' = 1"
      using stored_hdr [OF heap_invD(2) [OF c(2)], of a k] by (metis (full_types))
    then show ?thesis by (auto simp: free_def e Let_def)
  next
    case False
    then have "map_option uh_magic (get_hdr a s') = Some 0" using c(8) by simp
    then show ?thesis by (auto simp: free_def e Let_def UHEAP_MAGIC_def)
  qed
  moreover have "headers_only (dom blk) s s'"
    using s1(3) headers_only_mono [OF c(3), of "dom blk"] I(4) ad by (auto intro: headers_only_trans)
  moreover have "used blk' fs' = (used blk fs)(a := None)"
  proof
    fix b
    show "used blk' fs' b = ((used blk fs)(a := None)) b"
      using c(4,5) by (cases "b \<in> insert a (set fs)") (auto simp: used_def domIff)
  qed
  ultimately show ?thesis using run c(2,6,7,9) by auto
qed

text \<open>Bytes written inside a block in use.\<close>

lemma payload_write:
  assumes inv: "heap_inv s blk fs" and a: "used blk fs a = Some n" and p: "a + 24 \<le> p" "p + length bs \<le> a + 24 + n"
  shows "ram_wr p bs (u_ram s) = Some (ram_upd p bs (u_ram s))"
    "heap_inv (s\<lparr>u_ram := ram_upd p bs (u_ram s)\<rparr>) blk fs"
    "same_data ((used blk fs)(a := None)) s (s\<lparr>u_ram := ram_upd p bs (u_ram s)\<rparr>)"
proof -
  let ?s = "s\<lparr>u_ram := ram_upd p bs (u_ram s)\<rparr>"
  note I = heap_invD [OF inv]
  have b: "blk a = Some n" using a by (auto simp: used_def split: if_splits)
  have m: "{p..<p + length bs} \<subseteq> dom (u_ram s)"
    using I(2) b p mapped_mono [of s a "24 + n" p "length bs"] by (simp add: stored_def mapped_def)
  then show "ram_wr p bs (u_ram s) = Some (ram_upd p bs (u_ram s))" by (rule ram_wr_mapped)
  have dom: "dom (u_ram ?s) = dom (u_ram s)" using dom_ram_upd [OF m] by simp
  have off: "c + 24 + (if c = a then 0 else sc) \<le> p \<or> p + length bs \<le> c" if c: "blk c = Some sc" for c sc
    using layout_between [OF I(1) b c] b c p by (cases "c = a") auto
  have get: "get_hdr c ?s = get_hdr c s" if d: "c \<in> dom blk" for c
  proof -
    obtain sc where "blk c = Some sc" using d by blast
    from off [OF this] have "c + 24 \<le> p \<or> p + length bs \<le> c" by auto
    then show ?thesis by (simp add: get_hdr_def ram_rd_upd_other)
  qed
  have "stored ?s blk (set fs)" using I(2) get dom unfolding stored_def mapped_def by (metis domI)
  moreover have "links ?s fs 0 = links s fs 0" by (rule links_cong, rule get) (use I(4) in blast)
  ultimately show "heap_inv ?s blk fs" using I by (simp add: heap_inv_def chain_def)
  show "same_data ((used blk fs)(a := None)) s ?s"
    unfolding same_data_def
  proof (intro allI impI)
    fix c sc x assume x: "((used blk fs)(a := None)) c = Some sc" "c + 24 \<le> x" "x < c + 24 + sc"
    then have "blk c = Some sc" "c \<noteq> a" by (auto simp: used_def split: if_splits)
    from off [OF this(1)] this(2) x show "u_ram ?s x = u_ram s x" by (auto simp: ram_upd_def)
  qed
qed

section \<open>The heap as its callers know it\<close>

text \<open>\<open>heap_ok s us\<close>: the heap is well formed and \<open>us\<close> gives the size of every payload in use, by its pointer.\<close>

definition payloads :: "(nat \<Rightarrow> nat option) \<Rightarrow> nat \<Rightarrow> nat option" where
  "payloads us p = (if 24 \<le> p then us (p - 24) else None)"

definition heap_ok :: "'w uheap \<Rightarrow> (nat \<Rightarrow> nat option) \<Rightarrow> bool" where
  "heap_ok s us \<longleftrightarrow> (\<exists>blk fs. heap_inv s blk fs \<and> us = payloads (used blk fs))"

definition same_bytes :: "(nat \<Rightarrow> nat option) \<Rightarrow> 'w uheap \<Rightarrow> 'w uheap \<Rightarrow> bool" where
  "same_bytes us s s' \<longleftrightarrow> (\<forall>p n x. us p = Some n \<longrightarrow> p \<le> x \<longrightarrow> x < p + n \<longrightarrow> u_ram s' x = u_ram s x)"

lemma payloads_upd: "payloads (us(a := v)) = (payloads us)(a + 24 := v)"
  by (auto simp: payloads_def fun_eq_iff)

lemma payloads_at [simp]: "payloads us (a + 24) = us a"
  by (simp add: payloads_def)

lemma payloads_Some: "payloads us p = Some n \<longleftrightarrow> (\<exists>a. p = a + 24 \<and> us a = Some n)"
proof
  assume "payloads us p = Some n"
  then show "\<exists>a. p = a + 24 \<and> us a = Some n" by (intro exI [of _ "p - 24"]) (auto simp: payloads_def split: if_splits)
qed auto

lemma same_data_bytes: "same_data us s s' \<Longrightarrow> same_bytes (payloads us) s s'"
  unfolding same_bytes_def same_data_def payloads_Some by auto

lemma heap_ok_intro: "heap_inv s blk fs \<Longrightarrow> used blk fs = us \<Longrightarrow> heap_ok s (payloads us)"
  by (auto simp: heap_ok_def)

text \<open>Payloads in use are in memory and do not meet.\<close>

lemma heap_ok_apart:
  assumes "heap_ok s us" "us p = Some n" "us q = Some m" "p \<noteq> q"
  shows "mapped s p n" "p + n < 2 ^ 63" "p + n \<le> q \<or> q + m \<le> p"
proof -
  obtain blk fs where inv: "heap_inv s blk fs" and us: "us = payloads (used blk fs)"
    using assms(1) by (auto simp: heap_ok_def)
  obtain a b where ab: "p = a + 24" "used blk fs a = Some n" "q = b + 24" "used blk fs b = Some m"
    using assms(2,3) by (auto simp: us payloads_Some)
  then have bl: "blk a = Some n" "blk b = Some m" by (auto simp: used_def split: if_splits)
  note I = heap_invD [OF inv]
  have "mapped s a (24 + n)" using I(2) bl(1) by (simp add: stored_def)
  then show "mapped s p n" by (rule mapped_mono) (simp_all add: ab(1))
  show "p + n < 2 ^ 63" using layout_block [OF I(1) bl(1)] by (simp add: ab(1))
  show "p + n \<le> q \<or> q + m \<le> p"
    using layout_between [OF I(1) bl] assms(4) ab(1,3) by auto
qed

lemma alloc_post_ok:
  assumes "alloc_post us need p s s'"
  shows "p \<noteq> 0" "payloads us p = None" "same_bytes (payloads us) s s'"
    "\<exists>n. need \<le> n \<and> n < need + 56 \<and> heap_ok s' ((payloads us)(p \<mapsto> n))"
proof -
  obtain a n blk' fs' where a: "p = a + 24" "us a = None" "need \<le> n" "n < need + 56" "heap_inv s' blk' fs'"
    "used blk' fs' = us(a \<mapsto> n)" "same_data us s s'"
    using assms by (auto simp: alloc_post_def)
  show "p \<noteq> 0" "payloads us p = None" using a(1,2) by simp_all
  show "same_bytes (payloads us) s s'" using a(7) by (rule same_data_bytes)
  have "heap_ok s' (payloads (us(a \<mapsto> n)))" using a(5,6) by (rule heap_ok_intro)
  then show "\<exists>n. need \<le> n \<and> n < need + 56 \<and> heap_ok s' ((payloads us)(p \<mapsto> n))"
    using a(3,4) by (auto simp: payloads_upd a(1))
qed

lemma malloc_ok:
  assumes ok: "heap_ok s us" and K: "sbrk_ok K" and sz: "0 < sz" "sz \<le> 2 ^ 62"
  shows "\<exists>p s'. malloc K sz s = Some (p, s') \<and> same_bytes us s s' \<and>
    (if p = 0 then heap_ok s' us else us p = None \<and> (\<exists>n. sz \<le> n \<and> n < sz + 72 \<and> heap_ok s' (us(p \<mapsto> n))))"
proof -
  obtain blk fs where inv: "heap_inv s blk fs" and us: "us = payloads (used blk fs)"
    using ok by (auto simp: heap_ok_def)
  obtain p s' where r: "malloc K sz s = Some (p, s')"
    "if p = 0 then heap_inv s' blk fs \<and> same_data (used blk fs) s s' \<and> (\<forall>a\<in>set fs. the (blk a) < uheap_align sz)
     else alloc_post (used blk fs) (uheap_align sz) p s s'"
    using malloc_returns [OF inv K sz] by blast
  have n: "sz \<le> uheap_align sz" "uheap_align sz < sz + 16" by (rule uheap_align_bounds; use sz in simp)+
  show ?thesis
  proof (cases "p = 0")
    case True
    then have "heap_ok s' us" "same_bytes us s s'"
      using r(2) heap_ok_intro [of s' blk fs] same_data_bytes [of "used blk fs" s s'] by (simp_all add: us)
    then show ?thesis using r(1) True by auto
  next
    case False
    then have "alloc_post (used blk fs) (uheap_align sz) p s s'" using r(2) by simp
    note A = alloc_post_ok [OF this]
    obtain k where k: "uheap_align sz \<le> k" "k < uheap_align sz + 56" "heap_ok s' (us(p \<mapsto> k))" using A(4) us by auto
    then have "sz \<le> k" "k < sz + 72" using n by simp_all
    then show ?thesis using r(1) False A(2,3) k(3) us by auto
  qed
qed

lemma free_ok:
  assumes ok: "heap_ok s us" and p: "us p = Some n"
  shows "\<exists>s'. free p s = Some ((), s') \<and> heap_ok s' (us(p := None)) \<and> same_bytes (us(p := None)) s s' \<and>
    free p s' = Some ((), s') \<and> u_list s' \<noteq> 0"
proof -
  obtain blk fs where inv: "heap_inv s blk fs" and us: "us = payloads (used blk fs)"
    using ok by (auto simp: heap_ok_def)
  obtain a where a: "p = a + 24" "used blk fs a = Some n" using p by (auto simp: us payloads_Some)
  then have b: "blk a = Some n" "a \<notin> set fs" by (auto simp: used_def split: if_splits)
  obtain s' blk' fs' where r: "free p s = Some ((), s')" "heap_inv s' blk' fs'" "headers_only (dom blk) s s'"
    "used blk' fs' = (used blk fs)(a := None)" "free p s' = Some ((), s')" "within blk (insert a (set fs)) blk' (set fs')"
    using free_returns [OF inv b] unfolding a(1) by blast
  obtain c cs where c: "fs' = c # cs" using r(6) by (cases fs') (auto simp: within_def)
  then have "u_list s' = c" "c \<in> dom blk'" using heap_invD(4,5) [OF r(2)] by (auto simp: chain_def)
  then have l: "u_list s' \<noteq> 0" using layout_block [OF heap_invD(1) [OF r(2)], of c] by auto
  have u: "us(p := None) = payloads ((used blk fs)(a := None))" by (simp add: us payloads_upd a(1))
  have "heap_ok s' (us(p := None))" unfolding u using r(2,4) by (rule heap_ok_intro)
  moreover have "same_data ((used blk fs)(a := None)) s s'"
    by (rule headers_data [OF heap_invD(1) [OF inv] r(3)]) (auto simp: map_le_def used_def)
  then have "same_bytes (us(p := None)) s s'" unfolding u by (rule same_data_bytes)
  ultimately show ?thesis using r(1,5) l by blast
qed

text \<open>Memory given back is found again, whatever the kernel answers.\<close>

lemma free_malloc:
  assumes ok: "heap_ok s us" and p: "us p = Some n" and K: "sbrk_ok K" and sz: "0 < sz" "uheap_align sz \<le> n" "sz \<le> 2 ^ 62"
    and f: "free p s = Some ((), s')"
  shows "\<exists>q s''. malloc K sz s' = Some (q, s'') \<and> q \<noteq> 0"
proof -
  obtain blk fs where inv: "heap_inv s blk fs" and us: "us = payloads (used blk fs)"
    using ok by (auto simp: heap_ok_def)
  obtain a where a: "p = a + 24" "used blk fs a = Some n" using p by (auto simp: us payloads_Some)
  then have b: "blk a = Some n" "a \<notin> set fs" by (auto simp: used_def split: if_splits)
  obtain blk' fs' where r: "heap_inv s' blk' fs'" "within blk (insert a (set fs)) blk' (set fs')"
    using free_returns [OF inv b] f unfolding a(1) by auto
  obtain c where c: "c \<in> set fs'" "c \<le> a" "a + n \<le> c + the (blk' c)" using r(2) b(1) by (auto simp: within_def)
  obtain q s'' where m: "malloc K sz s' = Some (q, s'')"
    "if q = 0 then heap_inv s'' blk' fs' \<and> same_data (used blk' fs') s' s'' \<and> (\<forall>a\<in>set fs'. the (blk' a) < uheap_align sz)
     else alloc_post (used blk' fs') (uheap_align sz) q s' s''"
    using malloc_returns [OF r(1) K sz(1,3)] by blast
  have "q \<noteq> 0"
  proof
    assume "q = 0"
    then have "the (blk' c) < uheap_align sz" using m(2) c(1) by simp
    with c sz(2) show False by simp
  qed
  with m(1) show ?thesis by blast
qed

section \<open>Cleared memory\<close>

lemma calloc_ok:
  assumes ok: "heap_ok s us" and K: "sbrk_ok K" and sz: "0 < nmemb * sz" "nmemb * sz \<le> 2 ^ 62"
  shows "\<exists>p s'. calloc K nmemb sz s = Some (p, s') \<and> same_bytes us s s' \<and>
    (if p = 0 then heap_ok s' us
     else us p = None \<and> (\<exists>n. nmemb * sz \<le> n \<and> heap_ok s' (us(p \<mapsto> n))) \<and>
       (\<forall>x. p \<le> x \<and> x < p + nmemb * sz \<longrightarrow> u_ram s' x = Some 0))"
proof -
  let ?t = "nmemb * sz"
  obtain blk fs where inv: "heap_inv s blk fs" and us: "us = payloads (used blk fs)"
    using ok by (auto simp: heap_ok_def)
  have lt: "\<not> (2 ^ 64 - 1) div nmemb < sz" "?t mod 2 ^ 64 = ?t"
    using sz by (simp_all add: not_less less_eq_div_iff_mult_less_eq mult.commute)
  obtain p s1 where m: "malloc K ?t s = Some (p, s1)"
    "if p = 0 then heap_inv s1 blk fs \<and> same_data (used blk fs) s s1 \<and> (\<forall>a\<in>set fs. the (blk a) < uheap_align ?t)
     else alloc_post (used blk fs) (uheap_align ?t) p s s1"
    using malloc_returns [OF inv K sz] by blast
  show ?thesis
  proof (cases "p = 0")
    case True
    then have "calloc K nmemb sz s = Some (0, s1)" using lt m(1) unfolding calloc_def Let_def lt(2) by simp
    then show ?thesis
      using m(2) True heap_ok_intro [of s1 blk fs] same_data_bytes [of "used blk fs" s s1] by (simp add: us)
  next
    case False
    then obtain a n blk' fs' where a: "p = a + 24" "used blk fs a = None" "uheap_align ?t \<le> n" "heap_inv s1 blk' fs'"
      "used blk' fs' = (used blk fs)(a \<mapsto> n)" "same_data (used blk fs) s s1"
      using m(2) by (auto simp: alloc_post_def)
    have "?t \<le> uheap_align ?t" by (rule uheap_align_bounds) (use sz in simp)
    with a(3) have n: "?t \<le> n" by simp
    let ?s = "s1\<lparr>u_ram := ram_upd p (replicate ?t 0) (u_ram s1)\<rparr>"
    have w: "ram_wr p (replicate ?t 0) (u_ram s1) = Some (ram_upd p (replicate ?t 0) (u_ram s1))"
      "heap_inv ?s blk' fs'" "same_data ((used blk' fs')(a := None)) s1 ?s"
      by (rule payload_write [OF a(4), of a n]; use a(1,5) n in simp)+
    have e: "(used blk' fs')(a := None) = used blk fs" using a(2,5) by (simp add: fun_upd_idem)
    have "calloc K nmemb sz s = Some (p, ?s)" using lt m(1) w(1) False unfolding calloc_def Let_def lt(2) by simp
    moreover have "same_bytes us s ?s"
      unfolding us by (rule same_data_bytes, rule same_data_trans [OF a(6)]) (use w(3) e in simp)
    moreover have "heap_ok ?s (us(p \<mapsto> n))"
      using heap_ok_intro [OF w(2) a(5)] by (simp add: us a(1) payloads_upd)
    moreover have "\<forall>x. p \<le> x \<and> x < p + ?t \<longrightarrow> u_ram ?s x = Some 0" by (auto simp: ram_upd_def)
    ultimately show ?thesis using n False a(1,2) by (intro exI [of _ p] exI [of _ ?s]) (auto simp: us)
  qed
qed

lemma calloc_overflow:
  assumes "2 ^ 64 \<le> nmemb * sz"
  shows "calloc K nmemb sz s = Some (0, s)"
proof -
  have "0 < nmemb" using assms by (cases nmemb) simp_all
  moreover have "(2 ^ 64 - 1) div nmemb < sz"
    using \<open>0 < nmemb\<close> assms by (simp add: div_less_iff_less_mult mult.commute)
  ultimately show ?thesis by (simp add: calloc_def)
qed

section \<open>Growing in place\<close>

lemma in_free_list_eq:
  "stored s blk F \<Longrightarrow> layout blk \<Longrightarrow> set ys \<subseteq> dom blk \<Longrightarrow> links s ys 0 \<Longrightarrow>
   in_free_list b (hd (ys @ [0])) s = Some (b \<in> set ys)"
proof (induction ys)
  case Nil
  then show ?case by (subst in_free_list.simps) simp
next
  case (Cons y ys)
  then obtain h where "get_hdr y s = Some h" "uh_next h = hd (ys @ [0])" by auto
  moreover have "y \<noteq> 0" using Cons.prems(2,3) layout_block [of blk y] by auto
  ultimately show ?case using Cons by (subst in_free_list.simps) auto
qed

lemma remove_loop_eq:
  assumes inv: "heap_inv s blk (xs @ c # ys)" and h: "get_hdr c s = Some h"
    and s1: "s1 = set_pp xs (hd (ys @ [0])) s"
  shows "xs = us @ vs \<Longrightarrow> remove_loop c (pp_of us) s = Some (upd_hdr c (h\<lparr>uh_next := 0\<rparr>) s1)"
proof (induction vs arbitrary: us)
  case Nil
  note I = heap_invD [OF inv] and U = unlink_props [OF inv s1]
  have c: "c \<in> dom blk" "set xs \<subseteq> dom blk" "chain s xs c" using I(4,5) by (auto simp: chain_append)
  have c0: "c \<noteq> 0" using layout_block [OF I(1)] c(1) by fastforce
  have nx: "uh_next h = hd (ys @ [0])" using I(5) h by (simp add: chain_append)
  have g: "get_hdr c s1 = Some h" using U(4) h by simp
  have m: "mapped s1 c 24" by (rule stored_mapped [OF U(1) c(1)])
  have st: "store_pp (pp_of xs) (hd (ys @ [0])) s = Some s1" unfolding s1 by (rule store_pp_of [OF I(2) c(2)])
  have "xs = us" using Nil by simp
  then show ?case using load_pp_of [OF c(3)] c0 h nx st g m
    by (subst remove_loop.simps) (simp add: put_hdr_mapped)
next
  case (Cons v vs)
  note I = heap_invD [OF inv]
  have "chain s us v" using I(5) Cons.prems by (simp add: chain_append)
  then have l: "load_pp (pp_of us) s = Some v" by (rule load_pp_of)
  have v: "v \<noteq> 0" "v \<noteq> c"
    using I(4) layout_block [OF I(1), of v] sorted_wrt_less_distinct [OF I(3)] Cons.prems by auto
  have "remove_loop c (pp_of (us @ [v])) s = Some (upd_hdr c (h\<lparr>uh_next := 0\<rparr>) s1)" by (rule Cons.IH) (simp add: Cons.prems)
  then show ?case using l v by (subst remove_loop.simps) simp
qed

lemma upd_hdr_commute: "a + 24 \<le> b \<Longrightarrow> upd_hdr a h (upd_hdr b k s) = upd_hdr b k (upd_hdr a h s)"
  by (auto simp: upd_hdr_def ram_upd_def fun_eq_iff)

text \<open>The free block \<open>c\<close> behind the block \<open>a\<close> in use is taken out of the list and becomes a part of it.\<close>

lemma absorb_returns:
  assumes inv: "heap_inv s blk fs" and a: "used blk fs a = Some n" and c: "c \<in> set fs" "c = a + 24 + n"
    and comb: "combined = n + 24 + the (blk c)"
  shows "\<exists>s' fs'. do { s \<leftarrow> uheap_remove_free c s;
      k \<leftarrow> get_hdr c s;
      s \<leftarrow> put_hdr c (k\<lparr>uh_magic := 0\<rparr>) s;
      h \<leftarrow> get_hdr a s;
      put_hdr a (h\<lparr>uh_size := combined\<rparr>) s } = Some s' \<and>
    heap_inv s' (merged a c blk) fs' \<and> headers_only (dom blk) s s' \<and>
    used (merged a c blk) fs' = (used blk fs)(a \<mapsto> combined) \<and> merged a c blk a = Some combined \<and> a \<notin> set fs'"
proof -
  note I = heap_invD [OF inv]
  have ba: "blk a = Some n" "a \<notin> set fs" using a by (auto simp: used_def split: if_splits)
  have dom: "a \<in> dom blk" "c \<in> dom blk" using ba c(1) I(4) by auto
  then obtain k where bc: "blk c = Some k" by blast
  obtain xs ys where fs: "fs = xs @ c # ys" using c(1) by (auto simp: in_set_conv_decomp)
  have dist: "distinct (xs @ c # ys)" using sorted_wrt_less_distinct [OF I(3)] by (simp add: fs)
  obtain hc where hc: "get_hdr c s = Some hc" "uh_size hc = k" "uh_magic hc = UHEAP_MAGIC" "uh_free hc = 1"
    by (rule stored_hdr [OF I(2) bc]) (use that c(1) in simp)
  define s1 where "s1 = set_pp xs (hd (ys @ [0])) s"
  note inv' = inv [unfolded fs]
  note U = unlink_props [OF inv' s1_def]
  define s2 where "s2 = upd_hdr c (hc\<lparr>uh_next := 0\<rparr>) s1"
  have r: "uheap_remove_free c s = Some s2"
    using remove_loop_eq [OF inv' hc(1) s1_def, of "[]" xs] by (simp add: uheap_remove_free_def pp_of_def s2_def)
  have m1: "mapped s1 c 24" "mapped s1 a 24" using stored_mapped [OF U(1)] dom by blast+
  have st2: "stored s2 blk (set fs)"
    unfolding s2_def fs by (rule stored_upd [OF I(1) U(1)]) (use bc hc in simp_all)
  have f: "fits (hc\<lparr>uh_next := 0\<rparr>)" using get_hdr_fits [OF hc(1)] by (simp add: fits_def)
  have gc: "get_hdr c s2 = Some (hc\<lparr>uh_next := 0\<rparr>)" using f by (simp add: s2_def get_upd_same)
  obtain h where h: "get_hdr a s2 = Some h" "uh_size h = n" "uh_magic h = UHEAP_MAGIC" "uh_free h = 0" "uh_next h < 2 ^ 64"
    by (rule stored_hdr [OF st2 ba(1)]) (use that ba(2) in simp)
  let ?k = "hc\<lparr>uh_next := 0, uh_magic := 0\<rparr>" and ?h = "h\<lparr>uh_size := combined\<rparr>"
  define s3 where "s3 = upd_hdr a ?h (upd_hdr c ?k s2)"
  have s3: "s3 = upd_hdr c ?k (upd_hdr a ?h s2)" unfolding s3_def by (rule upd_hdr_commute) (simp add: c(2))
  have m2: "mapped s2 c 24" "mapped s2 a 24" using m1 by (simp_all add: s2_def)
  have ac: "a \<noteq> c" using c(2) by simp
  have g3: "get_hdr a (upd_hdr c ?k s2) = Some h"
    using get_upd_block [OF I(1) dom(2,1), of ?k s2] ac h(1) by simp
  have run: "do { s \<leftarrow> uheap_remove_free c s; k \<leftarrow> get_hdr c s; s \<leftarrow> put_hdr c (k\<lparr>uh_magic := 0\<rparr>) s;
      h \<leftarrow> get_hdr a s; put_hdr a (h\<lparr>uh_size := combined\<rparr>) s } = Some s3"
    using r gc m2 g3 by (simp add: put_hdr_mapped s3_def)
  have adj: "a + 24 + n = c" and cmb: "combined = n + 24 + k" using c(2) comb bc by simp_all
  have F: "set (xs @ ys) - {a, c} = set fs - {a, c}" by (auto simp: fs)
  have afs: "a \<notin> set (xs @ ys)" using ba(2) by (simp add: fs)
  have M: "stored s3 (merged a c blk) (set (xs @ ys))" "headers_only {a, c} s2 s3"
    "\<And>b. b \<in> dom blk \<Longrightarrow> b \<noteq> a \<Longrightarrow> b \<noteq> c \<Longrightarrow> get_hdr b s3 = get_hdr b s2"
    by (rule merged_stored [OF I(1) st2 ba(1) bc adj _ _ _ _ F s3]; use h cmb afs in simp)+
  have lay: "layout (merged a c blk)" by (rule layout_merged [OF I(1) ba(1) bc adj])
  have sub: "set (xs @ ys) \<subseteq> dom blk" "c \<notin> set (xs @ ys)" "sorted_wrt (<) (xs @ ys)"
    using I(3,4) dist by (auto simp: fs sorted_wrt_append)
  have "links s3 (xs @ ys) 0 = links s2 (xs @ ys) 0" by (rule links_cong, rule M(3)) (use sub afs in auto)
  moreover have "links s2 (xs @ ys) 0 = links s1 (xs @ ys) 0" unfolding s2_def by (rule links_upd [OF I(1) dom(2) sub(1,2)])
  ultimately have "chain s3 (xs @ ys) 0" using U(2) by (simp add: chain_def s3_def s2_def)
  moreover have "set (xs @ ys) \<subseteq> dom (merged a c blk)" using sub(1,2) by (auto simp: merged_def)
  ultimately have hi: "heap_inv s3 (merged a c blk) (xs @ ys)" using lay M(1) sub(3) by (simp add: heap_inv_def)
  have "headers_only (dom blk) s s3"
    using U(3) headers_only_upd [OF dom(2) m1(1), of "hc\<lparr>uh_next := 0\<rparr>"] headers_only_mono [OF M(2), of "dom blk"] dom
    unfolding s2_def [symmetric] by (blast intro: headers_only_trans)
  moreover have mc: "merged a c blk a = Some combined" using ba(1) bc cmb ac by (simp add: merged_def)
  moreover have "used (merged a c blk) (xs @ ys) = (used blk fs)(a \<mapsto> combined)"
    using mc ba bc ac dist afs by (auto simp: used_def merged_def fs fun_eq_iff)
  ultimately show ?thesis using run hi afs by (intro exI [of _ s3] exI [of _ "xs @ ys"]) simp
qed

section \<open>Resizing\<close>

text \<open>What a resized block is: \<open>q\<close> in the place of \<open>a + 24\<close>, with room, the old bytes, and the others as they were.\<close>

definition resized ::
  "(nat \<Rightarrow> nat option) \<Rightarrow> nat \<Rightarrow> nat \<Rightarrow> nat \<Rightarrow> nat \<Rightarrow> 'w uheap \<Rightarrow> 'w uheap \<Rightarrow> bool" where
  "resized us a k need q s s' \<longleftrightarrow> (\<exists>b m blk' fs'. q = b + 24 \<and> (b = a \<or> us b = None) \<and> need \<le> m \<and>
     heap_inv s' blk' fs' \<and> used blk' fs' = (us(a := None))(b \<mapsto> m) \<and> same_data (us(a := None)) s s' \<and>
     (\<forall>i<k. u_ram s' (q + i) = u_ram s (a + 24 + i)))"

lemma resized_in_place:
  assumes "heap_inv s' blk' fs'" "used blk' fs' = us(a \<mapsto> m)" "need \<le> m" "k \<le> m" "k \<le> n" "us a = Some n"
    and "same_data (us(a := None)) s s'" "\<forall>i<k. u_ram s' (a + 24 + i) = u_ram s (a + 24 + i)"
  shows "resized us a k need (a + 24) s s'"
  unfolding resized_def
  by (rule exI [of _ a], rule exI [of _ m], rule exI [of _ blk'], rule exI [of _ fs']) (use assms in simp)

lemma same_data_at: "same_data us s s' \<Longrightarrow> us a = Some n \<Longrightarrow> i < n \<Longrightarrow> u_ram s' (a + 24 + i) = u_ram s (a + 24 + i)"
  unfolding same_data_def by simp

lemma realloc_move_returns:
  assumes inv: "heap_inv s blk fs" and a: "used blk fs a = Some n" and K: "sbrk_ok K"
    and sz: "n \<le> need" "0 < need" "need \<le> 2 ^ 62"
  shows "\<exists>q s'. realloc_move K (a + 24) need s = Some (q, s') \<and>
    (if q = 0 then heap_inv s' blk fs \<and> same_data (used blk fs) s s' else resized (used blk fs) a n need q s s')"
proof -
  obtain q s1 where m: "malloc K need s = Some (q, s1)"
    "if q = 0 then heap_inv s1 blk fs \<and> same_data (used blk fs) s s1 \<and> (\<forall>a\<in>set fs. the (blk a) < uheap_align need)
     else alloc_post (used blk fs) (uheap_align need) q s s1"
    using malloc_returns [OF inv K sz(2,3)] by blast
  show ?thesis
  proof (cases "q = 0")
    case True
    then show ?thesis using m by (auto simp: realloc_move_def)
  next
    case False
    then obtain b k blk1 fs1 where b: "q = b + 24" "used blk fs b = None" "uheap_align need \<le> k" "heap_inv s1 blk1 fs1"
      "used blk1 fs1 = (used blk fs)(b \<mapsto> k)" "same_data (used blk fs) s s1"
      using m(2) by (auto simp: alloc_post_def)
    have "need \<le> uheap_align need" by (rule uheap_align_bounds) (use sz in simp)
    with b(3) have k: "need \<le> k" by simp
    have ab: "a \<noteq> b" using a b(2) by auto
    then have a1: "used blk1 fs1 a = Some n" using a b(5) by simp
    then have a1': "blk1 a = Some n" "a \<notin> set fs1" by (auto simp: used_def split: if_splits)
    note I = heap_invD [OF b(4)]
    obtain h where h: "get_hdr a s1 = Some h" "uh_size h = n" by (rule stored_hdr [OF I(2) a1'(1)])
    have "mapped s1 a (24 + n)" using I(2) a1'(1) by (simp add: stored_def)
    then have "mapped s1 (a + 24) n" by (rule mapped_mono) simp_all
    then obtain bs where bs: "ram_rd (u_ram s1) (a + 24) n = Some bs" using ram_rd_mapped unfolding mapped_def by metis
    then have bs': "length bs = n" "\<forall>i<n. u_ram s1 (a + 24 + i) = Some (bs ! i)" by (simp_all add: ram_rd_Some)
    let ?s = "s1\<lparr>u_ram := ram_upd q bs (u_ram s1)\<rparr>"
    have w: "ram_wr q bs (u_ram s1) = Some (ram_upd q bs (u_ram s1))" "heap_inv ?s blk1 fs1"
      "same_data ((used blk1 fs1)(b := None)) s1 ?s"
      by (rule payload_write [OF b(4), of b k]; use b(1,5) bs'(1) k sz(1) in simp)+
    obtain s' blk' fs' where f: "free (a + 24) ?s = Some ((), s')" "heap_inv s' blk' fs'" "headers_only (dom blk1) ?s s'"
      "used blk' fs' = (used blk1 fs1)(a := None)"
      using free_returns [OF w(2) a1'] by blast
    have e: "hdr_of (a + 24) = a" using layout_block [OF I(1) a1'(1)] by (intro hdr_of_payload) simp
    have "realloc_move K (a + 24) need s = Some (q, s')"
      using m(1) False h bs w(1) f(1) by (simp add: realloc_move_def e)
    moreover have "resized (used blk fs) a n need q s s'"
      unfolding resized_def
    proof (rule exI [of _ b], rule exI [of _ k], rule exI [of _ blk'], rule exI [of _ fs'], intro conjI)
      show "used blk' fs' = ((used blk fs)(a := None))(b \<mapsto> k)" using f(4) b(5) ab by (auto simp: fun_eq_iff)
      have le: "used blk1 fs1 \<subseteq>\<^sub>m blk1" by (rule used_le)
      have d: "same_data (used blk1 fs1) ?s s'" by (rule headers_data [OF I(1) f(3) le])
      have u: "(used blk fs)(a := None) \<subseteq>\<^sub>m used blk fs" "(used blk fs)(a := None) \<subseteq>\<^sub>m (used blk1 fs1)(b := None)"
        "(used blk fs)(a := None) \<subseteq>\<^sub>m used blk1 fs1"
        using b(2,5) by (auto simp: map_le_def)
      show "same_data ((used blk fs)(a := None)) s s'"
        using same_data_mono [OF b(6) u(1)] same_data_mono [OF w(3) u(2)] same_data_mono [OF d u(3)]
        by (blast intro: same_data_trans)
      show "\<forall>i<n. u_ram s' (q + i) = u_ram s (a + 24 + i)"
      proof (intro allI impI)
        fix i assume i: "i < n"
        have "u_ram s' (b + 24 + i) = u_ram ?s (b + 24 + i)"
          by (rule same_data_at [OF d, of b k]) (use b(5) i sz(1) k in simp_all)
        then have "u_ram s' (q + i) = u_ram ?s (q + i)" by (simp only: b(1))
        also have "\<dots> = Some (bs ! i)" using i bs'(1) by (simp add: ram_upd_def)
        also have "\<dots> = u_ram s1 (a + 24 + i)" using bs'(2) i by simp
        also have "\<dots> = u_ram s (a + 24 + i)" by (rule same_data_at [OF b(6) a i])
        finally show "u_ram s' (q + i) = u_ram s (a + 24 + i)" .
      qed
    qed (use b k f in auto)
    ultimately show ?thesis using False by auto
  qed
qed

text \<open>
  The three ways of \<open>realloc\<close>: the block is large enough, the free block behind it makes it large enough, or the bytes move.
\<close>

lemma free_block_behind:
  assumes inv: "heap_inv s blk fs" and c: "c \<in> set fs" and k: "get_hdr c s = Some k"
  shows "uh_magic k = UHEAP_MAGIC" "uh_free k = 1" "uh_size k = the (blk c)" "c + 24 + the (blk c) < 2 ^ 63"
proof -
  note I = heap_invD [OF inv]
  obtain sc where sc: "blk c = Some sc" using I(4) c by blast
  obtain h where "get_hdr c s = Some h" "uh_size h = sc" "uh_magic h = UHEAP_MAGIC" "uh_free h = 1"
    by (rule stored_hdr [OF I(2) sc]) (use c that in simp)
  with sc k layout_block [OF I(1) sc] show "uh_magic k = UHEAP_MAGIC" "uh_free k = 1" "uh_size k = the (blk c)"
    "c + 24 + the (blk c) < 2 ^ 63"
    by simp_all
qed

text \<open>\<open>(size_t)-1 - h->size - sizeof(uheap_hdr_t)\<close>, the bound that the code compares with.\<close>

lemma merge_bound:
  assumes "n < 2 ^ 63"
  shows "(2 ^ 64 - 1 - n + (2 ^ 64 - 24)) mod 2 ^ 64 = (2 ^ 64 - 25 - n :: nat)"
proof -
  have "2 ^ 64 - 1 - n + (2 ^ 64 - 24) = (2 ^ 64 - 25 - n) + 2 ^ 64" using assms by simp
  then have "(2 ^ 64 - 1 - n + (2 ^ 64 - 24)) mod 2 ^ 64 = ((2 ^ 64 - 25 - n) + 2 ^ 64) mod 2 ^ 64" by (rule arg_cong)
  also have "\<dots> = (2 ^ 64 - 25 - n) mod 2 ^ 64" by (rule mod_add_self2)
  also have "\<dots> = 2 ^ 64 - 25 - n" by (rule mod_less) simp
  finally show ?thesis .
qed

lemma used_less: "(us(a := None)) \<subseteq>\<^sub>m us(a \<mapsto> k)" "(us(a := None)) \<subseteq>\<^sub>m us"
  by (auto simp: map_le_def)

lemma realloc_shrinks:
  assumes inv: "heap_inv s blk fs" and a: "used blk fs a = Some n" and sz: "0 < sz" and fits: "uheap_align sz \<le> n"
  shows "\<exists>s'. realloc K (a + 24) sz s = Some (a + 24, s') \<and>
    resized (used blk fs) a (uheap_align sz) (uheap_align sz) (a + 24) s s'"
proof -
  let ?n = "uheap_align sz" and ?us = "used blk fs"
  note I = heap_invD [OF inv]
  have ba: "blk a = Some n" "a \<notin> set fs" using a by (auto simp: used_def split: if_splits)
  have lt: "0 < a" "a + 24 + n < 2 ^ 63" using layout_block [OF I(1) ba(1)] by simp_all
  have e: "hdr_of (a + 24) = a" using lt by (intro hdr_of_payload) simp
  obtain h where h: "get_hdr a s = Some h" "uh_size h = n" "uh_magic h = UHEAP_MAGIC" by (rule stored_hdr [OF I(2) ba(1)])
  obtain s' blk' fs' m where c: "uheap_split_if_needed a ?n s = Some s'" "heap_inv s' blk' fs'" "used blk' fs' = ?us(a \<mapsto> m)"
    "m \<le> n" "?n \<le> m" "same_data (?us(a \<mapsto> m)) s s'"
    using carve_returns [OF inv ba, of ?n] fits by blast
  have "realloc K (a + 24) sz s = Some (a + 24, s')" using sz h fits c(1) by (simp add: realloc_def e Let_def)
  moreover have "resized ?us a ?n ?n (a + 24) s s'"
    using c(2,3,5) _ _ a same_data_mono [OF c(6) used_less(1)]
    by (rule resized_in_place) (use fits c(5) same_data_at [OF c(6), of a m] in simp_all)
  ultimately show ?thesis by auto
qed

lemma realloc_absorbs:
  assumes inv: "heap_inv s blk fs" and a: "used blk fs a = Some n" and sz: "0 < sz" and grow: "n < uheap_align sz"
    and c: "a + 24 + n \<in> set fs" "uheap_align sz \<le> n + 24 + the (blk (a + 24 + n))"
    and k: "get_hdr (a + 24 + n) s = Some k"
  shows "\<exists>s'. realloc K (a + 24) sz s = Some (a + 24, s') \<and> resized (used blk fs) a n (uheap_align sz) (a + 24) s s'"
proof -
  let ?n = "uheap_align sz" and ?us = "used blk fs" and ?c = "a + 24 + n"
  let ?m = "n + 24 + the (blk ?c)"
  note I = heap_invD [OF inv]
  have ba: "blk a = Some n" using a by (auto simp: used_def split: if_splits)
  have lt: "0 < a" "a + 24 + n < 2 ^ 63" using layout_block [OF I(1) ba] by simp_all
  then have n63: "n < 2 ^ 63" by simp
  have e: "hdr_of (a + 24) = a" using lt by (intro hdr_of_payload) simp
  obtain h where h: "get_hdr a s = Some h" "uh_size h = n" "uh_magic h = UHEAP_MAGIC" by (rule stored_hdr [OF I(2) ba])
  have be: "block_end a h = ?c" using block_end_eq [OF I(1), of a h] ba h(2) by simp
  note fr = free_block_behind [OF inv c(1) k]
  have fl: "in_free_list ?c (u_list s) s = Some True"
    using in_free_list_eq [OF I(2,1,4), of ?c] I(5) c(1) by (simp add: chain_def)
  have noov: "\<not> (2 ^ 64 - 1 - n + (2 ^ 64 - 24)) mod 2 ^ 64 < uh_size k"
    unfolding merge_bound [OF n63] using fr(3,4) lt by simp
  obtain s1 fs1 where ab: "do { s \<leftarrow> uheap_remove_free ?c s; k \<leftarrow> get_hdr ?c s; s \<leftarrow> put_hdr ?c (k\<lparr>uh_magic := 0\<rparr>) s;
      h \<leftarrow> get_hdr a s; put_hdr a (h\<lparr>uh_size := ?m\<rparr>) s } = Some s1"
    "heap_inv s1 (merged a ?c blk) fs1" "headers_only (dom blk) s s1"
    "used (merged a ?c blk) fs1 = ?us(a \<mapsto> ?m)" "merged a ?c blk a = Some ?m" "a \<notin> set fs1"
    using absorb_returns [OF inv a c(1) refl refl] by blast
  obtain s' blk' fs' m where cv: "uheap_split_if_needed a ?n s1 = Some s'" "heap_inv s' blk' fs'"
    "used blk' fs' = ?us(a \<mapsto> m)" "?n \<le> m" "same_data (?us(a \<mapsto> m)) s1 s'"
    using carve_returns [OF ab(2,5,6), of ?n] c(2) ab(4) by auto
  have d: "same_data ?us s s1" by (rule headers_data [OF I(1) ab(3) used_le])
  from ab(1) obtain sa ka sb hb where "uheap_remove_free ?c s = Some sa" "get_hdr ?c sa = Some ka"
    "put_hdr ?c (ka\<lparr>uh_magic := 0\<rparr>) sa = Some sb" "get_hdr a sb = Some hb" "put_hdr a (hb\<lparr>uh_size := ?m\<rparr>) sb = Some s1"
    by (auto simp: Option.bind_eq_Some_conv)
  then have run: "realloc K (a + 24) sz s = Some (a + 24, s')"
    using sz h grow k fl fr noov c(2) cv(1) by (simp add: realloc_def e Let_def be)
  have data: "same_data (?us(a := None)) s s'"
    using same_data_mono [OF d used_less(2)] same_data_mono [OF cv(5) used_less(1)] by (rule same_data_trans)
  have "u_ram s' (a + 24 + i) = u_ram s (a + 24 + i)" if "i < n" for i
    using same_data_at [OF d a that] same_data_at [OF cv(5), of a m i] that grow cv(4) by simp
  then have "resized ?us a n ?n (a + 24) s s'"
    using resized_in_place [OF cv(2,3,4) _ _ a data, of n] grow cv(4) by simp
  then show ?thesis using run by auto
qed

lemma realloc_is_move:
  assumes inv: "heap_inv s blk fs" and a: "used blk fs a = Some n" and sz: "0 < sz" and grow: "n < uheap_align sz"
    and c: "a + 24 + n \<notin> set fs \<or> n + 24 + the (blk (a + 24 + n)) < uheap_align sz"
    and k: "get_hdr (a + 24 + n) s = Some k"
  shows "realloc K (a + 24) sz s = realloc_move K (a + 24) (uheap_align sz) s"
proof -
  let ?c = "a + 24 + n"
  note I = heap_invD [OF inv]
  have ba: "blk a = Some n" using a by (auto simp: used_def split: if_splits)
  have lt: "0 < a" "a + 24 + n < 2 ^ 63" using layout_block [OF I(1) ba] by simp_all
  then have n63: "n < 2 ^ 63" by simp
  have e: "hdr_of (a + 24) = a" using lt by (intro hdr_of_payload) simp
  obtain h where h: "get_hdr a s = Some h" "uh_size h = n" "uh_magic h = UHEAP_MAGIC" by (rule stored_hdr [OF I(2) ba])
  have be: "block_end a h = ?c" using block_end_eq [OF I(1), of a h] ba h(2) by simp
  have fl: "in_free_list ?c (u_list s) s = Some (?c \<in> set fs)"
    using in_free_list_eq [OF I(2,1,4), of ?c] I(5) by (simp add: chain_def)
  show ?thesis
  proof (cases "?c \<in> set fs")
    case True
    note fr = free_block_behind [OF inv True k]
    have "\<not> (2 ^ 64 - 1 - n + (2 ^ 64 - 24)) mod 2 ^ 64 < uh_size k"
    unfolding merge_bound [OF n63] using fr(3,4) lt by simp
    then show ?thesis using sz h grow k c True fl fr by (simp add: realloc_def e Let_def be)
  next
    case False
    then show ?thesis using sz h grow k fl by (simp add: realloc_def e Let_def be)
  qed
qed

lemma realloc_returns:
  assumes inv: "heap_inv s blk fs" and a: "used blk fs a = Some n" and K: "sbrk_ok K"
    and sz: "0 < sz" "sz \<le> 2 ^ 61" and room: "uheap_align sz \<le> n \<or> mapped s (a + 24 + n) 24"
  shows "\<exists>q s'. realloc K (a + 24) sz s = Some (q, s') \<and>
    (if q = 0 then heap_inv s' blk fs \<and> same_data (used blk fs) s s'
     else resized (used blk fs) a (min n (uheap_align sz)) (uheap_align sz) q s s')"
proof -
  let ?n = "uheap_align sz" and ?c = "a + 24 + n"
  have al: "sz \<le> ?n" "?n < sz + 16" by (rule uheap_align_bounds; use sz in simp)+
  consider "?n \<le> n" | "n < ?n" "?c \<in> set fs" "?n \<le> n + 24 + the (blk ?c)"
    | "n < ?n" "?c \<notin> set fs \<or> n + 24 + the (blk ?c) < ?n" by linarith
  then show ?thesis
  proof cases
    case 1
    obtain s' where "realloc K (a + 24) sz s = Some (a + 24, s')" "resized (used blk fs) a ?n ?n (a + 24) s s'"
      using realloc_shrinks [OF inv a sz(1) 1, of K] by blast
    moreover have "min n ?n = ?n" using 1 by simp
    ultimately show ?thesis by (intro exI [of _ "a + 24"] exI [of _ s']) simp
  next
    case 2
    obtain k where k: "get_hdr ?c s = Some k" using room 2(1) get_hdr_mapped [of s ?c] by auto
    obtain s' where "realloc K (a + 24) sz s = Some (a + 24, s')" "resized (used blk fs) a n ?n (a + 24) s s'"
      using realloc_absorbs [OF inv a sz(1) 2 k, of K] by blast
    moreover have "min n ?n = n" using 2(1) by simp
    ultimately show ?thesis by (intro exI [of _ "a + 24"] exI [of _ s']) simp
  next
    case 3
    obtain k where k: "get_hdr ?c s = Some k" using room 3(1) get_hdr_mapped [of s ?c] by auto
    have mn: "min n ?n = n" using 3(1) by simp
    show ?thesis
      unfolding realloc_is_move [OF inv a sz(1) 3 k] mn
      by (rule realloc_move_returns [OF inv a K]) (use 3(1) al sz in simp_all)
  qed
qed

lemma realloc_ok:
  assumes ok: "heap_ok s us" and p: "us p = Some n" and K: "sbrk_ok K" and sz: "0 < sz" "sz \<le> 2 ^ 61"
    and room: "uheap_align sz \<le> n \<or> mapped s (p + n) 24"
  shows "\<exists>q s'. realloc K p sz s = Some (q, s') \<and> same_bytes (us(p := None)) s s' \<and>
    (if q = 0 then heap_ok s' us \<and> same_bytes us s s'
     else (q = p \<or> us q = None) \<and> (\<exists>m. sz \<le> m \<and> heap_ok s' (us(p := None, q \<mapsto> m))) \<and>
       (\<forall>i. i < n \<and> i < sz \<longrightarrow> u_ram s' (q + i) = u_ram s (p + i)))"
proof -
  obtain blk fs where inv: "heap_inv s blk fs" and us: "us = payloads (used blk fs)"
    using ok by (auto simp: heap_ok_def)
  obtain a where a: "p = a + 24" "used blk fs a = Some n" using p by (auto simp: us payloads_Some)
  have al: "sz \<le> uheap_align sz" by (rule uheap_align_bounds) (use sz in simp)
  obtain q s' where r: "realloc K p sz s = Some (q, s')"
    "if q = 0 then heap_inv s' blk fs \<and> same_data (used blk fs) s s'
     else resized (used blk fs) a (min n (uheap_align sz)) (uheap_align sz) q s s'"
    using realloc_returns [OF inv a(2) K sz] room unfolding a(1) by blast
  have u: "us(p := None) = payloads ((used blk fs)(a := None))" by (simp add: us payloads_upd a(1))
  show ?thesis
  proof (cases "q = 0")
    case True
    then have h: "heap_ok s' us" "same_data (used blk fs) s s'" using r(2) heap_ok_intro [of s' blk fs] by (simp_all add: us)
    have "same_data ((used blk fs)(a := None)) s s'" using h(2) by (rule same_data_mono) (auto simp: map_le_def)
    then show ?thesis using r(1) h True same_data_bytes [of _ s s'] unfolding u by (auto simp: us)
  next
    case False
    then obtain b m blk' fs' where b: "q = b + 24" "b = a \<or> used blk fs b = None" "uheap_align sz \<le> m" "heap_inv s' blk' fs'"
      "used blk' fs' = ((used blk fs)(a := None))(b \<mapsto> m)" "same_data ((used blk fs)(a := None)) s s'"
      "\<forall>i<min n (uheap_align sz). u_ram s' (q + i) = u_ram s (a + 24 + i)"
      using r(2) by (auto simp: resized_def)
    have "heap_ok s' (us(p := None, q \<mapsto> m))"
      using heap_ok_intro [OF b(4,5)] unfolding u payloads_upd b(1) by simp
    then have "\<exists>m. sz \<le> m \<and> heap_ok s' (us(p := None, q \<mapsto> m))" using b(3) al le_trans by blast
    moreover have "q = p \<or> us q = None" using b(1,2) a(1) by (auto simp: us)
    moreover have "same_bytes (us(p := None)) s s'" unfolding u by (rule same_data_bytes [OF b(6)])
    moreover have "\<forall>i. i < n \<and> i < sz \<longrightarrow> u_ram s' (q + i) = u_ram s (p + i)" using b(7) al a(1) by simp
    ultimately show ?thesis using r(1) False by auto
  qed
qed

text \<open>A block at the end of what is mapped cannot grow: the code looks for a header behind it.\<close>

lemma realloc_at_end:
  assumes ok: "heap_ok s us" and p: "us p = Some n" and sz: "0 < sz" "n < uheap_align sz" and e: "u_ram s (p + n) = None"
  shows "realloc K p sz s = None"
proof -
  obtain blk fs where inv: "heap_inv s blk fs" and us: "us = payloads (used blk fs)"
    using ok by (auto simp: heap_ok_def)
  obtain a where a: "p = a + 24" "used blk fs a = Some n" using p by (auto simp: us payloads_Some)
  then have b: "blk a = Some n" by (auto simp: used_def split: if_splits)
  note I = heap_invD [OF inv]
  obtain h where h: "get_hdr a s = Some h" "uh_size h = n" "uh_magic h = UHEAP_MAGIC" by (rule stored_hdr [OF I(2) b])
  have lt: "a + 24 + n < 2 ^ 63" using layout_block [OF I(1) b] by simp
  have e1: "hdr_of (a + 24) = a" using lt by (intro hdr_of_payload) simp
  have e2: "block_end a h = p + n" using block_end_eq [OF I(1), of a h] b h(2) a(1) by simp
  have "get_hdr (p + n) s = None"
  proof (cases "get_hdr (p + n) s")
    case (Some k)
    then obtain bs where "ram_rd (u_ram s) (p + n) 24 = Some bs" by (auto simp: get_hdr_def)
    then have "u_ram s (p + n + 0) = Some (bs ! 0)" unfolding ram_rd_Some by fastforce
    with e show ?thesis by simp
  qed
  then show ?thesis using h sz by (simp add: realloc_def a(1) e1 Let_def) (simp add: e2 [unfolded a(1)] a(1))
qed

text \<open>The round-up of a size near the end of \<open>size_t\<close> wraps to 0, and the first free block is taken for it.\<close>

lemma uheap_align_wraps: "2 ^ 64 \<le> sz + 15 \<Longrightarrow> sz < 2 ^ 64 \<Longrightarrow> uheap_align sz = 0"
proof -
  assume sz: "2 ^ 64 \<le> sz + 15" "sz < 2 ^ 64"
  then have "(sz + 15) mod 2 ^ 64 = sz + 15 - 2 ^ 64" by (subst le_mod_geq) simp_all
  then show ?thesis using sz by (simp add: uheap_align_eq)
qed

lemma malloc_wraps:
  assumes ok: "heap_ok s us" "u_list s \<noteq> 0" and sz: "2 ^ 64 \<le> sz + 15" "sz < 2 ^ 64"
  shows "\<exists>p n s'. malloc K sz s = Some (p, s') \<and> p \<noteq> 0 \<and> n < 56 \<and> heap_ok s' (us(p \<mapsto> n))"
proof -
  obtain blk fs where inv: "heap_inv s blk fs" and us: "us = payloads (used blk fs)"
    using ok(1) by (auto simp: heap_ok_def)
  note I = heap_invD [OF inv]
  have a: "uheap_align sz = 0" by (rule uheap_align_wraps [OF sz])
  have u: "u_list s = hd (fs @ [0])" using I(5) by (simp add: chain_def)
  obtain c ys where fs: "fs = c # ys" using ok(2) u by (cases fs) auto
  obtain r s' where r: "first_fit 0 (u_list s) 0 s = Some (r, s')"
    "case r of None \<Rightarrow> s' = s \<and> (\<forall>a\<in>set fs. the (blk a) < 0) | Some p \<Rightarrow> alloc_post (used blk fs) 0 p s s'"
    using first_fit_returns [of s blk "[]" fs 0, unfolded append_Nil] inv u by auto
  then obtain p where p: "r = Some p" "alloc_post (used blk fs) 0 p s s'" by (cases r) (auto simp: fs)
  note A = alloc_post_ok [OF p(2)]
  obtain n where "n < 56" "heap_ok s' (us(p \<mapsto> n))" using A(4) us by auto
  moreover have "malloc K sz s = Some (p, s')" using sz r(1) p(1) a by (auto simp: malloc_def)
  ultimately show ?thesis using A(1) by blast
qed

section \<open>A heap to run on\<close>

text \<open>A kernel that hands out memory from the address it keeps.\<close>

definition bump_sbrk :: "nat sbrk" where
  "bump_sbrk inc m w =
     (if 0 < inc \<and> 0 < w \<and> int w + inc < 2 ^ 63 \<and> list_all (\<lambda>x. m x = None) [w..<w + nat inc]
      then (int w, ram_upd w (replicate (nat inc) 0) m, w + nat inc) else (-12, m, w))"

lemma bump_sbrk_ok: "sbrk_ok bump_sbrk"
  unfolding sbrk_ok_def bump_sbrk_def
  by (auto simp: ram_upd_def list_all_iff nat_add_distrib split: if_splits)

definition heap0 :: "nat uheap" where
  "heap0 = \<lparr>u_ram = \<lambda>_. None, u_list = 0, u_os = 4096\<rparr>"

lemma heap0_inv: "heap_inv heap0 (\<lambda>_. None) []"
  by (simp add: heap_inv_def layout_def stored_def chain_def heap0_def)

lemma heap0_ok: "heap_ok heap0 (\<lambda>_. None)"
  using heap0_inv by (auto simp: heap_ok_def payloads_def used_def fun_eq_iff)

text \<open>After one allocation of 100 bytes.\<close>

definition heap1 :: "nat uheap" where
  "heap1 = (let m = ram_upd 4096 (replicate 144 0) (\<lambda>_. None)
     in upd_hdr 4096 \<lparr>uh_size = 120, uh_next = 0, uh_magic = UHEAP_MAGIC, uh_free = 0\<rparr>
          \<lparr>u_ram = m, u_list = 0, u_os = 4240\<rparr>)"

lemma heap1_eq: "malloc bump_sbrk 100 heap0 = Some (4120, heap1)"
proof -
  let ?h = "\<lparr>uh_size = 120, uh_next = 0, uh_magic = UHEAP_MAGIC, uh_free = 0\<rparr>"
  let ?s = "\<lparr>u_ram = ram_upd 4096 (replicate 144 0) (\<lambda>_. None), u_list = 0, u_os = 4240 :: nat\<rparr>"
  have m: "mapped ?s 4096 24" by (auto simp: mapped_def ram_upd_def domIff)
  have al: "uheap_align 100 = 112" "uheap_align 136 = 144" by (simp_all add: uheap_align_eq)
  have f: "first_fit 0 0 112 heap0 = Some (None, heap0)" by (subst first_fit.simps) simp
  have sb: "sbrk bump_sbrk 144 heap0 = (4096, ?s)"
    by (simp add: sbrk_def bump_sbrk_def heap0_def list_all_iff)
  have "uheap_request_from_kernel bump_sbrk 112 heap0 = Some (4096, upd_hdr 4096 ?h ?s)"
    by (simp add: uheap_request_from_kernel_def al sb put_hdr_mapped [OF m])
  moreover have "fits ?h" by (simp add: fits_def)
  then have "uheap_split_if_needed 4096 112 (upd_hdr 4096 ?h ?s) = Some (upd_hdr 4096 ?h ?s)"
    by (simp add: uheap_split_if_needed_def get_upd_same)
  moreover have "u_list heap0 = 0" by (simp add: heap0_def)
  ultimately show ?thesis by (simp add: malloc_def al f heap1_def)
qed

lemma heap1_ok:
  obtains n where "100 \<le> n" "heap_ok heap1 [4120 \<mapsto> n]"
  using malloc_ok [OF heap0_ok bump_sbrk_ok, of 100] by (auto simp: heap1_eq)

section \<open>The interface of an allocator\<close>

text \<open>Allocating a list of sizes and giving back a list of pointers, one after the other.\<close>

fun alloc_all :: "(nat \<Rightarrow> 's \<Rightarrow> (nat \<times> 's) option) \<Rightarrow> nat list \<Rightarrow> 's \<Rightarrow> (nat list \<times> 's) option" where
  "alloc_all alloc [] s = Some ([], s)"
| "alloc_all alloc (n # ns) s = do {
     (p, s) \<leftarrow> alloc n s;
     (ps, s) \<leftarrow> alloc_all alloc ns s;
     Some (p # ps, s)
   }"

fun release_all :: "(nat \<Rightarrow> 's \<Rightarrow> (unit \<times> 's) option) \<Rightarrow> nat list \<Rightarrow> 's \<Rightarrow> 's option" where
  "release_all release [] s = Some s"
| "release_all release (p # ps) s = do { (_, s) \<leftarrow> release p s; release_all release ps s }"

definition given :: "nat list \<Rightarrow> nat list" where
  "given ps = filter (\<lambda>p. p \<noteq> 0) ps"

lemma map_le_same_dom: "us \<subseteq>\<^sub>m us' \<Longrightarrow> dom us' = dom us \<Longrightarrow> us' = us"
  by (rule map_le_antisym) (auto simp: map_le_def)

locale allocator =
  fixes inv :: "'s \<Rightarrow> (nat \<Rightarrow> nat option) \<Rightarrow> bool"
    and alloc :: "nat \<Rightarrow> 's \<Rightarrow> (nat \<times> 's) option"
    and release :: "nat \<Rightarrow> 's \<Rightarrow> (unit \<times> 's) option"
    and most :: nat
  assumes alloc_law: "inv s us \<Longrightarrow> 0 < n \<Longrightarrow> n \<le> most \<Longrightarrow> \<exists>p s'. alloc n s = Some (p, s') \<and>
      (if p = 0 then inv s' us else us p = None \<and> (\<exists>m. n \<le> m \<and> inv s' (us(p \<mapsto> m))))"
    and release_law: "inv s us \<Longrightarrow> us p = Some n \<Longrightarrow> \<exists>s'. release p s = Some ((), s') \<and> inv s' (us(p := None))"
begin

lemma alloc_all_returns:
  "inv s us \<Longrightarrow> \<forall>n\<in>set ns. 0 < n \<and> n \<le> most \<Longrightarrow>
   \<exists>ps s' us'. alloc_all alloc ns s = Some (ps, s') \<and> inv s' us' \<and> length ps = length ns \<and> distinct (given ps) \<and>
     dom us' = dom us \<union> set (given ps) \<and> dom us \<inter> set (given ps) = {} \<and> us \<subseteq>\<^sub>m us'"
proof (induction ns arbitrary: s us)
  case Nil
  then show ?case by (auto simp: given_def)
next
  case (Cons n ns)
  then obtain p s1 where p: "alloc n s = Some (p, s1)"
    "if p = 0 then inv s1 us else us p = None \<and> (\<exists>m. n \<le> m \<and> inv s1 (us(p \<mapsto> m)))"
    using alloc_law [of s us n] by auto
  have "\<exists>us1. inv s1 us1 \<and> dom us1 = dom us \<union> set (given [p]) \<and> dom us \<inter> set (given [p]) = {} \<and> us \<subseteq>\<^sub>m us1"
  proof (cases "p = 0")
    case True
    then show ?thesis using p(2) by (auto simp: given_def)
  next
    case False
    then obtain m where "us p = None" "inv s1 (us(p \<mapsto> m))" using p(2) by auto
    then show ?thesis using False
      by (intro exI [of _ "us(p \<mapsto> m)"]) (auto simp: given_def map_le_def domIff)
  qed
  then obtain us1 where us1: "inv s1 us1" "dom us1 = dom us \<union> set (given [p])" "dom us \<inter> set (given [p]) = {}" "us \<subseteq>\<^sub>m us1"
    by blast
  obtain ps s' us' where r: "alloc_all alloc ns s1 = Some (ps, s')" "inv s' us'" "length ps = length ns" "distinct (given ps)"
    "dom us' = dom us1 \<union> set (given ps)" "dom us1 \<inter> set (given ps) = {}" "us1 \<subseteq>\<^sub>m us'"
    using Cons.IH [OF us1(1)] Cons.prems(2) by auto
  have g: "given (p # ps) = given [p] @ given ps" by (simp add: given_def)
  have "distinct (given (p # ps))" unfolding g using r(4,6) us1(2) by (auto simp: given_def)
  moreover have "dom us' = dom us \<union> set (given (p # ps))" "dom us \<inter> set (given (p # ps)) = {}"
    unfolding g using r(5,6) us1(2,3) by auto
  moreover have "us \<subseteq>\<^sub>m us'" using us1(4) r(7) by (rule map_le_trans)
  ultimately show ?case using p(1) r(1,2,3) by auto
qed

lemma release_all_returns:
  "inv s us' \<Longrightarrow> distinct qs \<Longrightarrow> dom us' = dom us \<union> set qs \<Longrightarrow> dom us \<inter> set qs = {} \<Longrightarrow> us \<subseteq>\<^sub>m us' \<Longrightarrow>
   \<exists>s'. release_all release qs s = Some s' \<and> inv s' us"
proof (induction qs arbitrary: s us')
  case Nil
  have "us' = us" by (rule map_le_same_dom) (use Nil in simp_all)
  then show ?case using Nil by simp
next
  case (Cons q qs)
  obtain n where n: "us' q = Some n" using Cons.prems(3) by (metis UnCI domD list.set_intros(1))
  obtain s1 where s1: "release q s = Some ((), s1)" "inv s1 (us'(q := None))"
    using release_law [OF Cons.prems(1) n] by blast
  have "dom (us'(q := None)) = dom us \<union> set qs" using Cons.prems(2,3,4) by auto
  moreover have "us \<subseteq>\<^sub>m us'(q := None)" using Cons.prems(4,5) by (auto simp: map_le_def)
  moreover have "distinct qs" "dom us \<inter> set qs = {}" using Cons.prems(2,4) by auto
  ultimately have "\<exists>s'. release_all release qs s1 = Some s' \<and> inv s' us" by (intro Cons.IH [OF s1(2)])
  then show ?case using s1(1) by simp
qed

text \<open>Whatever was given out can be given back, in any order, and then the same is in use as before.\<close>

lemma alloc_release:
  assumes "inv s us" "\<forall>n\<in>set ns. 0 < n \<and> n \<le> most"
  shows "\<exists>ps s'. alloc_all alloc ns s = Some (ps, s') \<and> length ps = length ns \<and> distinct (given ps) \<and>
    dom us \<inter> set (given ps) = {} \<and>
    (\<forall>qs. distinct qs \<and> set qs = set (given ps) \<longrightarrow> (\<exists>s''. release_all release qs s' = Some s'' \<and> inv s'' us))"
proof -
  obtain ps s' us' where r: "alloc_all alloc ns s = Some (ps, s')" "inv s' us'" "length ps = length ns" "distinct (given ps)"
    "dom us' = dom us \<union> set (given ps)" "dom us \<inter> set (given ps) = {}" "us \<subseteq>\<^sub>m us'"
    using alloc_all_returns [OF assms] by blast
  have "\<exists>s''. release_all release qs s' = Some s'' \<and> inv s'' us" if "distinct qs" "set qs = set (given ps)" for qs
    using release_all_returns [OF r(2) that(1), of us] r(5,6,7) that(2) by simp
  with r show ?thesis by blast
qed

end

text \<open>The heap of the C library is one, on every kernel that keeps to its side.\<close>

definition malloc_in :: "nat \<Rightarrow> 'w sbrk \<times> 'w uheap \<Rightarrow> (nat \<times> 'w sbrk \<times> 'w uheap) option" where
  "malloc_in n = (\<lambda>(K, s). map_option (\<lambda>(p, s). (p, K, s)) (malloc K n s))"

definition free_in :: "nat \<Rightarrow> 'w sbrk \<times> 'w uheap \<Rightarrow> (unit \<times> 'w sbrk \<times> 'w uheap) option" where
  "free_in p = (\<lambda>(K, s). map_option (\<lambda>(u, s). (u, K, s)) (free p s))"

definition heap_in :: "'w sbrk \<times> 'w uheap \<Rightarrow> (nat \<Rightarrow> nat option) \<Rightarrow> bool" where
  "heap_in = (\<lambda>(K, s) us. sbrk_ok K \<and> heap_ok s us)"

interpretation uheap: allocator heap_in malloc_in free_in "2 ^ 62"
proof
  fix s :: "'w sbrk \<times> 'w uheap" and us :: "nat \<Rightarrow> nat option" and n :: nat
  assume s: "heap_in s us" "0 < n" "n \<le> 2 ^ 62"
  obtain K t where st: "s = (K, t)" by (cases s)
  obtain p t' where "malloc K n t = Some (p, t')"
    "if p = 0 then heap_ok t' us else us p = None \<and> (\<exists>m. n \<le> m \<and> m < n + 72 \<and> heap_ok t' (us(p \<mapsto> m)))"
    using malloc_ok [of t us K n] s by (auto simp: heap_in_def st)
  then show "\<exists>p s'. malloc_in n s = Some (p, s') \<and>
      (if p = 0 then heap_in s' us else us p = None \<and> (\<exists>m. n \<le> m \<and> heap_in s' (us(p \<mapsto> m))))"
    using s(1) by (intro exI [of _ p] exI [of _ "(K, t')"]) (auto simp: malloc_in_def heap_in_def st)
next
  fix s :: "'w sbrk \<times> 'w uheap" and us :: "nat \<Rightarrow> nat option" and p n :: nat
  assume s: "heap_in s us" "us p = Some n"
  obtain K t where st: "s = (K, t)" by (cases s)
  obtain t' where "free p t = Some ((), t')" "heap_ok t' (us(p := None))"
    using free_ok [of t us p n] s by (auto simp: heap_in_def st)
  then show "\<exists>s'. free_in p s = Some ((), s') \<and> heap_in s' (us(p := None))"
    using s(1) by (intro exI [of _ "(K, t')"]) (auto simp: free_in_def heap_in_def st)
qed

end
