(* ===== verification/Syscalls.thy ===== *)
theory Syscalls
  imports Libc_Number
begin

text \<open>
  The process, environment and file wrappers of \<open>include/libc.h\<close> that the daemon does not use. Each hands its arguments to
  the kernel under a number and takes the result: as it is, or, for those of the POSIX kind, turned into -1 with \<open>errno\<close>
  set. The kernel is the parameter \<open>K\<close>: from the number, the arguments and its state it gives a result, the bytes it writes
  into the buffers that are passed for output, and a state. \<open>setenv\<close> does more: it puts the pair together first.
\<close>

section \<open>Model: calling the kernel\<close>

text \<open>
  Numbers, pointers to what the kernel reads, pointers to what it writes, and pointers to arrays of strings that end with
  a null pointer; a null pointer is \<open>None\<close>. The address of code, or of an object of the kernel, is a number.
\<close>

datatype sysarg = Num int | In "u8 list option" | Out "u8 list option" | Strings "u8 list list option"

type_synonym 'w syscalls = "nat \<Rightarrow> sysarg list \<Rightarrow> 'w \<Rightarrow> (u64 \<times> u8 list list) \<times> 'w"

record 'w uproc =
  up_errno :: int
  up_os :: 'w

text \<open>Error codes, and the numbers of the calls.\<close>

definition E2BIG :: int where "E2BIG = 7"
definition ENOMEM :: int where "ENOMEM = 12"
definition EINVAL :: int where "EINVAL = 22"

definition SYS_FORK :: nat where [simp]: "SYS_FORK = 1"
definition SYS_READ :: nat where [simp]: "SYS_READ = 2"
definition SYS_OPEN :: nat where [simp]: "SYS_OPEN = 4"
definition SYS_CLOSE :: nat where [simp]: "SYS_CLOSE = 5"
definition SYS_WAIT :: nat where [simp]: "SYS_WAIT = 6"
definition SYS_EXEC :: nat where [simp]: "SYS_EXEC = 7"
definition SYS_WAITX :: nat where [simp]: "SYS_WAITX = 42"
definition SYS_EXECVE :: nat where [simp]: "SYS_EXECVE = 43"
definition SYS_PUTENV :: nat where [simp]: "SYS_PUTENV = 44"
definition SYS_GETENV :: nat where [simp]: "SYS_GETENV = 45"
definition SYS_ENVLIST :: nat where [simp]: "SYS_ENVLIST = 46"
definition SYS_ENVLIST2 :: nat where [simp]: "SYS_ENVLIST2 = 47"
definition SYS_UNSETENV :: nat where [simp]: "SYS_UNSETENV = 48"
definition SYS_PROCLIST :: nat where [simp]: "SYS_PROCLIST = 49"
definition SYS_PIDINFO :: nat where [simp]: "SYS_PIDINFO = 50"
definition SYS_GETPID :: nat where [simp]: "SYS_GETPID = 8"
definition SYS_GETPPID :: nat where [simp]: "SYS_GETPPID = 9"
definition SYS_KILL :: nat where [simp]: "SYS_KILL = 15"
definition SYS_CHDIR :: nat where [simp]: "SYS_CHDIR = 17"
definition SYS_GETCWD :: nat where [simp]: "SYS_GETCWD = 18"
definition SYS_STAT :: nat where [simp]: "SYS_STAT = 19"
definition SYS_MKDIR :: nat where [simp]: "SYS_MKDIR = 20"
definition SYS_RMDIR :: nat where [simp]: "SYS_RMDIR = 21"
definition SYS_UNLINK :: nat where [simp]: "SYS_UNLINK = 22"
definition SYS_LSEEK :: nat where [simp]: "SYS_LSEEK = 23"
definition SYS_WRITEFILE :: nat where [simp]: "SYS_WRITEFILE = 24"
definition SYS_INPUT :: nat where [simp]: "SYS_INPUT = 28"
definition SYS_VFS_MKFS :: nat where [simp]: "SYS_VFS_MKFS = 36"
definition SYS_VFS_GETPART :: nat where [simp]: "SYS_VFS_GETPART = 37"
definition SYS_VFS_MBRINIT :: nat where [simp]: "SYS_VFS_MBRINIT = 41"
definition SYS_GETUID :: nat where [simp]: "SYS_GETUID = 33"
definition SYS_SETUID :: nat where [simp]: "SYS_SETUID = 34"
definition SYS_DEV_MMAP :: nat where [simp]: "SYS_DEV_MMAP = 51"
definition SYS_FS_TRACE :: nat where [simp]: "SYS_FS_TRACE = 55"
definition SYS_OPENDIR :: nat where [simp]: "SYS_OPENDIR = 56"
definition SYS_READDIR :: nat where [simp]: "SYS_READDIR = 57"
definition SYS_CLOSEDIR :: nat where [simp]: "SYS_CLOSEDIR = 58"
definition SYS_INVOKE :: nat where [simp]: "SYS_INVOKE = 71"
definition SYS_MOUNT :: nat where [simp]: "SYS_MOUNT = 65"
definition SYS_UNMOUNT :: nat where [simp]: "SYS_UNMOUNT = 66"
definition SYS_MOUNTS :: nat where [simp]: "SYS_MOUNTS = 67"
definition SYS_DUP :: nat where [simp]: "SYS_DUP = 68"
definition SYS_DUP2 :: nat where [simp]: "SYS_DUP2 = 69"
definition SYS_PIPE :: nat where [simp]: "SYS_PIPE = 70"
definition SYS_GETGID :: nat where [simp]: "SYS_GETGID = 72"
definition SYS_SETGID :: nat where [simp]: "SYS_SETGID = 73"
definition SYS_GETEUID :: nat where [simp]: "SYS_GETEUID = 74"
definition SYS_GETEGID :: nat where [simp]: "SYS_GETEGID = 75"
definition SYS_SIGNAL :: nat where [simp]: "SYS_SIGNAL = 87"
definition SYS_RAISE :: nat where [simp]: "SYS_RAISE = 88"
definition SYS_FD_INJECT :: nat where [simp]: "SYS_FD_INJECT = 90"

text \<open>The output buffers behind the call; a write past the end of one is undefined.\<close>

fun fill_outs :: "sysarg list \<Rightarrow> u8 list list \<Rightarrow> u8 list option list option" where
  "fill_outs [] outs = Some []"
| "fill_outs (Out None # as) outs = map_option ((#) None) (fill_outs as (tl outs))"
| "fill_outs (Out (Some buf) # as) outs = do {
     buf \<leftarrow> wr 0 (if outs = [] then [] else hd outs) buf;
     map_option ((#) (Some buf)) (fill_outs as (tl outs))
   }"
| "fill_outs (_ # as) outs = fill_outs as outs"

definition syscall ::
  "'w syscalls \<Rightarrow> nat \<Rightarrow> sysarg list \<Rightarrow> 'w uproc \<Rightarrow> ((u64 \<times> u8 list option list) \<times> 'w uproc) option" where
  "syscall K num as s =
     (case K num as (up_os s) of ((r, outs), w) \<Rightarrow> do {
        bufs \<leftarrow> fill_outs as outs;
        Some ((r, bufs), s\<lparr>up_os := w\<rparr>)
      })"

definition syscall4 ::
  "'w syscalls \<Rightarrow> nat \<Rightarrow> sysarg \<Rightarrow> sysarg \<Rightarrow> sysarg \<Rightarrow> sysarg \<Rightarrow> 'w uproc \<Rightarrow> ((u64 \<times> u8 list option list) \<times> 'w uproc) option"
where
  "syscall4 K num a b c d = syscall K num [a, b, c, d]"

definition syscall5 ::
  "'w syscalls \<Rightarrow> nat \<Rightarrow> sysarg \<Rightarrow> sysarg \<Rightarrow> sysarg \<Rightarrow> sysarg \<Rightarrow> sysarg \<Rightarrow> 'w uproc
     \<Rightarrow> ((u64 \<times> u8 list option list) \<times> 'w uproc) option" where
  "syscall5 K num a b c d e = syscall K num [a, b, c, d, e]"

text \<open>\<open>(int)syscall(...)\<close>, and the convention \<open>if (r < 0) { errno = (int)(-r); return -1; } return (int)r;\<close>.\<close>

definition to_int :: "u64 \<Rightarrow> int" where
  "to_int r = sint (ucast r :: u32)"

definition int_call ::
  "'w syscalls \<Rightarrow> nat \<Rightarrow> sysarg list \<Rightarrow> 'w uproc \<Rightarrow> ((int \<times> u8 list option list) \<times> 'w uproc) option" where
  "int_call K num as s = do {
     ((r, bufs), s) \<leftarrow> syscall K num as s;
     Some ((to_int r, bufs), s)
   }"

definition set_errno :: "u64 \<Rightarrow> 'w uproc \<Rightarrow> 'w uproc option" where
  "set_errno r s = (if sint r = - 9223372036854775808 then None else Some (s\<lparr>up_errno := to_int (- r)\<rparr>))"

definition errno_call ::
  "'w syscalls \<Rightarrow> nat \<Rightarrow> sysarg list \<Rightarrow> 'w uproc \<Rightarrow> ((int \<times> u8 list option list) \<times> 'w uproc) option" where
  "errno_call K num as s = do {
     ((r, bufs), s) \<leftarrow> syscall K num as s;
     if sint r < 0 then do { s \<leftarrow> set_errno r s; Some ((-1, bufs), s) }
     else Some ((to_int r, bufs), s)
   }"

text \<open>The same for calls without output buffers.\<close>

definition plain_call :: "'w syscalls \<Rightarrow> nat \<Rightarrow> sysarg list \<Rightarrow> 'w uproc \<Rightarrow> (int \<times> 'w uproc) option" where
  "plain_call K num as s = do { ((r, _), s) \<leftarrow> int_call K num as s; Some (r, s) }"

definition plain_errno :: "'w syscalls \<Rightarrow> nat \<Rightarrow> sysarg list \<Rightarrow> 'w uproc \<Rightarrow> (int \<times> 'w uproc) option" where
  "plain_errno K num as s = do { ((r, _), s) \<leftarrow> errno_call K num as s; Some (r, s) }"

section \<open>Model: processes and users\<close>

definition fork :: "'w syscalls \<Rightarrow> 'w uproc \<Rightarrow> (int \<times> 'w uproc) option" where
  "fork K = plain_errno K SYS_FORK []"

definition getpid :: "'w syscalls \<Rightarrow> 'w uproc \<Rightarrow> (int \<times> 'w uproc) option" where
  "getpid K = plain_call K SYS_GETPID []"

definition getppid :: "'w syscalls \<Rightarrow> 'w uproc \<Rightarrow> (int \<times> 'w uproc) option" where
  "getppid K = plain_call K SYS_GETPPID []"

text \<open>The status behind a pointer that may be null; of the options only \<open>WNOHANG\<close> gets through.\<close>

definition waitpid ::
  "'w syscalls \<Rightarrow> int \<Rightarrow> u8 list option \<Rightarrow> int \<Rightarrow> 'w uproc \<Rightarrow> ((int \<times> u8 list option list) \<times> 'w uproc) option" where
  "waitpid K pid status options =
     (let kopt = (if options AND 1 \<noteq> 0 then 0 OR 1 else 0)
      in errno_call K SYS_WAITX [Num pid, Out status, Num kopt])"

definition wait ::
  "'w syscalls \<Rightarrow> u8 list option \<Rightarrow> 'w uproc \<Rightarrow> ((int \<times> u8 list option list) \<times> 'w uproc) option" where
  "wait K status = errno_call K SYS_WAIT [Out status]"

definition getuid :: "'w syscalls \<Rightarrow> 'w uproc \<Rightarrow> (int \<times> 'w uproc) option" where
  "getuid K = plain_call K SYS_GETUID []"

definition setuid :: "'w syscalls \<Rightarrow> int \<Rightarrow> 'w uproc \<Rightarrow> (int \<times> 'w uproc) option" where
  "setuid K uid = plain_call K SYS_SETUID [Num uid]"

definition geteuid :: "'w syscalls \<Rightarrow> 'w uproc \<Rightarrow> (int \<times> 'w uproc) option" where
  "geteuid K = plain_call K SYS_GETEUID []"

definition getgid :: "'w syscalls \<Rightarrow> 'w uproc \<Rightarrow> (int \<times> 'w uproc) option" where
  "getgid K = plain_call K SYS_GETGID []"

definition getegid :: "'w syscalls \<Rightarrow> 'w uproc \<Rightarrow> (int \<times> 'w uproc) option" where
  "getegid K = plain_call K SYS_GETEGID []"

definition setgid :: "'w syscalls \<Rightarrow> int \<Rightarrow> 'w uproc \<Rightarrow> (int \<times> 'w uproc) option" where
  "setgid K gid = plain_call K SYS_SETGID [Num gid]"

definition kill :: "'w syscalls \<Rightarrow> int \<Rightarrow> int \<Rightarrow> 'w uproc \<Rightarrow> (int \<times> 'w uproc) option" where
  "kill K pid sig = plain_call K SYS_KILL [Num pid, Num sig]"

definition raise_signal :: "'w syscalls \<Rightarrow> int \<Rightarrow> 'w uproc \<Rightarrow> (int \<times> 'w uproc) option" where
  "raise_signal K sig = plain_call K SYS_RAISE [Num sig]"

text \<open>
  Another program in this process: \<open>exec\<close> and \<open>execve\<close> return only if the kernel does, so their results are those of a
  failure. A handler is an address.
\<close>

definition exec :: "'w syscalls \<Rightarrow> u8 list option \<Rightarrow> 'w uproc \<Rightarrow> (unit \<times> 'w uproc) option" where
  "exec K str s = do { (_, s) \<leftarrow> syscall K SYS_EXEC [In str] s; Some ((), s) }"

definition execve ::
  "'w syscalls \<Rightarrow> u8 list option \<Rightarrow> u8 list list option \<Rightarrow> u8 list list option \<Rightarrow> 'w uproc \<Rightarrow> (int \<times> 'w uproc) option" where
  "execve K path argv envp = plain_errno K SYS_EXECVE [In path, Strings argv, Strings envp]"

definition signal :: "'w syscalls \<Rightarrow> int \<Rightarrow> u64 \<Rightarrow> 'w uproc \<Rightarrow> (u64 \<times> 'w uproc) option" where
  "signal K signum handler s = do { ((r, _), s) \<leftarrow> syscall K SYS_SIGNAL [Num signum, Num (sint handler)] s; Some (r, s) }"

definition fd_inject :: "'w syscalls \<Rightarrow> int \<Rightarrow> int \<Rightarrow> u64 \<Rightarrow> 'w uproc \<Rightarrow> (int \<times> 'w uproc) option" where
  "fd_inject K pid fd fd_obj = plain_call K SYS_FD_INJECT [Num pid, Num fd, Num (sint fd_obj)]"

section \<open>Model: descriptors, directories and mounts\<close>

definition dup :: "'w syscalls \<Rightarrow> int \<Rightarrow> 'w uproc \<Rightarrow> (int \<times> 'w uproc) option" where
  "dup K oldfd = plain_call K SYS_DUP [Num oldfd]"

definition dup2 :: "'w syscalls \<Rightarrow> int \<Rightarrow> int \<Rightarrow> 'w uproc \<Rightarrow> (int \<times> 'w uproc) option" where
  "dup2 K oldfd newfd = plain_call K SYS_DUP2 [Num oldfd, Num newfd]"

definition pipe ::
  "'w syscalls \<Rightarrow> u8 list \<Rightarrow> 'w uproc \<Rightarrow> ((int \<times> u8 list option list) \<times> 'w uproc) option" where
  "pipe K fds = int_call K SYS_PIPE [Out (Some fds)]"

definition file_lseek :: "'w syscalls \<Rightarrow> int \<Rightarrow> int \<Rightarrow> int \<Rightarrow> 'w uproc \<Rightarrow> (int \<times> 'w uproc) option" where
  "file_lseek K fd offset whence s = do {
     ((r, _), s) \<leftarrow> syscall K SYS_LSEEK [Num fd, Num offset, Num whence] s;
     Some (sint r, s)
   }"

definition opendir :: "'w syscalls \<Rightarrow> u8 list option \<Rightarrow> 'w uproc \<Rightarrow> (int \<times> 'w uproc) option" where
  "opendir K path = plain_call K SYS_OPENDIR [In path]"

definition closedir :: "'w syscalls \<Rightarrow> int \<Rightarrow> 'w uproc \<Rightarrow> (int \<times> 'w uproc) option" where
  "closedir K fd = plain_call K SYS_CLOSEDIR [Num fd]"

definition readdir ::
  "'w syscalls \<Rightarrow> int \<Rightarrow> u8 list option \<Rightarrow> nat \<Rightarrow> u8 list option \<Rightarrow> u8 list option \<Rightarrow> 'w uproc
     \<Rightarrow> ((int \<times> u8 list option list) \<times> 'w uproc) option" where
  "readdir K fd name_buf buf_size is_dir sz =
     int_call K SYS_READDIR [Num fd, Out name_buf, Num (int buf_size), Out is_dir, Out sz]"

definition chdir :: "'w syscalls \<Rightarrow> u8 list option \<Rightarrow> 'w uproc \<Rightarrow> (int \<times> 'w uproc) option" where
  "chdir K path = plain_call K SYS_CHDIR [In path]"

text \<open>The result is the pointer that the kernel returns.\<close>

definition getcwd ::
  "'w syscalls \<Rightarrow> u8 list option \<Rightarrow> nat \<Rightarrow> 'w uproc \<Rightarrow> ((u64 \<times> u8 list option list) \<times> 'w uproc) option" where
  "getcwd K buf sz = syscall K SYS_GETCWD [Out buf, Num (int sz)]"

definition mkdir :: "'w syscalls \<Rightarrow> u8 list option \<Rightarrow> 'w uproc \<Rightarrow> (int \<times> 'w uproc) option" where
  "mkdir K path = plain_call K SYS_MKDIR [In path]"

definition rmdir :: "'w syscalls \<Rightarrow> u8 list option \<Rightarrow> 'w uproc \<Rightarrow> (int \<times> 'w uproc) option" where
  "rmdir K path = plain_call K SYS_RMDIR [In path]"

definition unlink :: "'w syscalls \<Rightarrow> u8 list option \<Rightarrow> 'w uproc \<Rightarrow> (int \<times> 'w uproc) option" where
  "unlink K path = plain_call K SYS_UNLINK [In path]"

definition mount_drive :: "'w syscalls \<Rightarrow> int \<Rightarrow> u32 \<Rightarrow> int \<Rightarrow> 'w uproc \<Rightarrow> (int \<times> 'w uproc) option" where
  "mount_drive K vdrive_id partition_lba fs_type =
     plain_call K SYS_MOUNT [Num vdrive_id, Num (uint partition_lba), Num fs_type]"

definition unmount_slot :: "'w syscalls \<Rightarrow> int \<Rightarrow> 'w uproc \<Rightarrow> (int \<times> 'w uproc) option" where
  "unmount_slot K slot = plain_call K SYS_UNMOUNT [Num slot]"

text \<open>A request to the node behind a descriptor: what a client of the daemon calls.\<close>

definition invoke ::
  "'w syscalls \<Rightarrow> int \<Rightarrow> u8 list option \<Rightarrow> nat \<Rightarrow> u8 list option \<Rightarrow> nat \<Rightarrow> 'w uproc
     \<Rightarrow> ((int \<times> u8 list option list) \<times> 'w uproc) option" where
  "invoke K fd in_buf in_size out_buf out_size s = do {
     ((r, bufs), s) \<leftarrow> syscall5 K SYS_INVOKE (Num fd) (In in_buf) (Num (int in_size)) (Out out_buf) (Num (int out_size)) s;
     if sint r < 0 then do { s \<leftarrow> set_errno r s; Some ((-1, bufs), s) }
     else Some ((sint r, bufs), s)
   }"

section \<open>Model: volumes, processes and devices\<close>

text \<open>Structures are the bytes of their objects; their sizes are those of the 64-bit ABI.\<close>

definition stat_file ::
  "'w syscalls \<Rightarrow> u8 list option \<Rightarrow> u8 list option \<Rightarrow> 'w uproc \<Rightarrow> ((int \<times> u8 list option list) \<times> 'w uproc) option" where
  "stat_file K path out_info = int_call K SYS_STAT [In path, Out out_info, Num 272]"

definition vfs_mkfs :: "'w syscalls \<Rightarrow> u8 list option \<Rightarrow> 'w uproc \<Rightarrow> (int \<times> 'w uproc) option" where
  "vfs_mkfs K req = plain_call K SYS_VFS_MKFS [In req]"

definition vfs_getpart ::
  "'w syscalls \<Rightarrow> u8 list option \<Rightarrow> u8 list option \<Rightarrow> 'w uproc \<Rightarrow> ((int \<times> u8 list option list) \<times> 'w uproc) option" where
  "vfs_getpart K req out = int_call K SYS_VFS_GETPART [In req, Out out]"

definition vfs_mbrinit :: "'w syscalls \<Rightarrow> u8 list option \<Rightarrow> 'w uproc \<Rightarrow> (int \<times> 'w uproc) option" where
  "vfs_mbrinit K req = plain_call K SYS_VFS_MBRINIT [In req]"

definition list_mounts ::
  "'w syscalls \<Rightarrow> u8 list option \<Rightarrow> nat \<Rightarrow> 'w uproc \<Rightarrow> ((int \<times> u8 list option list) \<times> 'w uproc) option" where
  "list_mounts K buf max_entries = int_call K SYS_MOUNTS [Out buf, Num (int max_entries)]"

text \<open>The product of the count and the size of an entry is taken at 64 bits.\<close>

definition get_process_list ::
  "'w syscalls \<Rightarrow> u8 list option \<Rightarrow> u64 \<Rightarrow> 'w uproc \<Rightarrow> ((int \<times> u8 list option list) \<times> 'w uproc) option" where
  "get_process_list K out out_count = int_call K SYS_PROCLIST [Out out, Num (sint (out_count * 88))]"

definition md64api_get_pid_info ::
  "'w syscalls \<Rightarrow> u32 \<Rightarrow> u8 list option \<Rightarrow> 'w uproc \<Rightarrow> ((int \<times> u8 list option list) \<times> 'w uproc) option" where
  "md64api_get_pid_info K pid out = int_call K SYS_PIDINFO [Num (uint pid), Out out, Num 416]"

definition fs_trace_set :: "'w syscalls \<Rightarrow> int \<Rightarrow> 'w uproc \<Rightarrow> (int \<times> 'w uproc) option" where
  "fs_trace_set K enabled = plain_call K SYS_FS_TRACE [Num enabled]"

definition input_read ::
  "'w syscalls \<Rightarrow> u8 list option \<Rightarrow> nat \<Rightarrow> 'w uproc \<Rightarrow> ((int \<times> u8 list option list) \<times> 'w uproc) option" where
  "input_read K buf max_len s =
     (if buf = None \<or> max_len = 0 \<or> nat INT_MAX < max_len then Some ((-1, [buf]), s)
      else do {
        ((r, bufs), s) \<leftarrow> syscall K SYS_INPUT [Out buf, Num (int max_len)] s;
        Some ((sint r, bufs), s)
      })"

definition grp_device :: "u8 list" where
  "grp_device = map of_char ''$/dev/graphics/video0'' @ [0]"

definition md64api_grp_get_video0_info ::
  "'w syscalls \<Rightarrow> u8 list option \<Rightarrow> 'w uproc \<Rightarrow> ((int \<times> u8 list option) \<times> 'w uproc) option" where
  "md64api_grp_get_video0_info K out s =
     (if out = None then Some ((-1, out), s)
      else do {
        (fd, s) \<leftarrow> plain_call K SYS_OPEN [In (Some grp_device), Num 0, Num 0] s;
        if fd < 0 then Some ((-2, out), s)
        else do {
          ((r, bufs), s) \<leftarrow> syscall K SYS_READ [Num fd, Out out, Num 24] s;
          (_, s) \<leftarrow> plain_call K SYS_CLOSE [Num fd] s;
          Some ((if sint r = 24 then 0 else -3, hd bufs), s)
        }
      })"

text \<open>A mapping is an address; only the result -1 counts as a failure.\<close>

definition dev_mmap ::
  "'w syscalls \<Rightarrow> int \<Rightarrow> u64 \<Rightarrow> u64 \<Rightarrow> int \<Rightarrow> int \<Rightarrow> u64 \<Rightarrow> 'w uproc \<Rightarrow> (u64 \<times> 'w uproc) option" where
  "dev_mmap K fd hint len prot flags offset s = do {
     ((r, _), s) \<leftarrow> syscall K SYS_DEV_MMAP [Num fd, Num (sint hint), Num (sint len), Num prot, Num flags, Num (sint offset)] s;
     if r = -1 then Some (-1, s\<lparr>up_errno := ENOMEM\<rparr>) else Some (r, s)
   }"

section \<open>Model: the environment\<close>

text \<open>Calls that return 0 when the kernel's result is not negative.\<close>

definition zero_errno :: "'w syscalls \<Rightarrow> nat \<Rightarrow> sysarg list \<Rightarrow> 'w uproc \<Rightarrow> (int \<times> 'w uproc) option" where
  "zero_errno K num as s = do {
     ((r, _), s) \<leftarrow> syscall K num as s;
     if sint r < 0 then do { s \<leftarrow> set_errno r s; Some (-1, s) } else Some (0, s)
   }"

definition putenv :: "'w syscalls \<Rightarrow> u8 list option \<Rightarrow> 'w uproc \<Rightarrow> (int \<times> 'w uproc) option" where
  "putenv K kv = zero_errno K SYS_PUTENV [In kv]"

definition unsetenv :: "'w syscalls \<Rightarrow> u8 list option \<Rightarrow> 'w uproc \<Rightarrow> (int \<times> 'w uproc) option" where
  "unsetenv K key = zero_errno K SYS_UNSETENV [In key]"

text \<open>\<open>getenv\<close> returns a pointer to its static array, whose contents are argument and result, or null.\<close>

definition getenv ::
  "'w syscalls \<Rightarrow> u8 list option \<Rightarrow> u8 list \<Rightarrow> 'w uproc \<Rightarrow> ((u8 list option \<times> u8 list) \<times> 'w uproc) option" where
  "getenv K key buf s = do {
     ((r, bufs), s) \<leftarrow> syscall K SYS_GETENV [In key, Out (Some buf), Num 256] s;
     let buf = (case bufs of [Some b] \<Rightarrow> b | _ \<Rightarrow> buf);
     if sint r < 0 then do { s \<leftarrow> set_errno r s; Some ((None, buf), s) }
     else Some ((Some buf, buf), s)
   }"

definition envlist ::
  "'w syscalls \<Rightarrow> u8 list option \<Rightarrow> nat \<Rightarrow> 'w uproc \<Rightarrow> ((int \<times> u8 list option list) \<times> 'w uproc) option" where
  "envlist K buf buflen = errno_call K SYS_ENVLIST [Out buf, Num (int buflen)]"

definition envlist2 ::
  "'w syscalls \<Rightarrow> u8 list option \<Rightarrow> u8 list option \<Rightarrow> nat \<Rightarrow> 'w uproc
     \<Rightarrow> ((int \<times> u8 list option list) \<times> 'w uproc) option" where
  "envlist2 K offset buf buflen = errno_call K SYS_ENVLIST2 [Out offset, Out buf, Num (int buflen)]"

text \<open>\<open>kv\<close> is what the uninitialised array of 512 bytes holds.\<close>

definition setenv ::
  "'w syscalls \<Rightarrow> u8 list \<Rightarrow> u8 list option \<Rightarrow> u8 list option \<Rightarrow> 'w uproc \<Rightarrow> (int \<times> 'w uproc) option" where
  "setenv K kv key val s =
     (case (key, val) of
        (Some key, Some val) \<Rightarrow> do {
          klen \<leftarrow> strlen key;
          vlen \<leftarrow> strlen val;
          if 512 < klen + 1 + vlen + 1 then Some (-1, s\<lparr>up_errno := E2BIG\<rparr>)
          else do {
            k \<leftarrow> rd key 0 klen;
            kv \<leftarrow> wr 0 k kv;
            kv \<leftarrow> st8 klen 61 kv;
            v \<leftarrow> rd val 0 vlen;
            kv \<leftarrow> wr (klen + 1) v kv;
            kv \<leftarrow> st8 (klen + 1 + vlen) 0 kv;
            putenv K (Some kv) s
          }
        }
      | _ \<Rightarrow> Some (-1, s\<lparr>up_errno := EINVAL\<rparr>))"

section \<open>The error convention\<close>

lemma to_int_small:
  assumes "- 2147483648 \<le> sint r" "sint r < 2147483648"
  shows "to_int r = sint r"
proof -
  have "signed_take_bit 31 (uint r) = signed_take_bit 31 (sint r)" by (simp add: sint_uint)
  also have "\<dots> = sint r" using assms by (simp add: signed_take_bit_int_eq_self)
  finally show ?thesis by (simp add: to_int_def signed_ucast_eq)
qed

lemma sint_of_int_64: "sint (word_of_int x :: 64 word) = signed_take_bit 63 x" by (simp add: signed_of_int)

lemma sint_uminus_64: "sint (- (r :: 64 word)) = signed_take_bit 63 (- sint r)"
proof -
  have "- r = word_of_int (- sint r)" by simp
  then have "sint (- r) = sint (word_of_int (- sint r) :: 64 word)" by (rule arg_cong)
  then show ?thesis by (simp only: sint_of_int_64)
qed

text \<open>A failed call leaves the kernel's error code in \<open>errno\<close>.\<close>

lemma set_errno_code:
  assumes "- 2147483648 < sint r" "sint r < 0"
  shows "set_errno r s = Some (s\<lparr>up_errno := - sint r\<rparr>)"
proof -
  have "sint (- r) = - sint r"
    using assms by (simp only: sint_uminus_64) (simp add: signed_take_bit_int_eq_self)
  with assms show ?thesis using to_int_small [of "- r"] by (simp add: set_errno_def)
qed

section \<open>The environment\<close>

text \<open>The pair as \<open>setenv\<close> puts it together, and the sizes at which it refuses to.\<close>

lemma setenv_eq:
  assumes k: "cstr k key" and v: "cstr v val" and kv: "length kv = 512"
  shows "setenv K kv (Some key) (Some val) s =
    (if 510 < length k + length v then Some (-1, s\<lparr>up_errno := E2BIG\<rparr>)
     else putenv K (Some (k @ 61 # v @ 0 # drop (length k + length v + 2) kv)) s)"
proof (cases "510 < length k + length v")
  case True
  then show ?thesis using k v by (simp add: setenv_def strlen_cstr)
next
  case False
  have rk: "rd key 0 (length k) = Some k" and rv: "rd val 0 (length v) = Some v"
    using k v by (auto simp: rd_def cstr_def)
  let ?n = "length k" let ?m = "length v"
  have w1: "wr 0 k kv = Some (k @ drop ?n kv)" using False kv by (simp add: wr_def)
  have "drop ?n kv = kv ! ?n # drop (?n + 1) kv" using False kv by (simp add: Cons_nth_drop_Suc)
  then have w2: "st8 ?n 61 (k @ drop ?n kv) = Some (k @ 61 # drop (?n + 1) kv)"
    by (simp add: st8_def wr_def)
  have w3: "wr (?n + 1) v (k @ 61 # drop (?n + 1) kv) = Some (k @ 61 # v @ drop (?n + ?m + 1) kv)"
    using False kv by (simp add: wr_def add.commute)
  have w4: "st8 (?n + 1 + ?m) 0 (k @ 61 # v @ drop (?n + ?m + 1) kv) =
      Some (k @ 61 # v @ 0 # drop (?n + ?m + 2) kv)"
    using False kv by (simp add: st8_def wr_def)
  show ?thesis using k v False rk rv w1 w2 w3 w4 by (simp add: setenv_def strlen_cstr)
qed

text \<open>
  What the comments at the system call numbers say of the kernel's environment: \<open>SYS_PUTENV\<close> takes \<open>KEY=VALUE\<close> and returns
  0 or a negative code; \<open>SYS_GETENV\<close> writes the value into the buffer and returns its length or a negative code.
\<close>

definition env_kernel :: "'w syscalls \<Rightarrow> ('w \<Rightarrow> u8 list \<Rightarrow> u8 list option) \<Rightarrow> bool" where
  "env_kernel K env \<longleftrightarrow>
     (\<forall>p k v w r outs w'. cstr (k @ 61 # v) p \<longrightarrow> 61 \<notin> set k \<longrightarrow> K SYS_PUTENV [In (Some p)] w = ((r, outs), w') \<longrightarrow>
        env w' = (if sint r < 0 then env w else (env w)(k \<mapsto> v))) \<and>
     (\<forall>p k v b n w r outs w'. cstr k p \<longrightarrow> env w k = Some v \<longrightarrow> int (length v) < n \<longrightarrow> n \<le> 256 \<longrightarrow>
        K SYS_GETENV [In (Some p), Out (Some b), Num n] w = ((r, outs), w') \<longrightarrow>
        env w' = env w \<and> sint r = int (length v) \<and> outs = [v @ [0]])"

lemma env_kernel_get:
  assumes "env_kernel K env" "cstr k p" "env w k = Some v" "int (length v) < n" "n \<le> 256"
    "K SYS_GETENV [In (Some p), Out (Some b), Num n] w = ((r, outs), w')"
  shows "env w' = env w \<and> sint r = int (length v) \<and> outs = [v @ [0]]"
  using assms unfolding env_kernel_def by blast

lemma putenv_sets:
  assumes env: "env_kernel K env" and p: "cstr (k @ 61 # v) p" "61 \<notin> set k"
    and run: "putenv K (Some p) s = Some (0, s')"
  shows "env (up_os s') = (env (up_os s))(k \<mapsto> v)"
proof -
  obtain r outs w where c: "K SYS_PUTENV [In (Some p)] (up_os s) = ((r, outs), w)" by (metis surj_pair)
  with run have "\<not> sint r < 0" "s' = s\<lparr>up_os := w\<rparr>"
    by (auto simp: putenv_def zero_errno_def syscall_def elim!: run_bindE split: if_splits)
  moreover have "env w = (if sint r < 0 then env (up_os s) else (env (up_os s))(k \<mapsto> v))"
    using env p c unfolding env_kernel_def by blast
  ultimately show ?thesis by simp
qed

lemma getenv_gets:
  assumes env: "env_kernel K env" and p: "cstr k p" "env (up_os s) k = Some v" "length v < 256" "length buf = 256"
    and v: "0 \<notin> set v"
  obtains buf' s' where "getenv K (Some p) buf s = Some ((Some buf', buf'), s')" "cstr v buf'"
    "env (up_os s') = env (up_os s)"
proof -
  obtain r outs w where c: "K SYS_GETENV [In (Some p), Out (Some buf), Num 256] (up_os s) = ((r, outs), w)" by (metis surj_pair)
  have res: "env w = env (up_os s) \<and> sint r = int (length v) \<and> outs = [v @ [0]]"
    using env_kernel_get [OF env p(1,2) _ _ c] p(3) by simp
  have w: "wr 0 (v @ [0]) buf = Some (v @ 0 # drop (length v + 1) buf)" using p(3,4) by (simp add: wr_def)
  have "getenv K (Some p) buf s = Some ((Some (v @ 0 # drop (length v + 1) buf), v @ 0 # drop (length v + 1) buf),
      s\<lparr>up_os := w\<rparr>)"
    using c res w by (simp add: getenv_def syscall_def Let_def)
  then show ?thesis by (rule that) (use res v in \<open>simp_all add: cstr_def\<close>)
qed

text \<open>What \<open>setenv\<close> stored is what \<open>getenv\<close> finds.\<close>

lemma setenv_getenv:
  assumes env: "env_kernel K env" and k: "cstr k key" "61 \<notin> set k" and v: "cstr v val" "length v < 256"
    and bufs: "length kv = 512" "length buf = 256"
    and run: "setenv K kv (Some key) (Some val) s = Some (0, s1)"
  shows "\<exists>buf' s2. getenv K (Some key) buf s1 = Some ((Some buf', buf'), s2) \<and> cstr v buf'"
proof -
  have z: "0 \<notin> set k" "0 \<notin> set v" using k v by (auto simp: cstr_def)
  have put: "putenv K (Some (k @ 61 # v @ 0 # drop (length k + length v + 2) kv)) s = Some (0, s1)"
    using run setenv_eq [OF k(1) v(1) bufs(1), of K s] by (auto split: if_splits)
  moreover have "cstr (k @ 61 # v) (k @ 61 # v @ 0 # drop (length k + length v + 2) kv)"
    using z by (simp add: cstr_def)
  ultimately have "env (up_os s1) k = Some v" using putenv_sets [OF env _ k(2)] by simp
  then obtain buf' s2 where "getenv K (Some key) buf s1 = Some ((Some buf', buf'), s2)" "cstr v buf'"
    using getenv_gets [OF env k(1) _ v(2) bufs(2) z(2)] by metis
  then show ?thesis by blast
qed

section \<open>A kernel with an environment\<close>

definition text_at :: "u8 list \<Rightarrow> u8 list" where
  "text_at p = takeWhile (\<lambda>c. c \<noteq> 0) p"

fun env_calls :: "(u8 list \<Rightarrow> u8 list option) syscalls" where
  "env_calls num [In (Some p)] w =
     (if num = SYS_PUTENV
      then (let t = text_at p in
        ((0, []), w(takeWhile (\<lambda>c. c \<noteq> 61) t \<mapsto> tl (dropWhile (\<lambda>c. c \<noteq> 61) t))))
      else ((-38, []), w))"
| "env_calls num [In (Some p), Out (Some b), Num n] w =
     (if num = SYS_GETENV
      then (case w (text_at p) of
          None \<Rightarrow> ((-2, []), w)
        | Some v \<Rightarrow> if int (length v) < n then ((of_nat (length v), [v @ [0]]), w) else ((-34, []), w))
      else ((-38, []), w))"
| "env_calls num _ w = ((-38, []), w)"

lemma text_at_cstr: "cstr t p \<Longrightarrow> text_at p = t"
  by (auto simp: cstr_def text_at_def takeWhile_append)

lemma env_calls_keeps_pairs: "env_kernel env_calls (\<lambda>w. w)"
proof -
  have key: "takeWhile (\<lambda>c. c \<noteq> 61) (k @ 61 # v) = k" "dropWhile (\<lambda>c. c \<noteq> 61) (k @ 61 # v) = 61 # v"
    if "61 \<notin> set k" for k v :: "u8 list"
    using that by (auto simp: takeWhile_append dropWhile_append)
  have len: "sint (of_nat (length v) :: u64) = int (length v)" if "int (length v) < n" "n \<le> 256" for v :: "u8 list" and n
    using that by (simp add: signed_of_nat signed_take_bit_int_eq_self)
  show ?thesis
    unfolding env_kernel_def by (auto simp: text_at_cstr key len Let_def)
qed

end
