(* ===== verification/Client.thy ===== *)
theory Client
  imports Syscalls Liveness
begin

text \<open>
  \<open>examples/netd_client_test.c\<close>: a client of the daemon, a process of its own. It opens the node, asks for the state of
  the interface and for a name, and prints what it reads from the replies. The locales \<open>screened\<close> and \<open>served\<close> are what
  the client relies on: the kernel hands a request to \<open>api_invoke\<close> of the daemon and shows what is written. With it, the model of
  the client and the model of the daemon run together.
\<close>

section \<open>Model: printing in a process\<close>

text \<open>\<open>printf\<close> in a process that is not the daemon: the same writes to the standard output.\<close>

fun uwrites :: "'w syscalls \<Rightarrow> u8 list list \<Rightarrow> 'w uproc \<Rightarrow> 'w uproc option" where
  "uwrites K [] s = Some s"
| "uwrites K (bs # out) s = do {
     (_, s) \<leftarrow> syscall K SYS_WRITEFILE [Num 1, In (Some bs), Num (int (length bs))] s;
     uwrites K out s
   }"

definition uprintf :: "'w syscalls \<Rightarrow> u8 list \<Rightarrow> arg list \<Rightarrow> 'w uproc \<Rightarrow> (int \<times> 'w uproc) option" where
  "uprintf K fmt ap s = do {
     out \<leftarrow> printf_writes fmt ap;
     s \<leftarrow> uwrites K out s;
     Some (0, s)
   }"

definition usay :: "'w syscalls \<Rightarrow> string \<Rightarrow> 'w uproc \<Rightarrow> (int \<times> 'w uproc) option" where
  "usay K t = uprintf K (c_str (t @ newline)) []"

definition usay_ip :: "'w syscalls \<Rightarrow> string \<Rightarrow> u32 \<Rightarrow> 'w uproc \<Rightarrow> (int \<times> 'w uproc) option" where
  "usay_ip K t ip = uprintf K (c_str (t @ ''%u.%u.%u.%u'' @ newline)) (ip_args ip)"

section \<open>Model: the client\<close>

text \<open>The result, and the descriptor \<open>g_fd\<close>.\<close>

definition netd_open :: "'w syscalls \<Rightarrow> 'w uproc \<Rightarrow> ((int \<times> int) \<times> 'w uproc) option" where
  "netd_open K s = do {
     (fd, s) \<leftarrow> plain_call K SYS_OPEN [In (Some (c_str ''$/user/netd'')), Num O_RDWR, Num 0] s;
     if fd < 0 then do {
       (_, s) \<leftarrow> uprintf K (c_str (''netd_test: cannot open $/user/netd (%d)'' @ newline)) [AInt (of_int fd)] s;
       Some ((-1, fd), s)
     }
     else Some ((0, fd), s)
   }"

definition zero_rep :: "u8 list" where
  "zero_rep = replicate (4 + 4 + REP_DATA_SIZE) 0"

text \<open>\<open>invoke(g_fd, &req, sizeof(req), &rep, sizeof(rep))\<close>: the value and the bytes of \<open>rep\<close>.\<close>

definition ask :: "'w syscalls \<Rightarrow> int \<Rightarrow> u8 list \<Rightarrow> 'w uproc \<Rightarrow> ((int \<times> u8 list) \<times> 'w uproc) option" where
  "ask K g_fd req s = do {
     ((n, bufs), s) \<leftarrow> invoke K g_fd (Some req) (length req) (Some zero_rep) (length zero_rep) s;
     (case bufs of [Some rep] \<Rightarrow> Some ((n, rep), s) | _ \<Rightarrow> None)
   }"

text \<open>The client declares \<open>netd_info_t\<close> without the attribute: two bytes of padding follow the hardware address.\<close>

definition get_info_aligned :: "u8 list \<Rightarrow> netd_info_t option" where
  "get_info_aligned p = do {
     mac \<leftarrow> rd p 0 6;
     ip \<leftarrow> ld32 p 8;
     netmask \<leftarrow> ld32 p 12;
     gateway \<leftarrow> ld32 p 16;
     dns \<leftarrow> ld32 p 20;
     mtu \<leftarrow> ld32 p 24;
     link_up \<leftarrow> ld32 p 28;
     dhcp_bound \<leftarrow> ld32 p 32;
     Some \<lparr>in_mac = mac, in_ip = ip, in_netmask = netmask, in_gateway = gateway, in_dns = dns, in_mtu = mtu,
       in_link_up = link_up, in_dhcp_bound = dhcp_bound\<rparr>
   }"

definition show_info :: "'w syscalls \<Rightarrow> netd_info_t \<Rightarrow> 'w uproc \<Rightarrow> (int \<times> 'w uproc) option" where
  "show_info K info s = do {
     (_, s) \<leftarrow> uprintf K (c_str (''  MAC  : %02x:%02x:%02x:%02x:%02x:%02x'' @ newline))
       (map (\<lambda>b. AInt (ucast b)) (in_mac info)) s;
     (_, s) \<leftarrow> usay_ip K ''  IP   : '' (in_ip info) s;
     (_, s) \<leftarrow> usay_ip K ''  Mask : '' (in_netmask info) s;
     (_, s) \<leftarrow> usay_ip K ''  GW   : '' (in_gateway info) s;
     (_, s) \<leftarrow> usay_ip K ''  DNS  : '' (in_dns info) s;
     (_, s) \<leftarrow> uprintf K (c_str (''  MTU  : %u'' @ newline)) [AInt (in_mtu info)] s;
     (_, s) \<leftarrow> uprintf K (c_str (''  Link : %s'' @ newline))
       [str_arg (if in_link_up info \<noteq> 0 then ''UP'' else ''DOWN'')] s;
     (_, s) \<leftarrow> uprintf K (c_str (''  DHCP : %s'' @ newline))
       [str_arg (if in_dhcp_bound info \<noteq> 0 then ''bound'' else ''not bound'')] s;
     (_, s) \<leftarrow> usay K ''  PASS'' s;
     Some (0, s)
   }"

definition test_get_info :: "'w syscalls \<Rightarrow> int \<Rightarrow> 'w uproc \<Rightarrow> (int \<times> 'w uproc) option" where
  "test_get_info K g_fd s = do {
     (_, s) \<leftarrow> usay K (newline @ ''[1] GET_INFO'') s;
     ((n, rep), s) \<leftarrow> ask K g_fd (put_req_hdr \<lparr>rq_cmd = NETD_CMD_GET_INFO\<rparr>) s;
     rep \<leftarrow> get_rep rep;
     if n < 0 \<or> rep_status rep \<noteq> 0 then do {
       (_, s) \<leftarrow> uprintf K (c_str (''  FAIL: invoke returned %d status %d'' @ newline))
         [AInt (of_int n), AInt (rep_status rep)] s;
       Some (-1, s)
     }
     else do {
       info \<leftarrow> get_info_aligned (rep_data rep);
       show_info K info s
     }
   }"

definition test_ping :: "'w syscalls \<Rightarrow> int \<Rightarrow> u32 \<Rightarrow> 'w uproc \<Rightarrow> (int \<times> 'w uproc) option" where
  "test_ping K g_fd ip s = do {
     (_, s) \<leftarrow> usay_ip K (newline @ ''[2] PING '') ip s;
     ((n, rep), s) \<leftarrow> ask K g_fd (put_req_hdr \<lparr>rq_cmd = NETD_CMD_PING\<rparr> @
       put_ping_req \<lparr>pr_ip = ip, pr_count = 3, pr_timeout_ms = 2000\<rparr>) s;
     if n < 0 then do {
       (_, s) \<leftarrow> uprintf K (c_str (''  FAIL: invoke %d'' @ newline)) [AInt (of_int n)] s;
       Some (-1, s)
     }
     else do {
       rep \<leftarrow> get_rep rep;
       pr \<leftarrow> get_ping_rep (rep_data rep);
       (if pp_replied pr \<noteq> 0 then do {
          (_, s) \<leftarrow> usay_ip K ''  reply from '' (pp_reply_ip pr) s;
          (_, s) \<leftarrow> usay K ''  PASS'' s;
          Some (0, s)
        }
        else do {
          (_, s) \<leftarrow> usay K ''  no reply (ok in some VM configs)'' s;
          (_, s) \<leftarrow> usay K ''  PASS (tx only)'' s;
          Some (0, s)
        })
     }
   }"

text \<open>The name, a C string, cut to 255 bytes, in its array of 256.\<close>

definition dns_req_of :: "u8 list \<Rightarrow> u8 list option" where
  "dns_req_of name = do {
     l \<leftarrow> strlen name;
     let l = (if 255 < l then 255 else l);
     bs \<leftarrow> rd name 0 l;
     field \<leftarrow> wr 0 bs (replicate 256 0);
     Some (put_req_hdr \<lparr>rq_cmd = NETD_CMD_DNS_RESOLVE\<rparr> @ field)
   }"

definition test_dns :: "'w syscalls \<Rightarrow> int \<Rightarrow> u8 list \<Rightarrow> 'w uproc \<Rightarrow> (int \<times> 'w uproc) option" where
  "test_dns K g_fd name s = do {
     (_, s) \<leftarrow> uprintf K (c_str (newline @ ''[3] DNS resolve '' @ [CHR 0x27] @ ''%s'' @ [CHR 0x27] @ newline)) [APtr 1 name] s;
     req \<leftarrow> dns_req_of name;
     ((n, rep), s) \<leftarrow> ask K g_fd req s;
     rep \<leftarrow> get_rep rep;
     dr \<leftarrow> get_dns_rep (rep_data rep);
     (if 0 \<le> n \<and> rep_status rep = 0 \<and> dr_ip dr \<noteq> 0 then do {
        (_, s) \<leftarrow> uprintf K (c_str (''  %s -> %u.%u.%u.%u'' @ newline)) (APtr 1 name # ip_args (dr_ip dr)) s;
        (_, s) \<leftarrow> usay K ''  PASS'' s;
        Some (0, s)
      }
      else do {
        (_, s) \<leftarrow> usay K ''  no result (DNS may not reach internet in this VM config)'' s;
        (_, s) \<leftarrow> usay K ''  PASS (attempted)'' s;
        Some (0, s)
      })
   }"

definition client_main :: "'w syscalls \<Rightarrow> 'w uproc \<Rightarrow> (int \<times> 'w uproc) option" where
  "client_main K s = do {
     (_, s) \<leftarrow> usay K ''=== netd_test ==='' s;
     ((rc, g_fd), s) \<leftarrow> netd_open K s;
     if rc < 0 then Some (1, s)
     else do {
       (_, s) \<leftarrow> test_get_info K g_fd s;
       (_, s) \<leftarrow> usay K ''About to ping test'' s;
       (_, s) \<leftarrow> usay K ''Ping test done'' s;
       (_, s) \<leftarrow> usay K ''About to DNS test'' s;
       (_, s) \<leftarrow> test_dns K g_fd (c_str ''example.com'') s;
       (_, s) \<leftarrow> plain_call K SYS_CLOSE [Num g_fd] s;
       (_, s) \<leftarrow> usay K (newline @ ''=== done ==='') s;
       Some (0, s)
     }
   }"

section \<open>What the client relies on\<close>

text \<open>A step of a process that adds words to the screen and leaves the daemon and \<open>errno\<close> alone.\<close>

definition told ::
  "('w \<Rightarrow> 'v machine) \<Rightarrow> ('w \<Rightarrow> u8 list) \<Rightarrow> 'w uproc \<Rightarrow> u8 list \<Rightarrow> 'w uproc \<Rightarrow> bool" where
  "told daemon screen s words s' \<longleftrightarrow>
     daemon (up_os s') = daemon (up_os s) \<and> screen (up_os s') = screen (up_os s) @ words \<and> up_errno s' = up_errno s"

definition utters ::
  "('w \<Rightarrow> 'v machine) \<Rightarrow> ('w \<Rightarrow> u8 list) \<Rightarrow> ('w uproc \<Rightarrow> ('a \<times> 'w uproc) option) \<Rightarrow> 'a \<Rightarrow> u8 list \<Rightarrow> bool" where
  "utters daemon screen f r words \<longleftrightarrow> (\<forall>s. \<exists>s'. f s = Some (r, s') \<and> told daemon screen s words s')"

lemma uttersE:
  assumes "utters daemon screen f r words"
  obtains s' where "f s = Some (r, s')" "told daemon screen s words s'"
  using assms unfolding utters_def by blast

lemma utters_done: "utters daemon screen (\<lambda>s. Some (r, s)) r []"
  by (simp add: utters_def told_def)

lemma utters_bind:
  assumes f: "utters daemon screen f r t" and g: "utters daemon screen g r' t'"
  shows "utters daemon screen (\<lambda>s. do { (_, s) \<leftarrow> f s; g s }) r' (t @ t')"
  unfolding utters_def
proof
  fix s
  obtain s1 where 1: "f s = Some (r, s1)" "told daemon screen s t s1" by (rule uttersE [OF f])
  obtain s2 where 2: "g s1 = Some (r', s2)" "told daemon screen s1 t' s2" by (rule uttersE [OF g])
  show "\<exists>s'. do { (_, s) \<leftarrow> f s; g s } = Some (r', s') \<and> told daemon screen s (t @ t') s'"
    using 1 2 by (auto simp: told_def)
qed

lemma lits_format: "concat (map format_of (lits t)) = map of_char t"
  by (induction t) (simp_all add: lits_def)

lemma quad_format: "concat (map format_of (quad ip)) = map of_char ''%u.%u.%u.%u''"
  by (simp add: quad_def)

lemmas text_format = c_str_def format_def lits_format quad_format

lemma text_of_c_str: "plain t \<Longrightarrow> takeWhile (\<lambda>c. c \<noteq> 0) (map of_char t @ [0]) = bytes_of t" "0 \<in> set (map of_char t @ [0 :: u8])"
  by (induction t) (auto simp: plain_def bytes_of_def)

lemma bytes_of_append: "bytes_of (s @ t) = bytes_of s @ bytes_of t"
  by (simp add: bytes_of_def)

text \<open>The state of the interface as the client prints it.\<close>

definition info_text :: "netd_info_t \<Rightarrow> u8 list" where
  "info_text i =
     bytes_of (''  MAC  : %02x:%02x:%02x:%02x:%02x:%02x'' @ newline) @
     (bytes_of ''  IP   : '' @ dotted_quad (in_ip i) @ bytes_of newline) @
     (bytes_of ''  Mask : '' @ dotted_quad (in_netmask i) @ bytes_of newline) @
     (bytes_of ''  GW   : '' @ dotted_quad (in_gateway i) @ bytes_of newline) @
     (bytes_of ''  DNS  : '' @ dotted_quad (in_dns i) @ bytes_of newline) @
     (bytes_of ''  MTU  : '' @ show_num False 10 (unat (in_mtu i)) @ bytes_of newline) @
     bytes_of (''  Link : '' @ (if in_link_up i \<noteq> 0 then ''UP'' else ''DOWN'') @ newline) @
     bytes_of (''  DHCP : '' @ (if in_dhcp_bound i \<noteq> 0 then ''bound'' else ''not bound'') @ newline) @
     bytes_of (''  PASS'' @ newline)"

lemma utters_end: "utters daemon screen f r t \<Longrightarrow> utters daemon screen (\<lambda>s. do { (_, s) \<leftarrow> f s; Some (r', s) }) r' t"
  using utters_bind [OF _ utters_done, of daemon screen f r t r'] by simp

text \<open>The bytes of two words in a row, read two bytes later.\<close>

definition halves :: "u32 \<Rightarrow> u32 \<Rightarrow> u32" where
  "halves a b = drop_bit 16 a OR push_bit 16 b"

definition misread :: "netd_state_t \<Rightarrow> netd_info_t" where
  "misread n = \<lparr>in_mac = n_mac n, in_ip = halves (n_ip n) (n_netmask n), in_netmask = halves (n_netmask n) (n_gateway n),
     in_gateway = halves (n_gateway n) (n_dns n), in_dns = halves (n_dns n) (n_mtu n), in_mtu = halves (n_mtu n) (n_link_up n),
     in_link_up = halves (n_link_up n) (if n_dhcp_state n = DHCP_BOUND then 1 else 0), in_dhcp_bound = 0\<rparr>"

lemma le32_halves: "of_le32 [ucast (drop_bit 16 a), ucast (drop_bit 24 a), ucast b, ucast (drop_bit 8 b)] = halves a b"
proof (rule bit_word_eqI)
  fix n :: nat
  assume n: "n < LENGTH(32)"
  consider "n < 8" | k where "n = 8 + k" "k < 8" | k where "n = 16 + k" "k < 8" | k where "n = 24 + k" "k < 8"
  proof -
    have "n < 8 \<or> (\<exists>k. n = 8 + k \<and> k < 8) \<or> (\<exists>k. n = 16 + k \<and> k < 8) \<or> (\<exists>k. n = 24 + k \<and> k < 8)"
      using n unfolding len_bit0 len_num1 by presburger
    then show thesis using that by blast
  qed
  then show "bit (of_le32 [ucast (drop_bit 16 a), ucast (drop_bit 24 a), ucast b, ucast (drop_bit 8 b)]) n = bit (halves a b) n"
    by cases (auto simp: of_le32_def halves_def bit_simps dest: bit_imp_le_length)
qed

lemma info_misread:
  assumes "length (n_mac n) = 6"
  shows "get_info_aligned (info_bytes n @ replicate 1466 0) = Some (misread n)"
proof -
  obtain a b c d e f where "n_mac n = [a, b, c, d, e, f]"
    using assms by (auto simp: numeral_eq_Suc length_Suc_conv)
  moreover have "of_le32 (0 # 0 # replicate 2 0) = 0" by (simp add: of_le32_def numeral_2_eq_2)
  ultimately show ?thesis
    by (simp add: get_info_aligned_def info_bytes_def misread_def ld32_def rd_def le32_def le32_halves)
qed

lemma of_le32_zeros: "of_le32 (replicate 4 0) = 0"
  by (simp add: of_le32_def numeral_eq_Suc)

lemma zero_ping_rep: "get_ping_rep (replicate 1500 0) = Some \<lparr>pp_replied = 0, pp_reply_ip = 0\<rparr>"
  by (simp add: ld32_def rd_def of_le32_zeros)

text \<open>What the client prints of a ping that nobody answered.\<close>

definition ping_text :: "u32 \<Rightarrow> u8 list" where
  "ping_text ip = (bytes_of (newline @ ''[2] PING '') @ dotted_quad ip @ bytes_of newline) @
     bytes_of (''  no reply (ok in some VM configs)'' @ newline) @ bytes_of (''  PASS (tx only)'' @ newline)"

text \<open>What the client prints for a name that is not resolved.\<close>

definition dns_text :: "u8 list \<Rightarrow> u8 list" where
  "dns_text name = (bytes_of (newline @ ''[3] DNS resolve '' @ [CHR 0x27]) @ name @ bytes_of ([CHR 0x27] @ newline)) @
     bytes_of (''  no result (DNS may not reach internet in this VM config)'' @ newline) @
     bytes_of (''  PASS (attempted)'' @ newline)"

lemma text_of_cstr: "cstr t p \<Longrightarrow> takeWhile (\<lambda>c. c \<noteq> 0) p = t" "cstr t p \<Longrightarrow> 0 \<in> set p"
  by (auto simp: cstr_def takeWhile_append)

lemma dotted_length: "length (dotted ls) \<le> length (enc_labels ls)"
  by (induction ls rule: dotted.induct) simp_all

lemma dns_req_of_eq:
  assumes name: "cstr t name" and len: "length t \<le> 255"
  shows "dns_req_of name =
    Some (put_req_hdr \<lparr>rq_cmd = NETD_CMD_DNS_RESOLVE\<rparr> @ t @ replicate (256 - length t) 0)"
proof -
  have "rd name 0 (length t) = Some t" using name by (auto simp: rd_def cstr_def)
  then show ?thesis using strlen_cstr [OF name] len by (simp add: dns_req_of_def wr_def Let_def)
qed

lemma cmd_dns_silent:
  assumes "live DK \<mu>" "steady DK now" "silent DK" "net_wf (g_net d)" "n_dns (g_net d) \<noteq> 0" "n_ip (g_net d) \<noteq> 0"
    and ls: "\<forall>l\<in>set ls. label_ok l" "length (dns_query 0 ls) < 256" and len: "length (dotted ls) \<le> 255"
  shows "\<exists>d'. cmd_dns_resolve DK (put_req_hdr h @ dotted ls @ replicate (256 - length (dotted ls)) 0) 260 d =
    Some ((-1, le32 0), d') \<and> net_wf (g_net d')"
proof -
  have pad: "replicate (256 - length (dotted ls)) 0 = 0 # replicate (255 - length (dotted ls)) (0 :: u8)"
    using len by (simp add: Suc_diff_le flip: replicate_Suc)
  obtain d' where "dns_resolve DK (dotted ls @ 0 # replicate (255 - length (dotted ls)) 0) d = Some ((-1, None), d')"
    "net_wf (g_net d')"
    using dns_resolve_silent [OF assms(1-6) ls] by blast
  then show ?thesis using len by (simp add: cmd_dns_resolve_def adv_def rd_def flip: pad)
qed

lemma example_labels:
  "\<forall>l\<in>set [bytes_of ''example'', bytes_of ''com'']. label_ok l"
  "length (dns_query 0 [bytes_of ''example'', bytes_of ''com'']) < 256"
  "cstr (dotted [bytes_of ''example'', bytes_of ''com'']) (c_str ''example.com'')"
  "dotted [bytes_of ''example'', bytes_of ''com''] = bytes_of ''example.com''"
  by (simp_all add: bytes_of_def label_ok_def dns_query_length cstr_def c_str_def)

text \<open>All that the client prints while the network is silent.\<close>

definition client_text :: "netd_state_t \<Rightarrow> u8 list" where
  "client_text n =
     bytes_of (''=== netd_test ==='' @ newline) @
     bytes_of (newline @ ''[1] GET_INFO'' @ newline) @ info_text (misread n) @
     bytes_of (''About to ping test'' @ newline) @ bytes_of (''Ping test done'' @ newline) @
     bytes_of (''About to DNS test'' @ newline) @ dns_text (bytes_of ''example.com'') @
     bytes_of (newline @ ''=== done ==='' @ newline)"

text \<open>What is written to the standard output appears on the screen.\<close>

locale screened =
  fixes K :: "'w syscalls" and daemon :: "'w \<Rightarrow> 'v machine" and screen :: "'w \<Rightarrow> u8 list"
  assumes writes: "\<exists>n w'. K SYS_WRITEFILE [Num 1, In (Some bs), Num (int (length bs))] w = ((n, []), w') \<and>
      daemon w' = daemon w \<and> screen w' = screen w @ bs"
begin

lemma uwrites_show: "\<exists>s'. uwrites K out s = Some s' \<and> told daemon screen s (concat out) s'"
proof (induction out arbitrary: s)
  case Nil
  then show ?case by (simp add: told_def)
next
  case (Cons bs out)
  obtain n w' where w: "K SYS_WRITEFILE [Num 1, In (Some bs), Num (int (length bs))] (up_os s) = ((n, []), w')"
    "daemon w' = daemon (up_os s)" "screen w' = screen (up_os s) @ bs"
    using writes by blast
  obtain s' where "uwrites K out (s\<lparr>up_os := w'\<rparr>) = Some s'" "told daemon screen (s\<lparr>up_os := w'\<rparr>) (concat out) s'"
    using Cons by blast
  then show ?case using w by (auto simp: syscall_def told_def)
qed

lemma uprintf_utters:
  assumes "fmt = format ps" "as = args ps @ ap" "list_all piece_ok ps" "list_all printf_knows ps" "words = render ps"
  shows "utters daemon screen (uprintf K fmt as) 0 words"
  unfolding utters_def
proof
  fix s
  obtain out where out: "printf_writes fmt as = Some out" "concat out = render ps"
    using printf_writes_pieces [OF assms(3,4), of "[]" ap] assms(1,2) by (auto simp: format_def)
  with uwrites_show [of out s] show "\<exists>s'. uprintf K fmt as s = Some (0, s') \<and> told daemon screen s words s'"
    by (auto simp: uprintf_def assms(5))
qed

lemma usay_utters: "plain t \<Longrightarrow> utters daemon screen (usay K t) 0 (bytes_of (t @ newline))"
  unfolding usay_def [abs_def]
  by (rule uprintf_utters [where ps = "lits (t @ newline)" and ap = "[]"])
    (simp_all add: format_lits message_simps)

lemma usay_ip_utters: "plain t \<Longrightarrow> utters daemon screen (usay_ip K t ip) 0 (bytes_of t @ dotted_quad ip @ bytes_of newline)"
  unfolding usay_ip_def [abs_def]
  by (rule uprintf_utters [where ps = "lits t @ quad ip @ lits newline" and ap = "[]"])
    (simp_all add: text_format message_simps)

lemma show_info_utters: "utters daemon screen (show_info K i) 0 (info_text i)"
proof -
  have mac: "utters daemon screen (uprintf K (c_str (''  MAC  : %02x:%02x:%02x:%02x:%02x:%02x'' @ newline)) as) 0
      (bytes_of (''  MAC  : %02x:%02x:%02x:%02x:%02x:%02x'' @ newline))" for as
    by (rule uprintf_utters [where ap = as and ps = "lits ''  MAC  : '' @ [Unknown 48] @ lits ''2x:'' @ [Unknown 48] @
          lits ''2x:'' @ [Unknown 48] @ lits ''2x:'' @ [Unknown 48] @ lits ''2x:'' @ [Unknown 48] @ lits ''2x:'' @
          [Unknown 48] @ lits ''2x'' @ lits newline"])
      (simp add: text_format, simp_all add: message_simps plain_def, simp add: bytes_of_def)
  have mtu: "utters daemon screen (uprintf K (c_str (''  MTU  : %u'' @ newline)) [AInt n]) 0
      (bytes_of ''  MTU  : '' @ show_num False 10 (unat n) @ bytes_of newline)" for n
    by (rule uprintf_utters [where ap = "[]" and ps = "lits ''  MTU  : '' @ Uns Plain (unat n) # lits newline"])
      (simp add: text_format, simp_all add: message_simps plain_def unat_u32_less)
  have word: "utters daemon screen (uprintf K (c_str (t @ ''%s'' @ newline)) [str_arg u]) 0 (bytes_of (t @ u @ newline))"
    if "plain t" "plain u" for t u
    by (rule uprintf_utters [where ap = "[]" and ps = "lits t @ Str 1 (c_str u) # lits newline"])
      (use that in \<open>simp_all add: text_format message_simps str_arg_def text_of_c_str bytes_of_append\<close>)
  have link: "utters daemon screen (uprintf K (c_str (''  Link : %s'' @ newline)) [str_arg (if b then ''UP'' else ''DOWN'')]) 0
      (bytes_of (''  Link : '' @ (if b then ''UP'' else ''DOWN'') @ newline))" for b
    using word [of "''  Link : ''"] by (simp add: plain_def)
  have dhcp: "utters daemon screen (uprintf K (c_str (''  DHCP : %s'' @ newline)) [str_arg (if b then ''bound'' else ''not bound'')]) 0
      (bytes_of (''  DHCP : '' @ (if b then ''bound'' else ''not bound'') @ newline))" for b
    using word [of "''  DHCP : ''"] by (simp add: plain_def)
  show ?thesis
    unfolding show_info_def [abs_def] info_text_def
    by (rule utters_bind utters_end mac mtu link dhcp usay_ip_utters usay_utters | simp add: plain_def)+
qed

end

text \<open>The node of the daemon can be opened, and a request that is made there is answered by \<open>api_invoke\<close>.\<close>

locale served = screened K daemon screen
  for K :: "'w syscalls" and daemon :: "'w \<Rightarrow> 'v machine" and screen :: "'w \<Rightarrow> u8 list" +
  fixes DK :: "'v kernel"
  assumes opens: "\<exists>fd w'. K SYS_OPEN [In (Some (c_str ''$/user/netd'')), Num 2, Num 0] w = ((fd, []), w') \<and> 0 \<le> to_int fd \<and>
      daemon w' = daemon w \<and> screen w' = screen w"
    and closes: "\<exists>r w'. K SYS_CLOSE [Num fd] w = ((r, []), w') \<and> daemon w' = daemon w \<and> screen w' = screen w"
    and invokes: "api_invoke DK (Some req) (length req) out (length out) (daemon w) = Some ((n, out'), d) \<Longrightarrow>
      \<exists>w'. K SYS_INVOKE [Num fd, In (Some req), Num (int (length req)), Out (Some out), Num (int (length out))] w =
        ((of_int n, [out']), w') \<and> daemon w' = d \<and> screen w' = screen w"
begin

lemma open_node:
  "\<exists>fd s'. netd_open K s = Some ((0, fd), s') \<and> told daemon screen s [] s'"
proof -
  obtain fd w' where "K SYS_OPEN [In (Some (c_str ''$/user/netd'')), Num 2, Num 0] (up_os s) = ((fd, []), w')" "0 \<le> to_int fd"
    "daemon w' = daemon (up_os s)" "screen w' = screen (up_os s)"
    using opens by blast
  then show ?thesis by (simp add: netd_open_def plain_call_def int_call_def syscall_def told_def)
qed

lemma close_node: "\<exists>r s'. plain_call K SYS_CLOSE [Num fd] s = Some (r, s') \<and> told daemon screen s [] s'"
proof -
  obtain r w' where "K SYS_CLOSE [Num fd] (up_os s) = ((r, []), w')" "daemon w' = daemon (up_os s)" "screen w' = screen (up_os s)"
    using closes by blast
  then show ?thesis by (simp add: plain_call_def int_call_def syscall_def told_def)
qed

text \<open>A request through the node: the reply of the daemon, in the zeroed structure of the client.\<close>

lemma ask_daemon:
  assumes cmd: "api_command DK req (length req) (daemon (up_os s)) = Some ((status, bytes), d)"
    and len: "length bytes \<le> 1500" "4 \<le> length req"
  shows "\<exists>s'. ask K fd req s = Some ((int (8 + length bytes), put_rep \<lparr>rep_status = of_int status,
      rep_len = of_nat (length bytes), rep_data = bytes @ replicate (1500 - length bytes) 0\<rparr>), s') \<and>
    daemon (up_os s') = d \<and> screen (up_os s') = screen (up_os s)"
proof -
  let ?rep = "le32 (of_int status) @ le32 (of_nat (length bytes)) @ bytes @ replicate (1500 - length bytes) 0"
  have z: "drop (8 + length bytes) zero_rep = replicate (1500 - length bytes) 0" "length zero_rep = 1508"
    by (simp_all add: zero_rep_def)
  have "api_invoke DK (Some req) (length req) zero_rep (length zero_rep) (daemon (up_os s)) =
      Some ((int (8 + length bytes), ?rep), d)"
    using api_invoke_eq [OF cmd len(1) len(2), of "length zero_rep" zero_rep] len(1) z by (simp add: min_def)
  from invokes [OF this, of fd] obtain w' where
    w: "K SYS_INVOKE [Num fd, In (Some req), Num (int (length req)), Out (Some zero_rep), Num (int (length zero_rep))] (up_os s) =
      ((of_int (int (8 + length bytes)), [?rep]), w')" "daemon w' = d" "screen w' = screen (up_os s)"
    by blast
  have n: "sint (of_int (int (8 + length bytes)) :: u64) = int (8 + length bytes)"
    using len(1) by (simp only: sint_of_int_64) (simp add: signed_take_bit_int_eq_self)
  have "wr 0 ?rep zero_rep = Some ?rep" using len(1) z(2) by (simp add: wr_def)
  then show ?thesis
    using w n by (simp add: ask_def invoke_def syscall5_def syscall_def)
qed

text \<open>
  What the client makes of the reply to \<open>GET_INFO\<close>: behind the hardware address it reads two bytes too far on, so that every
  number it shows is put together from the halves of two fields.
\<close>

lemma test_get_info_misreads:
  assumes mac: "length (n_mac (g_net (daemon (up_os s)))) = 6"
  shows "\<exists>s'. test_get_info K fd s = Some (0, s') \<and> daemon (up_os s') = daemon (up_os s) \<and>
    screen (up_os s') = screen (up_os s) @ bytes_of (newline @ ''[1] GET_INFO'' @ newline) @
      info_text (misread (g_net (daemon (up_os s))))"
proof -
  let ?n = "g_net (daemon (up_os s))" and ?req = "put_req_hdr \<lparr>rq_cmd = NETD_CMD_GET_INFO\<rparr>"
  have title: "utters daemon screen (usay K (newline @ ''[1] GET_INFO'')) 0 (bytes_of ((newline @ ''[1] GET_INFO'') @ newline))"
    by (rule usay_utters) (simp add: plain_def newline_def)
  obtain s1 where s1: "usay K (newline @ ''[1] GET_INFO'') s = Some (0, s1)" "daemon (up_os s1) = daemon (up_os s)"
    "screen (up_os s1) = screen (up_os s) @ bytes_of (newline @ ''[1] GET_INFO'' @ newline)"
    using uttersE [OF title, of s] by (auto simp: told_def)
  have "api_command DK ?req (length ?req) (daemon (up_os s1)) = Some ((0, info_bytes ?n), daemon (up_os s1))"
    using cmd_get_info_eq [OF mac] by (simp add: api_command_def ld32_def rd_def s1(2))
  from ask_daemon [OF this, of fd] info_bytes_fields(1) [OF mac] obtain s2 where
    s2: "ask K fd ?req s1 = Some ((42, put_rep \<lparr>rep_status = 0, rep_len = 34, rep_data = info_bytes ?n @ replicate 1466 0\<rparr>), s2)"
    "daemon (up_os s2) = daemon (up_os s1)" "screen (up_os s2) = screen (up_os s1)"
    by auto
  have rep: "get_rep (put_rep \<lparr>rep_status = 0, rep_len = 34, rep_data = info_bytes ?n @ replicate 1466 0\<rparr>) =
      Some \<lparr>rep_status = 0, rep_len = 34, rep_data = info_bytes ?n @ replicate 1466 0\<rparr>"
    by (rule get_put_rep) (simp add: info_bytes_fields(1) [OF mac])
  obtain s3 where s3: "show_info K (misread ?n) s2 = Some (0, s3)" "told daemon screen s2 (info_text (misread ?n)) s3"
    by (rule uttersE [OF show_info_utters])
  have "test_get_info K fd s = Some (0, s3)"
    using s1(1) s2(1) rep s3(1) info_misread [OF mac]
    by (simp add: test_get_info_def del: get_defs put_defs)
  then show ?thesis using s1 s2 s3(2) by (simp add: told_def)
qed

text \<open>A ping through the node is never answered.\<close>

lemma test_ping_sees_no_reply:
  assumes live: "live DK \<mu>" and steady: "steady DK now" and wf: "net_wf (g_net (daemon (up_os s)))"
  shows "\<exists>s'. test_ping K fd ip s = Some (0, s') \<and> net_wf (g_net (daemon (up_os s'))) \<and>
    screen (up_os s') = screen (up_os s) @ ping_text ip"
proof -
  let ?req = "put_req_hdr \<lparr>rq_cmd = NETD_CMD_PING\<rparr> @ put_ping_req \<lparr>pr_ip = ip, pr_count = 3, pr_timeout_ms = 2000\<rparr>"
  have title: "utters daemon screen (usay_ip K (newline @ ''[2] PING '') ip) 0
      (bytes_of (newline @ ''[2] PING '') @ dotted_quad ip @ bytes_of newline)"
    by (rule usay_ip_utters) (simp add: plain_def newline_def)
  obtain s1 where s1: "usay_ip K (newline @ ''[2] PING '') ip s = Some (0, s1)"
    "told daemon screen s (bytes_of (newline @ ''[2] PING '') @ dotted_quad ip @ bytes_of newline) s1"
    by (rule uttersE [OF title])
  have wf1: "net_wf (g_net (daemon (up_os s1)))" using wf s1(2) by (simp add: told_def)
  have l: "length ?req = 12" by simp
  obtain d where d: "cmd_ping DK ?req 12 (daemon (up_os s1)) = Some ((-1, replicate 8 0), d)" "keeps (daemon (up_os s1)) d"
    using cmd_ping_returns [OF live steady wf1, of 12 ?req] l by auto
  then have cmd: "api_command DK ?req (length ?req) (daemon (up_os s1)) = Some ((-1, replicate 8 0), d)"
    using l by (simp add: api_command_def ld32_def rd_def)
  obtain s2 where s2: "ask K fd ?req s1 = Some ((16, put_rep \<lparr>rep_status = -1, rep_len = 8, rep_data = replicate 1500 0\<rparr>), s2)"
    "daemon (up_os s2) = d" "screen (up_os s2) = screen (up_os s1)"
    using ask_daemon [OF cmd, of fd] by (auto simp flip: replicate_add)
  have rep: "get_rep (put_rep \<lparr>rep_status = -1, rep_len = 8, rep_data = replicate 1500 0\<rparr>) =
      Some \<lparr>rep_status = -1, rep_len = 8, rep_data = replicate 1500 0\<rparr>"
    by (rule get_put_rep) simp
  have "utters daemon screen (\<lambda>s. do { (_, s) \<leftarrow> usay K ''  no reply (ok in some VM configs)'' s;
      (_, s) \<leftarrow> usay K ''  PASS (tx only)'' s; Some (0, s) }) (0 :: int)
      (bytes_of (''  no reply (ok in some VM configs)'' @ newline) @ bytes_of (''  PASS (tx only)'' @ newline))"
    by (rule utters_bind utters_end usay_utters | simp add: plain_def)+
  then obtain s3 where s3: "do { (_, s) \<leftarrow> usay K ''  no reply (ok in some VM configs)'' s2;
      (_, s) \<leftarrow> usay K ''  PASS (tx only)'' s; Some (0, s) } = Some (0 :: int, s3)"
    "told daemon screen s2 (bytes_of (''  no reply (ok in some VM configs)'' @ newline) @
      bytes_of (''  PASS (tx only)'' @ newline)) s3"
    by (rule uttersE)
  have pr: "get_ping_rep (replicate 1500 0) = Some \<lparr>pp_replied = 0, pp_reply_ip = 0\<rparr>" by (rule zero_ping_rep)
  have "test_ping K fd ip s = Some (0, s3)"
    using s1(1) s2(1) rep pr s3(1) by (simp add: test_ping_def del: get_defs put_defs)
  moreover have "net_wf (g_net d)" using d(2) wf1 by (rule keeps_net_wf)
  ultimately show ?thesis using s1(2) s2 s3(2) by (simp add: told_def ping_text_def)
qed

text \<open>A name that nobody resolves, and the whole client.\<close>

lemma test_dns_times_out:
  assumes live: "live DK \<mu>" and steady: "steady DK now" and silent: "silent DK"
    and wf: "net_wf (g_net (daemon (up_os s)))" "n_dns (g_net (daemon (up_os s))) \<noteq> 0" "n_ip (g_net (daemon (up_os s))) \<noteq> 0"
    and ls: "\<forall>l\<in>set ls. label_ok l" "length (dns_query 0 ls) < 256" and name: "cstr (dotted ls) name"
  shows "\<exists>s'. test_dns K fd name s = Some (0, s') \<and> net_wf (g_net (daemon (up_os s'))) \<and>
    screen (up_os s') = screen (up_os s) @ dns_text (dotted ls)"
proof -
  let ?title = "bytes_of (newline @ ''[3] DNS resolve '' @ [CHR 0x27]) @ dotted ls @ bytes_of ([CHR 0x27] @ newline)"
  have title: "utters daemon screen
      (uprintf K (c_str (newline @ ''[3] DNS resolve '' @ [CHR 0x27] @ ''%s'' @ [CHR 0x27] @ newline)) [APtr 1 name]) 0 ?title"
    by (rule uprintf_utters [where ap = "[]" and ps = "lits (newline @ ''[3] DNS resolve '' @ [CHR 0x27]) @ Str 1 name #
        lits ([CHR 0x27] @ newline)"])
      (use name in \<open>simp_all add: text_format message_simps plain_def newline_def text_of_cstr\<close>)
  obtain s1 where s1: "uprintf K (c_str (newline @ ''[3] DNS resolve '' @ [CHR 0x27] @ ''%s'' @ [CHR 0x27] @ newline))
      [APtr 1 name] s = Some (0, s1)" "told daemon screen s ?title s1"
    by (rule uttersE [OF title])
  have d1: "daemon (up_os s1) = daemon (up_os s)" using s1(2) by (simp add: told_def)
  have len: "length (dotted ls) \<le> 255" using ls(2) dotted_length [of ls] by (simp add: dns_query_length)
  let ?req = "put_req_hdr \<lparr>rq_cmd = NETD_CMD_DNS_RESOLVE\<rparr> @ dotted ls @ replicate (256 - length (dotted ls)) 0"
  have req: "dns_req_of name = Some ?req" by (rule dns_req_of_eq [OF name len])
  have l: "length ?req = 260" using len by simp
  obtain d where cmd: "cmd_dns_resolve DK ?req 260 (daemon (up_os s1)) = Some ((-1, le32 0), d)" "net_wf (g_net d)"
    using cmd_dns_silent [OF live steady silent _ _ _ ls len] wf unfolding d1 by blast
  have "api_command DK ?req (length ?req) (daemon (up_os s1)) = Some ((-1, le32 0), d)"
    using cmd(1) l by (simp add: api_command_def ld32_def rd_def)
  from ask_daemon [OF this, of fd] l obtain s2 where
    s2: "ask K fd ?req s1 = Some ((12, put_rep \<lparr>rep_status = -1, rep_len = 4, rep_data = le32 0 @ replicate 1496 0\<rparr>), s2)"
    "daemon (up_os s2) = d" "screen (up_os s2) = screen (up_os s1)"
    by auto
  have rep: "get_rep (put_rep \<lparr>rep_status = -1, rep_len = 4, rep_data = le32 0 @ replicate 1496 0\<rparr>) =
      Some \<lparr>rep_status = -1, rep_len = 4, rep_data = le32 0 @ replicate 1496 0\<rparr>"
    by (rule get_put_rep) simp
  have "utters daemon screen (\<lambda>s. do { (_, s) \<leftarrow> usay K ''  no result (DNS may not reach internet in this VM config)'' s;
      (_, s) \<leftarrow> usay K ''  PASS (attempted)'' s; Some (0, s) }) (0 :: int)
      (bytes_of (''  no result (DNS may not reach internet in this VM config)'' @ newline) @
        bytes_of (''  PASS (attempted)'' @ newline))"
    by (rule utters_bind utters_end usay_utters | simp add: plain_def)+
  then obtain s3 where s3: "do { (_, s) \<leftarrow> usay K ''  no result (DNS may not reach internet in this VM config)'' s2;
      (_, s) \<leftarrow> usay K ''  PASS (attempted)'' s; Some (0, s) } = Some (0 :: int, s3)"
    "told daemon screen s2 (bytes_of (''  no result (DNS may not reach internet in this VM config)'' @ newline) @
        bytes_of (''  PASS (attempted)'' @ newline)) s3"
    by (rule uttersE)
  have dr: "get_dns_rep (le32 0 @ replicate 1496 0) = Some \<lparr>dr_ip = 0\<rparr>" by (simp add: ld32_def rd_def)
  have "test_dns K fd name s = Some (0, s3)"
    using s1(1) req s2(1) rep dr s3(1) by (simp add: test_dns_def del: get_defs put_defs)
  then show ?thesis using s1(2) s2 s3(2) cmd(2) by (simp add: told_def dns_text_def)
qed

lemma client_runs:
  assumes live: "live DK \<mu>" and steady: "steady DK now" and silent: "silent DK"
    and wf: "net_wf (g_net (daemon (up_os s)))" "n_dns (g_net (daemon (up_os s))) \<noteq> 0" "n_ip (g_net (daemon (up_os s))) \<noteq> 0"
  shows "\<exists>s'. client_main K s = Some (0, s') \<and> net_wf (g_net (daemon (up_os s'))) \<and>
    screen (up_os s') = screen (up_os s) @ client_text (g_net (daemon (up_os s)))"
proof -
  let ?n = "g_net (daemon (up_os s))"
  have mac: "length (n_mac ?n) = 6" using wf(1) by (simp add: net_wf_def link_wf_def)
  have first: "utters daemon screen (usay K ''=== netd_test ==='') 0 (bytes_of (''=== netd_test ==='' @ newline))"
    by (rule usay_utters) (simp add: plain_def)
  obtain s1 where s1: "usay K ''=== netd_test ==='' s = Some (0, s1)"
    "told daemon screen s (bytes_of (''=== netd_test ==='' @ newline)) s1"
    by (rule uttersE [OF first])
  obtain fd s2 where s2: "netd_open K s1 = Some ((0, fd), s2)" "told daemon screen s1 [] s2" using open_node by blast
  have d2: "daemon (up_os s2) = daemon (up_os s)" using s1(2) s2(2) by (simp add: told_def)
  obtain s3 where s3: "test_get_info K fd s2 = Some (0, s3)" "daemon (up_os s3) = daemon (up_os s)"
    "screen (up_os s3) = screen (up_os s2) @ bytes_of (newline @ ''[1] GET_INFO'' @ newline) @ info_text (misread ?n)"
    using test_get_info_misreads [of s2 fd] mac unfolding d2 by blast
  have middle: "utters daemon screen (\<lambda>s. do { (_, s) \<leftarrow> usay K ''About to ping test'' s; (_, s) \<leftarrow> usay K ''Ping test done'' s;
      usay K ''About to DNS test'' s }) 0 (bytes_of (''About to ping test'' @ newline) @
      bytes_of (''Ping test done'' @ newline) @ bytes_of (''About to DNS test'' @ newline))"
    by (rule utters_bind usay_utters | simp add: plain_def)+
  obtain s4 where s4: "do { (_, s) \<leftarrow> usay K ''About to ping test'' s3; (_, s) \<leftarrow> usay K ''Ping test done'' s;
      usay K ''About to DNS test'' s } = Some (0, s4)"
    "told daemon screen s3 (bytes_of (''About to ping test'' @ newline) @ bytes_of (''Ping test done'' @ newline) @
      bytes_of (''About to DNS test'' @ newline)) s4"
    by (rule uttersE [OF middle])
  have d4: "daemon (up_os s4) = daemon (up_os s)" using s3(2) s4(2) by (simp add: told_def)
  obtain s5 where s5: "test_dns K fd (c_str ''example.com'') s4 = Some (0, s5)" "net_wf (g_net (daemon (up_os s5)))"
    "screen (up_os s5) = screen (up_os s4) @ dns_text (bytes_of ''example.com'')"
    using test_dns_times_out [OF live steady silent _ _ _ example_labels(1,2), of s4 "c_str ''example.com''" fd]
      example_labels(3,4) wf unfolding d4 by auto
  obtain r s6 where s6: "plain_call K SYS_CLOSE [Num fd] s5 = Some (r, s6)" "told daemon screen s5 [] s6" using close_node by blast
  have last: "utters daemon screen (usay K (newline @ ''=== done ==='')) 0 (bytes_of ((newline @ ''=== done ==='') @ newline))"
    by (rule usay_utters) (simp add: plain_def newline_def)
  obtain s7 where s7: "usay K (newline @ ''=== done ==='') s6 = Some (0, s7)"
    "told daemon screen s6 (bytes_of ((newline @ ''=== done ==='') @ newline)) s7"
    by (rule uttersE [OF last])
  have "client_main K s = Some (0, s7)"
    using s1(1) s2(1) s3(1) s4(1) s5(1) s6(1) s7(1)
    by (auto simp: client_main_def Option.bind_eq_Some_conv split: prod.splits)
  then show ?thesis
    using s1(2) s2(2) s3(3) s4(2) s5(2,3) s6(2) s7(2) by (simp add: told_def client_text_def)
qed

end

section \<open>The client and the daemon together\<close>

text \<open>A kernel that holds the daemon and the screen, and gives the requests at the node to \<open>api_invoke\<close>.\<close>

fun arg_num :: "sysarg \<Rightarrow> int" where
  "arg_num (Num n) = n"
| "arg_num _ = 0"

fun arg_bytes :: "sysarg \<Rightarrow> u8 list" where
  "arg_bytes (In (Some bs)) = bs"
| "arg_bytes (Out (Some bs)) = bs"
| "arg_bytes _ = []"

definition node_calls :: "'v kernel \<Rightarrow> ('v machine \<times> u8 list) syscalls" where
  "node_calls DK num as w =
     (case w of (d, scr) \<Rightarrow>
        if num = SYS_INVOKE
        then (case api_invoke DK (Some (arg_bytes (as ! 1))) (nat (arg_num (as ! 2))) (arg_bytes (as ! 3))
                (nat (arg_num (as ! 4))) d of
            Some ((r, out), d) \<Rightarrow> ((of_int r, [out]), (d, scr))
          | None \<Rightarrow> ((-5, []), w))
        else if num = SYS_WRITEFILE
        then ((of_int (arg_num (as ! 2)), []), (d, scr @ take (nat (arg_num (as ! 2))) (arg_bytes (as ! 1))))
        else if num = SYS_OPEN then ((if arg_bytes (as ! 0) = c_str ''$/user/netd'' then 3 else -2, []), w)
        else ((if num = SYS_CLOSE then 0 else -38, []), w))"

interpretation node_screen: screened "node_calls DK" fst snd for DK
proof unfold_locales
  fix bs :: "u8 list" and w :: "'a machine \<times> u8 list"
  show "\<exists>n w'. node_calls DK SYS_WRITEFILE [Num 1, In (Some bs), Num (int (length bs))] w = ((n, []), w') \<and>
      fst w' = fst w \<and> snd w' = snd w @ bs"
    by (cases w) (simp add: node_calls_def)
qed

interpretation node: served "node_calls DK" fst snd DK for DK
proof unfold_locales
  fix w :: "'a machine \<times> u8 list"
  show "\<exists>fd w'. node_calls DK SYS_OPEN [In (Some (c_str ''$/user/netd'')), Num 2, Num 0] w = ((fd, []), w') \<and> 0 \<le> to_int fd \<and>
      fst w' = fst w \<and> snd w' = snd w"
    by (cases w) (simp add: node_calls_def to_int_def)
next
  fix fd and w :: "'a machine \<times> u8 list"
  show "\<exists>r w'. node_calls DK SYS_CLOSE [Num fd] w = ((r, []), w') \<and> fst w' = fst w \<and> snd w' = snd w"
    by (cases w) (simp add: node_calls_def)
next
  fix req out out' :: "u8 list" and w :: "'a machine \<times> u8 list" and n fd :: int and d :: "'a machine"
  assume "api_invoke DK (Some req) (length req) out (length out) (fst w) = Some ((n, out'), d)"
  then show "\<exists>w'. node_calls DK SYS_INVOKE [Num fd, In (Some req), Num (int (length req)), Out (Some out), Num (int (length out))] w =
      ((of_int n, [out']), w') \<and> fst w' = d \<and> snd w' = snd w"
    by (cases w) (simp add: node_calls_def)
qed

lemma node_served: "served (node_calls DK) fst snd DK"
  by unfold_locales

end
