(* ===== verification/Spec2Isabelle.thy ===== *)
theory Spec2Isabelle
  imports Sample Heap_Ops Client
begin

text \<open>
  \<open>netd\<close> is the network daemon of the ModuOS system: a user program that drives one network card through a device
  file and gives the other programs ARP, IPv4, ICMP, UDP, DHCP and DNS over a node in the file system. This
  development models it as it is written, proves what its parts promise to each other, and records where the code
  does not keep a promise.

  \<^bold>\<open>The program.\<close> \<open>src/main.c\<close> opens the device, asks it for its address, its MTU and the link state, runs DHCP for
  up to ten seconds, falls back to fixed addresses, registers the node \<open>$/user/netd\<close> and receives frames for ever.
  \<open>src/driver.c\<close> speaks the request/reply protocol of the device file. A frame goes to \<open>src/arp.c\<close> (cache and
  messages) or to \<open>src/ip.c\<close>, which learns the sender and hands the payload to \<open>src/icmp.c\<close> or \<open>src/udp.c\<close>; UDP
  hands it to \<open>src/dhcp.c\<close>, \<open>src/dns.c\<close> or the mailbox of a bound port. Sending goes the same way down. Clients call
  \<open>api_invoke\<close> of \<open>src/api.c\<close>. All parts share the global \<open>g_net\<close> of \<open>include/netd.h\<close>; \<open>include/libc.h\<close> is the
  C library that the daemon carries: strings, numbers, printing, the heap and the system calls.

  \<^bold>\<open>The model.\<close>
  \<^item> The state of the process is the record \<open>machine\<close> (\<open>Netd_State\<close>): \<open>g_net\<close> with a field for each field of the C
    structure, the static \<open>g_ip_id\<close> of \<open>ip.c\<close>, and the state \<open>os\<close> of the kernel. Operations take and return it.
    The reply buffer \<open>g_rep\<close> of \<open>api.c\<close> is cleared by every request, and so is a value inside \<open>api_invoke\<close>.
  \<^item> The kernel is no part of the repository: it is the parameter \<open>K\<close>, a record of functions over a kernel state of
    any type. What theorems need of it are named hypotheses: \<open>live\<close> (the device answers after finitely many empty
    reads, and never with more bytes than asked for), \<open>steady\<close> (the clock advances when it is read and never goes
    back), \<open>silent\<close> (nothing arrives), \<open>register_codes\<close> (the registration returns an \<open>int\<close> with a negation),
    \<open>sbrk_ok\<close> (the heap grows by fresh memory), \<open>keyboard\<close> and \<open>finite_input\<close> (reads bring the keys typed, one after the
    other, and what a device holds is finite), \<open>env_kernel\<close> (the environment keeps what is put into it) and \<open>served\<close> (a
    client's requests reach the daemon). \<open>Sample\<close>, \<open>Syscalls\<close>, \<open>Client\<close> and \<open>Heap_Ops\<close> have kernels that satisfy them;
    \<open>Sample\<close> has the states that the witnesses run on.
  \<^item> A pointer into an array is the list of the bytes from there to the end of the array. Loads and stores are checked
    against it, and words are stored byte by byte, in the order the code stores them. The result \<open>None\<close> of an
    operation says that the C code does not return from it in a defined way: it leaves an object, overflows a signed
    integer, reads an argument that is not there, or waits for ever. Error codes are values. Machine integers are
    words of their width; an \<open>int\<close> that cannot leave its range is an integer.
  \<^item> Loops are recursive functions with termination proofs. Loops that wait for the world (\<open>rx_read\<close>, \<open>transact_read\<close>,
    \<open>dhcp_wait\<close>, \<open>dns_wait\<close>, \<open>ping_wait\<close>, \<open>line_loop\<close> and those that drain a device) are
    \<open>partial_function (option)\<close>; that they return is proved in \<open>Driver\<close>, \<open>Liveness\<close> and \<open>Terminal\<close>. The only fuel is
    that of \<open>strtok_all\<close>, which repeats \<open>strtok\<close>: more than the length of the string is enough, as its theorem states.

  \<^bold>\<open>The theories\<close>, in the order they build on each other.
  \<^item> \<open>Prelude\<close>: C integers and memory, byte orders, loops over slots, rules to take runs apart.
  \<^item> \<open>Netd_State\<close> (\<open>include/netd.h\<close>, system calls): constants, \<open>g_net\<close>, the kernel; \<open>Checksum\<close>: the Internet checksum
    and its algebra.
  \<^item> \<open>Driver\<close> (\<open>driver.c\<close>): what is written and read; returns, bounds, reassembly of replies.
  \<^item> \<open>Arp\<close> (\<open>arp.c\<close>): the cache as a map with expiry and eviction of the oldest; requests and replies.
  \<^item> \<open>Ip_Tx\<close>, \<open>Icmp\<close>, \<open>Udp\<close> (\<open>ip.c\<close>, \<open>icmp.c\<close>, \<open>udp.c\<close>): packets sent byte for byte, echo, the mailboxes as a map.
  \<^item> \<open>Libc_String\<close>, \<open>Libc_Number\<close> (\<open>libc.h\<close>): every string, memory and number function; \<open>Libc_Print\<close> and
    \<open>Print_Format\<close>: \<open>snprintf\<close>, \<open>printf\<close> and \<open>sprintf\<close>, and the text a format stands for; \<open>Console\<close>: the messages.
  \<^item> \<open>Dhcp\<close>, \<open>Dns\<close> (\<open>dhcp.c\<close>, \<open>dns.c\<close>): the packets, the scans of options, names and records on any bytes, the
    state machine.
  \<^item> \<open>Api_Types\<close> (\<open>api.c\<close>): the structures of the requests and replies, written and read back.
  \<^item> \<open>Rx\<close> (receiving, \<open>ip.c\<close> and \<open>main.c\<close>), \<open>Resolve\<close> (\<open>dns_resolve\<close> with its own receive loop), \<open>Api\<close> (\<open>api.c\<close>):
    each keeps the invariant \<open>net_wf\<close>, and what each returns; the host's address comes from a lease only.
  \<^item> \<open>Daemon\<close> (\<open>main.c\<close>): the start, and the running daemon as a transition system of rounds and requests;
    \<open>Liveness\<close>: the waits end.
  \<^item> \<open>Terminal\<close> (\<open>libc.h\<close>): the screen, the line editor, the draining of the input devices, and \<open>_start\<close>, which runs
    \<open>md_main\<close> and exits.
  \<^item> \<open>Libc_Heap\<close>, \<open>Heap_Blocks\<close>, \<open>Heap_Ops\<close> (\<open>libc.h\<close>): the allocator on byte-addressed memory, its invariant (blocks
    between the ends of the heap, a free list without repetitions, payloads the clients own) and the contracts.
  \<^item> \<open>Syscalls\<close> (\<open>libc.h\<close>): the wrappers for processes, users, files, volumes and the environment, which the daemon
    does not use, over a kernel of their own: a function from the number of the call and its arguments.
  \<^item> \<open>Client\<close> (\<open>examples/netd_client_test.c\<close>): the test client over that kernel, and over one that hands its requests to
    \<open>api_invoke\<close> of the daemon's model.

  \<^bold>\<open>Interfaces.\<close> Contracts between parts are locales, interpreted on the model in the theory of the provider: the table
  of mailboxes and the cache as maps, the message of a part that prints (\<open>message\<close>: it writes its words and changes no
  static), the allocator, and the kernel between a client and the daemon (\<open>served\<close>, which extends \<open>screened\<close>:
  requests at the node are answered by \<open>api_invoke\<close>, what is written appears on the screen).

  \<^bold>\<open>What is shown.\<close> The daemon starts, with or without a network, and nothing that arrives or is asked breaks its
  state; ARP, packets, the checksum and the device do what the protocols ask; then ICMP, UDP, DHCP and DNS; requests
  and replies, and what the test client makes of them; printing; the C library. Several
  theorems state that the code leaves its arrays (\<open>ip_tx_overflows\<close>, \<open>receive_request_overflows\<close>) or does not do what it means to (\<open>ping_never_succeeds\<close>,
  \<open>client_misreads_info\<close>).

  \<^bold>\<open>Not modelled.\<close>
  \<^item> A request that arrives while another one waits (\<open>yield\<close> may run the clients): requests and rounds alternate as
    wholes.
  \<^item> Of \<open>libc.h\<close>: \<open>rt_sigreturn\<close>, which goes back to the code that a signal interrupted, \<open>userfs_register_path\<close>, the
    stubs for colours, and the constants and structures of kernel interfaces.
  \<^item> Aliasing of the arguments of a print function with its destination, alignment, and strict aliasing.
  \<^item> The build files.
\<close>

section \<open>The daemon as a whole\<close>

text \<open>C1: Whatever frames arrive and whatever clients ask, in any order, every state of the running daemon
  is well formed: the adapter's address has six bytes, the ARP cache has its slots and no address twice,
  the mailboxes have theirs and hold no more than fits, the device is open and DHCP has been started.\<close>

theorem daemon_invariant:
  assumes "reachable K s"
  shows "daemon_ok (g_net s)"
  using assms by (rule reachable_ok)

theorem daemon_invariant_witness:
  "\<exists>s. md_init sample_kernel (boot 0) = Some (0, s) \<and> daemon_ok (g_net s)"
proof (rule sample_starts)
  fix s assume s: "md_init sample_kernel (boot 0) = Some (0, s)" "n_ip (g_net s) = 0x0A00020F"
  show ?thesis using s(1) daemon_invariant [OF reachable.start [OF s(1)]] by blast
qed

text \<open>C2: While the daemon runs, whatever arrives and whatever is asked, its lease only goes forward in the order of the
  states, so that a refused one stays refused; the device and the hardware address stay what they were.\<close>

theorem lease_only_advances:
  assumes "reachable K s" "(daemon_step K)\<^sup>*\<^sup>* s s'"
  shows "n_dhcp_state (g_net s) \<le> n_dhcp_state (g_net s') \<and>
    (n_dhcp_state (g_net s) \<noteq> DHCP_FAILED \<or> n_dhcp_state (g_net s') = DHCP_FAILED) \<and>
    n_fd (g_net s') = n_fd (g_net s) \<and> n_mac (g_net s') = n_mac (g_net s)"
  using lease_advances [OF assms] by (auto simp: failed_is_last)

theorem lease_only_advances_witness:
  "\<exists>s. md_init sample_kernel (boot 0) = Some (0, s) \<and>
    DHCP_DISCOVER \<le> n_dhcp_state (g_net (set_arp (replicate ARP_CACHE_SIZE zero_arp_entry) s)) \<and>
    daemon_step sample_kernel s (set_arp (replicate ARP_CACHE_SIZE zero_arp_entry) s)"
proof (rule sample_starts)
  fix s assume s: "md_init sample_kernel (boot 0) = Some (0, s)" "n_ip (g_net s) = 0x0A00020F"
  let ?s' = "set_arp (replicate ARP_CACHE_SIZE zero_arp_entry) s"
  have "api_command sample_kernel (le32 9) 4 s = Some ((0, []), ?s')"
    by (simp add: api_command_def cmd_arp_flush_def ld32_def rd_def)
  then have "api_invoke sample_kernel (Some (le32 9)) 4 (replicate 8 0) 8 s = Some ((8, replicate 8 0), ?s')"
    using api_invoke_eq [of sample_kernel "le32 9" 4 s 0 "[]" ?s' 8 "replicate 8 0"]
    by (simp add: le32_def numeral_eq_Suc)
  then have step: "daemon_step sample_kernel s ?s'" by (rule daemon_step.request)
  then have steps: "(daemon_step sample_kernel)\<^sup>*\<^sup>* s ?s'" by blast
  have "DHCP_DISCOVER \<le> n_dhcp_state (g_net s)"
    using reachable_ok [OF reachable.start [OF s(1)]]
    by (cases "n_dhcp_state (g_net s)") (simp_all add: daemon_ok_def less_eq_dhcp_state_t_def)
  also have "\<dots> \<le> n_dhcp_state (g_net ?s')"
    using lease_only_advances [OF reachable.start [OF s(1)] steps] by blast
  finally show ?thesis using s(1) step by blast
qed

text \<open>C3: On a network on which nothing arrives the daemon starts all the same: with a device that opens and
  tells its address, a clock that advances and a driver that answers, the ten seconds of DHCP end and the
  receive loop is reached with the fallback address 10.0.2.15, DHCP still discovering.\<close>

theorem startup_without_network:
  assumes "live K \<mu>" "steady K now" "silent K" "register_codes K" "length (n_mac (g_net s)) = 6"
    and "say K ''[netd] starting'' s = Some (0, s0)" "sys_open K NIC_PATH 2 0 s0 = (fd, s1)" "0 \<le> fd"
    and "query_mac K (set_net (g_net s1\<lparr>n_fd := fd\<rparr>) s1) = Some (0, s2)"
  shows "\<exists>s'. md_init K s = Some (0, s') \<and> n_dhcp_state (g_net s') = DHCP_DISCOVER \<and>
    net_wf (g_net s') \<and> n_ip (g_net s') = 0x0A00020F"
  using assms by (rule md_init_silent)

theorem startup_without_network_witness:
  "\<exists>s'. md_init sample_kernel sample = Some (0, s') \<and> n_dhcp_state (g_net s') = DHCP_DISCOVER \<and>
    net_wf (g_net s') \<and> n_ip (g_net s') = 0x0A00020F"
proof -
  have mac: "length (n_mac (g_net sample)) = 6" by simp
  obtain s0 s1 s2 where b: "say sample_kernel ''[netd] starting'' sample = Some (0, s0)"
    "sys_open sample_kernel NIC_PATH 2 0 s0 = (3, s1)"
    "query_mac sample_kernel (set_net (g_net s1\<lparr>n_fd := 3\<rparr>) s1) = Some (0, s2)"
    by (rule sample_begins [OF mac])
  show ?thesis
    using startup_without_network [OF sample_live sample_steady sample_silent sample_codes mac b(1,2) _ b(3)] by simp
qed

text \<open>C4: The start ends with 0 or 1 only, and with 0 only in a well-formed state that has an open device, a
  started DHCP machine and addresses: those of a lease or the fallback ones.\<close>

theorem startup_configures:
  assumes "length (n_mac (g_net s)) = 6" "md_init K s = Some (rc, s')"
  shows "rc = 1 \<or> rc = 0 \<and> net_wf (g_net s') \<and> configured (g_net s') \<and>
    n_dhcp_state (g_net s') \<noteq> DHCP_IDLE \<and> 0 \<le> n_fd (g_net s')"
  using md_init_post [OF assms] by blast

theorem startup_configures_witness:
  "\<exists>s'. md_init sample_kernel (boot 0) = Some (0, s') \<and> configured (g_net s')"
proof (rule sample_starts)
  fix s' assume s': "md_init sample_kernel (boot 0) = Some (0, s')" "n_ip (g_net s') = 0x0A00020F"
  show ?thesis using startup_configures [OF _ s'(1)] s'(1) by (simp add: boot_def zero_net_def)
qed

section \<open>Receiving\<close>

text \<open>C5: No frame that is handled to its end, whatever its bytes, breaks the invariant, the host's device or its own
  hardware address; the DHCP machine moves only by its steps; and the host's address changes only to that of a lease it
  has asked for: the frame received is an IP packet with a datagram for the client's port, whose message is a server's
  reply with the client's transaction number, the cookie and the type of an acknowledgement, and the new address is the
  one this message gives.\<close>

theorem frames_keep_invariant:
  assumes "net_wf (g_net s)" "rx_once K s = Some ((), s')"
  shows "net_wf (g_net s') \<and> n_fd (g_net s') = n_fd (g_net s) \<and> n_mac (g_net s') = n_mac (g_net s) \<and>
    dhcp_step (n_dhcp_state (g_net s)) (n_dhcp_state (g_net s')) \<and>
    (n_ip (g_net s') = n_ip (g_net s) \<or>
     n_dhcp_state (g_net s) = DHCP_REQUEST \<and> n_dhcp_state (g_net s') = DHCP_BOUND \<and>
     (\<exists>n frame flen s1. driver_rx K (junk K s 1518) 1518 s = Some ((n, frame, flen), s1) \<and> 0 < n \<and>
        lease_frame frame (n_dhcp_xid (g_net s)) (n_ip (g_net s'))))"
proof -
  have step: "rx_step s s'" by (rule rx_once_step [OF assms])
  obtain n frame flen s1 where "driver_rx K (junk K s 1518) 1518 s = Some ((n, frame, flen), s1)"
    "n_ip (g_net s') = n_ip (g_net s) \<or> 0 < n \<and> readdressed (lease_frame frame) (g_net s) (g_net s')"
    by (rule rx_once_readdressed [OF assms])
  then show ?thesis using step assms(1) unfolding rx_step_def readdressed_def by blast
qed

theorem frames_keep_invariant_witness:
  "\<exists>s'. rx_once (frame_kernel ack_frame) sample_asking = Some ((), s') \<and> net_wf (g_net s') \<and>
    n_ip (g_net sample_asking) = 0 \<and> n_ip (g_net s') = 0x0A000209 \<and>
    (\<exists>n frame flen s1. driver_rx (frame_kernel ack_frame) (junk (frame_kernel ack_frame) sample_asking 1518) 1518
        sample_asking = Some ((n, frame, flen), s1) \<and> lease_frame frame 0 0x0A000209)"
proof (rule ack_frame_received)
  fix s' assume r: "rx_once (frame_kernel ack_frame) sample_asking = Some ((), s')"
    and ip: "n_ip (g_net s') = 0x0A000209"
  have s: "net_wf (g_net sample_asking)" "n_ip (g_net sample_asking) = 0" "n_dhcp_xid (g_net sample_asking) = 0"
    by (simp_all add: sample_asking_def set_net_def net_wf_def link_wf_def)
  have "n_ip (g_net s') \<noteq> n_ip (g_net sample_asking)" unfolding ip s(2) by simp
  with frames_keep_invariant [OF s(1) r] r ip s show ?thesis by auto
qed

text \<open>C6: A packet whose lengths are consistent is handled to its end, with every access inside the objects it is
  made to: its total length fits a frame, and a datagram ends inside it. An echo request must also be one that can be
  answered, with at most 1466 bytes of message: a longer one, up to the 1500 of a frame, makes the answer overrun the
  driver's packet.\<close>

theorem sane_frames_are_handled:
  assumes "live K \<mu>" "net_wf (g_net s)" "length frame = 1518" "ip_sane frame"
    and "frame ! 23 = IPPROTO_ICMP \<Longrightarrow> frame ! (14 + ihl_at frame) = ICMP_ECHO_REQ \<Longrightarrow>
      tot_len_at frame \<le> ihl_at frame + 1466"
  shows "\<exists>s'. ip_rx K frame len s = Some ((), s')"
  by (rule ip_rx_returns [OF assms]) blast+

theorem sane_frames_are_handled_witness:
  "\<exists>s' s''. ip_rx sample_kernel sample_echo 60 sample = Some ((), s') \<and> tot_len_at sample_echo = 36 \<and>
     sample_echo ! 23 = IPPROTO_ICMP \<and> sample_echo ! 34 = ICMP_ECHO_REQ \<and>
     ip_rx sample_kernel sample_datagram 60 sample = Some ((), s'') \<and> sample_datagram ! 23 = IPPROTO_UDP"
proof -
  note e = sample_echo_lengths and d = sample_datagram_lengths
  have "\<exists>s'. ip_rx sample_kernel sample_echo 60 sample = Some ((), s')"
    by (rule sane_frames_are_handled [OF sample_live]) (use e in \<open>simp_all add: ip_sane_def\<close>)
  moreover have "\<exists>s'. ip_rx sample_kernel sample_datagram 60 sample = Some ((), s')"
    by (rule sane_frames_are_handled [OF sample_live]) (use d in \<open>simp_all add: ip_sane_def\<close>)
  ultimately show ?thesis using e d by auto
qed

text \<open>C7: A datagram of 1 to 1458 bytes for a bound port goes to its mailbox with its sender, whatever follows it in
  the frame, and the sender's hardware address is learned; no other mailbox is touched. Datagrams for the port of
  the DHCP client or from the port of a name server do not go to mailboxes.\<close>

theorem datagram_reaches_mailbox:
  assumes "net_wf (g_net s)" "length dmac = 6" "length smac = 6" "34 \<le> len"
    and "data \<noteq> []" "length data \<le> 1458"
    and "dst = n_ip (g_net s)" "dp \<in> dom (ports_of s)" "dp \<noteq> DHCP_PORT_CLIENT" "sp \<noteq> DNS_PORT"
  shows "\<exists>s'. ip_rx K (ip_frame dmac smac ident IPPROTO_UDP src dst (udp_datagram sp dp data) @ pad) len s
      = Some ((), s') \<and>
    ports_of s' = (ports_of s)(dp \<mapsto> (data, src, sp)) \<and>
    arp_view (n_arp_cache (g_net s')) src = Some (smac, fst (time_ms K s))"
  using udp_delivered [OF assms] by metis

theorem datagram_reaches_mailbox_witness:
  "\<exists>s'. ip_rx sample_kernel (ip_frame (replicate 6 1) (replicate 6 2) 5 IPPROTO_UDP 0x0A000201 0x0A00020F
        (udp_datagram 9 7 [1, 2, 3]) @ replicate 20 0) 65 sample_bound = Some ((), s') \<and>
     ports_of s' 7 = Some ([1, 2, 3], 0x0A000201, 9)"
proof -
  have "7 \<in> dom (ports_of sample_bound)" by (simp add: domIff)
  then show ?thesis
    using datagram_reaches_mailbox [where s = sample_bound and K = sample_kernel and dmac = "replicate 6 1"
        and smac = "replicate 6 2" and data = "[1, 2, 3]" and dst = "0x0A00020F" and dp = 7 and sp = 9
        and len = 65 and src = "0x0A000201" and ident = 5 and pad = "replicate 20 0"] by auto
qed

section \<open>ARP\<close>

text \<open>C8: A request for the host's address, from a sender that has an address, is answered, once the host has one, with
  exactly one frame: the reply to the sender, with the host's hardware address; and the sender is learned.\<close>

theorem arp_request_is_answered:
  assumes "length (n_mac (g_net s)) = 6" "length mac = 6" "length dst = 6" "42 \<le> len"
    and "src_ip \<noteq> 0" "n_ip (g_net s) \<noteq> 0" "n_ip (g_net s) = dst_ip" "time_ms K s = (t, s1)"
  shows "arp_rx K (arp_frame ARP_OP_REQUEST mac dst src_ip dst_ip @ pad) len s =
    map_option (\<lambda>(_, s). ((), s))
      (send_frame K (arp_frame ARP_OP_REPLY (n_mac (g_net s)) mac dst_ip src_ip)
        (set_arp (arp_store src_ip mac t (n_arp_cache (g_net s))) s1))"
  using assms by (rule arp_answers)

theorem arp_request_is_answered_witness:
  "arp_rx sample_kernel (arp_frame ARP_OP_REQUEST (replicate 6 2) (replicate 6 255) 0x0A000201 0x0A00020F
       @ replicate 18 0) 60 sample =
     map_option (\<lambda>(_, s). ((), s))
       (send_frame sample_kernel (arp_frame ARP_OP_REPLY [2, 0, 0, 0, 0, 1] (replicate 6 2) 0x0A00020F 0x0A000201)
         (set_arp (arp_store 0x0A000201 (replicate 6 2) 0 (replicate 16 zero_arp_entry)) (sample\<lparr>os := 1000000\<rparr>)))"
  using arp_request_is_answered [where s = sample and K = sample_kernel and mac = "replicate 6 2"
      and dst = "replicate 6 255" and len = 60 and src_ip = "0x0A000201" and dst_ip = "0x0A00020F"
      and pad = "replicate 18 0"]
  by (simp add: clock_reading_def)

text \<open>C9: What was learned is found until the timeout: a lookup after \<open>arp_learn\<close> returns the address
  learned if it comes less than 30 seconds later, and nothing after that.\<close>

theorem learned_address_is_found:
  assumes "arp_ok (n_arp_cache (g_net s))" "6 \<le> length mac" "time_ms K s = (t, s1)"
    and "arp_learn K ip mac s = Some ((), s2)"
  shows "fst (arp_lookup K ip s2) =
    (if fst (time_ms K s2) - t < ARP_TIMEOUT_MS then Some (take 6 mac) else None)"
  using assms by (rule arp_learn_then_lookup)

theorem learned_address_is_found_witness:
  "\<exists>s. arp_learn sample_kernel 0x0A000201 (replicate 6 2) sample = Some ((), s) \<and>
     fst (arp_lookup sample_kernel 0x0A000201 s) = Some (replicate 6 2)"
proof -
  have l: "arp_learn sample_kernel 0x0A000201 (replicate 6 2) sample =
      Some ((), set_arp (arp_store 0x0A000201 (replicate 6 2) 0 (replicate 16 zero_arp_entry)) (sample\<lparr>os := 1000000\<rparr>))"
    using arp_learn_eq [of "replicate 6 2" sample_kernel "0x0A000201" sample] by (simp add: clock_reading_def)
  have "arp_ok (n_arp_cache (g_net sample))" using sample_arp_wf by (simp add: arp_wf_def)
  from learned_address_is_found [OF this _ _ l] show ?thesis
    using l by (simp add: clock_reading_def set_arp_def set_net_def)
qed

text \<open>C10: Learning an address forgets another one only when the cache is full of others, and then the one
  that was learned or refreshed longest ago.\<close>

theorem only_oldest_is_evicted:
  assumes "arp_ok c" "arp_view c ip' = Some (m', t')" "ip' \<noteq> ip" "arp_view (arp_store ip m t c) ip' = None"
  shows "arp_view c ip = None \<and> (\<forall>e\<in>set c. ae_valid e \<and> t' \<le> ae_ts e)"
  using assms by (rule arp_store_evicts)

theorem only_oldest_is_evicted_witness:
  "arp_view sample_full 1 = Some (replicate 6 1, 5) \<and>
   arp_view (arp_store 100 (replicate 6 9) 900 sample_full) 1 = None \<and> list_all (\<lambda>e. 5 \<le> ae_ts e) sample_full"
proof -
  have a: "arp_ok sample_full" "arp_view sample_full 1 = Some (replicate 6 1, 5)"
    "arp_view (arp_store 100 (replicate 6 9) 900 sample_full) 1 = None"
    by code_simp+
  from only_oldest_is_evicted [OF a(1,2) _ a(3)] a show ?thesis by (simp add: list_all_iff)
qed

text \<open>C11: The cache refines a map from addresses to hardware addresses with a time: a lookup returns the
  entry of the map if it is younger than 30 seconds at the time of the call, and nothing otherwise; and an
  entry it finds too old is gone from the map afterwards, with every other one unchanged.\<close>

theorem arp_lookup_refines_map:
  assumes "arp_ok (n_arp_cache (g_net s))" "arp_lookup K ip s = (r, s')"
  shows "r = (case arp_view (n_arp_cache (g_net s)) ip of
       None \<Rightarrow> None
     | Some (m, ts) \<Rightarrow> if fst (time_ms K s) - ts < ARP_TIMEOUT_MS then Some m else None) \<and>
    arp_view (n_arp_cache (g_net s')) ip' =
      (if ip' = ip \<and> r = None then None else arp_view (n_arp_cache (g_net s)) ip')"
  using arp_lookup_result [OF assms(1), of K ip] arp_lookup_view [OF assms] by (simp add: assms(2))

theorem arp_lookup_refines_map_witness:
  "\<exists>s'. arp_lookup sample_kernel 1 ((set_arp sample_full sample)\<lparr>os := 7000000\<rparr>) = (Some (replicate 6 1), s') \<and>
     arp_view (n_arp_cache (g_net s')) 2 = Some (replicate 6 1, 6)"
proof -
  let ?s = "(set_arp sample_full sample)\<lparr>os := 7000000\<rparr>"
  have c: "n_arp_cache (g_net ?s) = sample_full" by (simp add: set_arp_def set_net_def)
  have v: "arp_ok sample_full" "arp_view sample_full 1 = Some (replicate 6 1, 5)"
    "arp_view sample_full 2 = Some (replicate 6 1, 6)" by code_simp+
  obtain r s' where l: "arp_lookup sample_kernel 1 ?s = (r, s')" by fastforce
  have ok: "arp_ok (n_arp_cache (g_net ?s))" unfolding c by (rule v(1))
  have "r = Some (replicate 6 1)"
    using arp_lookup_refines_map [OF ok l, of 1] unfolding c v by (simp add: clock_reading_def)
  then show ?thesis using arp_lookup_refines_map [OF ok l, of 2] l unfolding c v by simp
qed

section \<open>Sending\<close>

text \<open>C12: An IP packet of up to 1466 payload bytes goes out as one Ethernet frame with the host's hardware address, the
  type, the header and the payload, and the packet counter advances. The frame goes to the broadcast address if the
  packet does; otherwise to the hardware address that the cache has, not yet expired, for the next hop, which is the
  destination on the host's own network or without a gateway, and the gateway for any other. If the cache has
  none, an ARP request for the next hop goes out in front, and the packet to the broadcast address.\<close>

theorem ip_packet_is_sent:
  assumes "link_wf (g_net s)" "unat plen \<le> length payload" "unat plen \<le> 1466"
    and "hop = (if n_gateway (g_net s) = 0 \<or> dst AND n_netmask (g_net s) = n_ip (g_net s) AND n_netmask (g_net s)
      then dst else n_gateway (g_net s))"
    and "time_ms K s = (t, s1)"
    and "send = (\<lambda>m s'. send_frame K (ip_frame m (n_mac (g_net s)) (g_ip_id s) proto (n_ip (g_net s)) dst
      (take (unat plen) payload)) (s'\<lparr>g_ip_id := g_ip_id s + 1\<rparr>))"
  shows "ip_tx K dst proto payload plen s =
    (if dst = IP_BCAST \<or> hop = IP_BCAST then send bcast s
     else case known_mac (n_arp_cache (g_net s)) hop t of
       Some m \<Rightarrow> send m s1
     | None \<Rightarrow> do {
         (_, s2) \<leftarrow> send_frame K (arp_frame ARP_OP_REQUEST (n_mac (g_net s)) bcast (n_ip (g_net s)) hop)
           (snd (arp_lookup K hop s));
         send bcast s2
       })"
  by (rule ip_tx_hop [OF assms(1-3) assms(4) [folded on_link_def] assms(5)]) (simp add: assms(6))

theorem ip_packet_is_sent_witness:
  "ip_tx sample_kernel 0x08080808 IPPROTO_UDP [1, 2, 3] 3 sample_cached =
     send_frame sample_kernel (ip_frame [2, 0, 0, 0, 0, 2] [2, 0, 0, 0, 0, 1] 1 IPPROTO_UDP 0x0A00020F 0x08080808 [1, 2, 3])
       (sample_cached\<lparr>os := 1000000, g_ip_id := 2\<rparr>)"
proof -
  have "known_mac (n_arp_cache (g_net sample_cached)) 0x0A000201 0 = Some [2, 0, 0, 0, 0, 2]"
    by (simp add: known_mac_def)
  then show ?thesis
    using ip_packet_is_sent [where s = sample_cached and K = sample_kernel and plen = 3 and payload = "[1, 2, 3]"
        and dst = "0x08080808" and proto = IPPROTO_UDP, OF sample_cached_simps(1) _ _ refl sample_time refl]
    by (simp add: clock_reading_def)
qed

text \<open>C13: Storing the Internet checksum, in network order, into an even, cleared position of any data of up to
  65536 bytes makes the checksum of the whole zero, which is how receivers verify it.\<close>

theorem checksum_verifies:
  assumes "len \<le> length data" "len \<le> 65536" "even k" "k + 2 \<le> len" "take 2 (drop k data) = [0, 0]"
    and "inet_cksum data len = Some c" "st16 k (htons c) data = Some data'"
  shows "inet_cksum data' len = Some 0"
  using assms by (rule inet_cksum_verifies)

theorem checksum_verifies_witness:
  "inet_cksum [8, 0, 0, 0, 5] 5 = Some 0xF2FF \<and> inet_cksum [8, 0, 0xF2, 0xFF, 5] 5 = Some 0"
proof -
  have c: "inet_cksum [8, 0, 0, 0, 5] 5 = Some 0xF2FF" by code_simp
  have s: "st16 2 (htons 0xF2FF) [8, 0, 0, 0, 5] = Some [8, 0, 0xF2, 0xFF, 5]" by code_simp
  show ?thesis using c checksum_verifies [OF _ _ _ _ _ c s] by simp
qed

text \<open>C14: A payload of 1467 bytes or more, up to the 65535 that the length argument allows, makes \<open>ip_tx\<close> write
  or read outside its arrays: the 14 + 20 + 1500 bytes of the frame do not fit the 8 + 1500 of the
  driver's packet.\<close>

theorem ip_tx_overflows:
  assumes "1466 < unat plen"
  shows "ip_tx K dst proto payload plen s = None"
  using assms by (rule ip_tx_overflow)

theorem ip_tx_overflows_witness: "ip_tx sample_kernel 0xFFFFFFFF IPPROTO_UDP (replicate 1500 0) 1467 sample = None"
  by (rule ip_tx_overflows) simp

text \<open>C15: A reply that arrives in pieces, of which only the last ends with a zero byte, is put together: the
  caller's array gets the frame behind the 12-byte header, as much of it as there is room, and nothing
  behind it changes, for a frame of 1 to 1508 bytes.\<close>

theorem reply_is_reassembled:
  assumes "k_write K (n_fd (g_net s)) (le32 NET_CMD_RX_POLL @ replicate 4 0) (os s) = (n, w1)" "0 \<le> n"
    and "delivers K (n_fd (g_net s)) 0 cs w1 w2" "r = concat cs" "12 \<le> length r"
    and "0 < reply_len r" "reply_len r \<le> 1508" "unat len = length frame" "length frame < 2 ^ 31"
  shows "driver_rx K frame len s =
    (let k = min (reply_len r) (length frame)
     in Some ((int k, take k (drop 12 (r @ replicate 1520 0)) @ drop k frame, of_nat k), s\<lparr>os := w2\<rparr>))"
  using assms by (rule driver_rx_delivers)

theorem reply_is_reassembled_witness:
  "driver_rx (wire_kernel (replicate 8 0 @ le32 3 @ [7, 8, 9, 0])) [1, 1, 1, 1, 1] 5 sample =
     Some ((3, [7, 8, 9, 1, 1], 3), sample\<lparr>os := 2\<rparr>)"
proof -
  let ?r = "replicate 8 0 @ le32 3 @ [7, 8, 9, 0]"
  have l: "reply_len ?r = 3" by (simp add: reply_len_def)
  have w: "k_write (wire_kernel ?r) (n_fd (g_net sample)) (le32 NET_CMD_RX_POLL @ replicate 4 0) (os sample) = (8, 1)"
    by (simp add: wire_kernel_def sample_kernel_def)
  have d: "delivers (wire_kernel ?r) (n_fd (g_net sample)) 0 [?r] 1 2"
    by (simp add: wire_kernel_def)
  show ?thesis using reply_is_reassembled [OF w _ d refl, of 5 "[1, 1, 1, 1, 1]"] l by simp
qed

section \<open>ICMP\<close>

text \<open>C16: An echo request of 8 to 1466 bytes is answered to its sender with the same identifier, sequence number
  and data, type 0, code 0 and a right checksum.\<close>

theorem echo_request_is_answered:
  assumes "8 \<le> len" "len \<le> 1466" "nat len \<le> length data" "data ! 0 = ICMP_ECHO_REQ"
  shows "icmp_rx K src data len s =
    map_option (\<lambda>(_, s). ((), s))
      (ip_tx K src IPPROTO_ICMP (icmp_msg ICMP_ECHO_REP (drop 4 (take (nat len) data))) (of_int len) s)"
  using assms by (rule icmp_rx_request)

theorem echo_request_is_answered_witness:
  "icmp_rx sample_kernel 0x0A000201 [8, 0, 1, 2, 0, 7, 0, 1, 5, 99] 9 sample =
     map_option (\<lambda>(_, s). ((), s))
       (ip_tx sample_kernel 0x0A000201 IPPROTO_ICMP (icmp_msg ICMP_ECHO_REP [0, 7, 0, 1, 5]) 9 sample)"
  using echo_request_is_answered [of 9 "[8, 0, 1, 2, 0, 7, 0, 1, 5, 99]" sample_kernel "0x0A000201" sample]
  by simp

text \<open>C17: A ping closes the circle between two hosts. \<open>icmp_ping\<close> stores the identifier and the sequence number it is
  called with and sends an echo request with them and a right checksum; a host that receives this request, whatever
  follows it in the frame, sends an answer with a right checksum; and the first host, in the state that \<open>icmp_ping\<close> has
  left, recognises that answer as the reply it waits for and records who has sent it.\<close>

theorem ping_round_trip:
  assumes "link_wf (g_net a)" "icmp_ping K dst ident seqno a = Some (st, a')"
  shows "\<exists>req answer. length req = 16 \<and> inet_cksum req 16 = Some 0 \<and>
    ip_tx K dst IPPROTO_ICMP req 16
      (set_net (g_net a\<lparr>n_ping_id := ident, n_ping_seq := seqno, n_ping_replied := False\<rparr>) a) = Some (st, a') \<and>
    take 8 req = [ICMP_ECHO_REQ, 0] @ take 2 (drop 2 req) @ be16 ident @ be16 seqno \<and>
    length answer = 16 \<and> inet_cksum answer 16 = Some 0 \<and>
    icmp_rx K2 src (req @ pad) 16 b =
      map_option (\<lambda>(_, s). ((), s)) (ip_tx K2 src IPPROTO_ICMP answer 16 b) \<and>
    icmp_rx K' src' (answer @ pad') 16 a' =
      Some ((), set_net (g_net a'\<lparr>n_ping_reply_ip := src', n_ping_replied := True\<rparr>) a')"
proof -
  have sent: "ip_tx K dst IPPROTO_ICMP (ping_msg ident seqno) 16
      (set_net (g_net a\<lparr>n_ping_id := ident, n_ping_seq := seqno, n_ping_replied := False\<rparr>) a) = Some (st, a')"
    using assms(2) by (simp only: icmp_ping_eq)
  have "take 8 (ping_msg ident seqno) =
      [ICMP_ECHO_REQ, 0] @ take 2 (drop 2 (ping_msg ident seqno)) @ be16 ident @ be16 seqno"
    by (simp add: ping_msg_def icmp_msg_def)
  with icmp_ping_answered [OF assms, of K2 src pad b K' src' pad'] ping_msg_verifies [of ident seqno] sent
  show ?thesis by blast
qed

theorem ping_round_trip_witness:
  "\<exists>st a' answer. icmp_ping sample_kernel 0x0A000203 7 1 sample = Some (st, a') \<and>
    length answer = 16 \<and> inet_cksum answer 16 = Some 0 \<and>
    icmp_rx sample_kernel 0x0A000203 (answer @ [3]) 16 a' =
      Some ((), set_net (g_net a'\<lparr>n_ping_reply_ip := 0x0A000203, n_ping_replied := True\<rparr>) a')"
proof -
  have wf: "link_wf (g_net sample)" using sample_wf by (simp add: net_wf_def)
  obtain st a' where p: "icmp_ping sample_kernel 0x0A000203 7 1 sample = Some (st, a')"
    by (rule icmp_ping_returns [OF sample_live wf])
  from ping_round_trip [OF wf p, of sample_kernel "0x0A000202" "[]" sample sample_kernel "0x0A000203" "[3]"] p
  show ?thesis by blast
qed

section \<open>UDP\<close>

text \<open>C18: A datagram goes through a mailbox unchanged: after a successful bind, a delivered datagram is what the
  next receive returns, with its length and its sender, and the mailbox is empty then.\<close>

theorem bind_deliver_receive:
  assumes "binds_wf (n_udp_binds (g_net s))" "udp_bind p s = (0, s1)"
    and "0 < payload_len" "nat payload_len \<le> length payload" "payload_len \<le> 2048"
    and "payload_len \<le> mx" "nat mx \<le> length buf"
  shows "\<exists>s2 s3. udp_deliver src_ip src_port p payload payload_len s1 = Some ((), s2) \<and>
    udp_recv p buf mx s2 = Some ((payload_len, take (nat payload_len) payload @ drop (nat payload_len) buf,
       Some (src_ip, src_port)), s3) \<and>
    udp_recv p buf mx s3 = Some ((0, buf, None), s3)"
  using udp_bind_deliver_recv [OF assms] by metis

theorem bind_deliver_receive_witness:
  "\<exists>s2 s3. udp_deliver 5 9 7 [1, 2, 3] 2 sample_bound = Some ((), s2) \<and>
    udp_recv 7 [0, 0, 0] 3 s2 = Some ((2, [1, 2, 0], Some (5, 9)), s3) \<and>
    udp_recv 7 [0, 0, 0] 3 s3 = Some ((0, [0, 0, 0], None), s3)"
proof -
  have b: "binds_wf (n_udp_binds (g_net sample))" by simp
  show ?thesis
    using bind_deliver_receive [where payload_len = 2 and payload = "[1, 2, 3]" and mx = 3
        and buf = "[0, 0, 0]" and src_ip = 5 and src_port = 9, OF b sample_bound_simps(1)] by simp
qed

section \<open>DHCP\<close>

text \<open>C19: The option scans find, in every well-formed list of options, pad bytes between them included, the first option
  with the tag and at least four bytes, and read its value in network order, 0 if there is none; and the first byte
  of the first message type that has one, or 0.\<close>

theorem option_is_found:
  assumes "\<forall>x\<in>set opl. opt_ok x" "int (length (enc_opts opl)) < opts_len"
  shows "dhcp_get_opt32 (enc_opts opl @ OPT_END # rest) opts_len tag = Some (find_opt32 tag opl) \<and>
    dhcp_get_msg_type (enc_opts opl @ OPT_END # rest) opts_len = Some (find_msg_type opl)"
  using dhcp_get_opt32_options [OF assms] dhcp_get_msg_type_options [OF assms] by simp

theorem option_is_found_witness:
  "dhcp_get_opt32 (enc_opts [Pad, Opt 53 [2], Opt 1 [255, 255, 255, 0]] @ [255]) 12 1 = Some 0xFFFFFF00 \<and>
   dhcp_get_msg_type (enc_opts [Pad, Opt 53 [2], Opt 1 [255, 255, 255, 0]] @ [255]) 12 = Some 2"
proof -
  have "find_opt32 1 [Pad, Opt 53 [2], Opt 1 [255, 255, 255, 0]] = 0xFFFFFF00"
    "find_msg_type [Pad, Opt 53 [2], Opt 1 [255, 255, 255, 0]] = 2" by code_simp+
  moreover have "\<forall>x\<in>set [Pad, Opt 53 [2], Opt 1 [255, 255, 255, 0]]. opt_ok x" by code_simp
  moreover have "length (enc_opts [Pad, Opt 53 [2], Opt 1 [255, 255, 255, 0]]) = 10" by code_simp
  ultimately show ?thesis
    using option_is_found [of "[Pad, Opt 53 [2], Opt 1 [255, 255, 255, 0]]" 12 "[]" 1] by simp
qed

text \<open>C20: The DHCP machine moves only on a reply of a server, with the client's transaction number and the cookie: an
  offer takes it from discovering to requesting, an acknowledgement from requesting to bound, with the address that the
  message gives, and a refusal from any state to failed. No other message changes anything, and no offer or refusal
  changes the host's address.\<close>

theorem dhcp_moves_by_its_steps:
  assumes "link_wf (g_net s)" "dhcp_rx K src_ip data len s = Some ((), s')"
  shows "s' = s \<or>
    (\<exists>msg. 240 \<le> len \<and> data ! 0 = 2 \<and> of_be32 (take 4 (drop 4 data)) = n_dhcp_xid (g_net s) \<and>
       of_be32 (take 4 (drop 236 data)) = DHCP_MAGIC \<and> dhcp_get_msg_type (drop 240 data) (len - 240) = Some msg \<and>
       (msg = MSG_OFFER \<and> n_dhcp_state (g_net s) = DHCP_DISCOVER \<and> n_dhcp_state (g_net s') = DHCP_REQUEST \<and>
          n_ip (g_net s') = n_ip (g_net s) \<or>
        msg = MSG_ACK \<and> n_dhcp_state (g_net s) = DHCP_REQUEST \<and> n_dhcp_state (g_net s') = DHCP_BOUND \<and>
          n_ip (g_net s') = of_be32 (take 4 (drop 16 data)) \<or>
        msg = MSG_NAK \<and> n_dhcp_state (g_net s') = DHCP_FAILED \<and> n_ip (g_net s') = n_ip (g_net s)))"
  using dhcp_rx_authentic [OF assms] unfolding dhcp_reply_def dhcp_yiaddr_def BOOT_REPLY_def by blast

theorem dhcp_moves_by_its_steps_witness:
  "\<exists>s'. dhcp_rx sample_kernel 0x0A000201 (sample_msg 0 [Opt 53 [6]]) (int (length (sample_msg 0 [Opt 53 [6]]))) sample
      = Some ((), s') \<and> n_dhcp_state (g_net s') = DHCP_FAILED \<and>
     dhcp_get_msg_type (drop 240 (sample_msg 0 [Opt 53 [6]])) (int (length (sample_msg 0 [Opt 53 [6]])) - 240) = Some 6"
proof -
  have m: "dhcp_msg (sample_msg 0 [Opt 53 [6]]) (int (length (sample_msg 0 [Opt 53 [6]]))) 0 0 [Opt 53 [6]]"
    by (rule sample_msg_ok) simp
  obtain t where t: "say sample_kernel ''[DHCP] NAK received, retrying'' sample = Some (0, t)" "same_statics sample t"
    by (rule say_nak.speaks)
  have r: "dhcp_rx sample_kernel 0x0A000201 (sample_msg 0 [Opt 53 [6]]) (int (length (sample_msg 0 [Opt 53 [6]]))) sample
      = Some ((), set_net (sample_net\<lparr>n_dhcp_state := DHCP_FAILED\<rparr>) t)"
    using dhcp_rx_eq [OF m, of sample_kernel "0x0A000201" sample] t by (simp add: dhcp_react_def same_statics_def)
  have "link_wf (g_net sample)" using sample_wf by (simp add: net_wf_def)
  note moved = dhcp_moves_by_its_steps [OF this r]
  have "n_dhcp_state (g_net (set_net (sample_net\<lparr>n_dhcp_state := DHCP_FAILED\<rparr>) t)) = DHCP_FAILED"
    "n_dhcp_state (g_net sample) = DHCP_IDLE" by (simp_all add: set_net_def)
  with moved r show ?thesis by (metis MSG_NAK_def dhcp_state_t.distinct)
qed

text \<open>C21: The handshake leads to a lease: in the discovering state, an offer with a server identifier makes the client
  print it, move to the requesting state, and send one datagram to all hosts, a request with its transaction number
  and hardware address that names the offered address and the server; the acknowledgement that follows binds the
  host to the address, mask, router and name server that it carries.\<close>

theorem dhcp_obtains_lease:
  assumes "live K \<mu>" "link_wf (g_net s)"
    and "n_dhcp_state (g_net s) = DHCP_DISCOVER" "n_dhcp_xid (g_net s) = xid"
    and "dhcp_msg d1 l1 xid yi opl1" "find_msg_type opl1 = MSG_OFFER"
      "find_opt32 OPT_SERVER_ID opl1 = server" "server \<noteq> 0"
    and "dhcp_msg d2 l2 xid yi2 opl2" "find_msg_type opl2 = MSG_ACK"
      "find_opt32 OPT_SUBNET opl2 = nm" "nm \<noteq> 0"
    and "req = dhcp_packet xid (n_mac (g_net s)) (dhcp_options MSG_REQUEST yi server)"
  shows "\<exists>t st u s1 s2.
    say_offer K yi server (set_net (g_net s\<lparr>n_dhcp_server := server\<rparr>) s) = Some (0, t) \<and>
    udp_tx K IP_BCAST DHCP_PORT_CLIENT DHCP_PORT_SERVER req (of_nat (length req))
      (set_net (g_net t\<lparr>n_dhcp_state := DHCP_REQUEST\<rparr>) t) = Some (st, u) \<and>
    say K ''[DHCP] REQUEST sent'' u = Some (0, s1) \<and>
    dhcp_rx K src d1 l1 s = Some ((), s1) \<and> n_dhcp_state (g_net s1) = DHCP_REQUEST \<and>
    dhcp_rx K src' d2 l2 s1 = Some ((), s2) \<and>
    dhcp_bound s2 \<and> n_ip (g_net s2) = yi2 \<and> n_netmask (g_net s2) = nm \<and>
    n_gateway (g_net s2) = find_opt32 OPT_ROUTER opl2 \<and> n_dns (g_net s2) = find_opt32 OPT_DNS opl2"
proof -
  note offer = assms(5) [folded assms(4)] assms(6-8) and req = assms(13) [folded assms(4)]
  obtain t st u s1 where one: "say_offer K yi server (set_net (g_net s\<lparr>n_dhcp_server := server\<rparr>) s) = Some (0, t)"
    "udp_tx K IP_BCAST DHCP_PORT_CLIENT DHCP_PORT_SERVER req (of_nat (length req))
      (set_net (g_net t\<lparr>n_dhcp_state := DHCP_REQUEST\<rparr>) t) = Some (st, u)"
    "say K ''[DHCP] REQUEST sent'' u = Some (0, s1)" "dhcp_rx K src d1 l1 s = Some ((), s1)"
    and s1: "n_dhcp_state (g_net s1) = DHCP_REQUEST" "n_dhcp_xid (g_net s1) = n_dhcp_xid (g_net s)" "link_wf (g_net s1)"
    by (rule dhcp_offer_asks [OF assms(1-3) offer req])
  have "dhcp_msg d2 l2 (n_dhcp_xid (g_net s1)) yi2 opl2" using assms(4,9) s1(2) by simp
  from dhcp_ack_binds [OF assms(1) s1(3,1) this assms(10-12)] obtain s2 where
    two: "dhcp_rx K src' d2 l2 s1 = Some ((), s2)"
    "g_net s2 = g_net s1\<lparr>n_ip := yi2, n_netmask := nm, n_gateway := find_opt32 OPT_ROUTER opl2,
       n_dns := find_opt32 OPT_DNS opl2, n_dhcp_state := DHCP_BOUND\<rparr>" by blast
  have "dhcp_bound s2 \<and> n_ip (g_net s2) = yi2 \<and> n_netmask (g_net s2) = nm \<and>
    n_gateway (g_net s2) = find_opt32 OPT_ROUTER opl2 \<and> n_dns (g_net s2) = find_opt32 OPT_DNS opl2"
    by (simp add: two(2) dhcp_bound_def)
  with one two(1) s1(1) show ?thesis by blast
qed

theorem dhcp_obtains_lease_witness:
  "\<exists>s1 s2. dhcp_rx sample_kernel 5 (sample_msg 9 [Opt 53 [2], Opt 54 [10, 0, 2, 2]])
       (int (length (sample_msg 9 [Opt 53 [2], Opt 54 [10, 0, 2, 2]])))
       (set_net (sample_net\<lparr>n_dhcp_state := DHCP_DISCOVER\<rparr>) sample) = Some ((), s1) \<and>
     dhcp_rx sample_kernel 5 (sample_msg 9 [Opt 53 [5], Opt 1 [255, 255, 255, 0]])
       (int (length (sample_msg 9 [Opt 53 [5], Opt 1 [255, 255, 255, 0]]))) s1 = Some ((), s2) \<and>
     dhcp_bound s2 \<and> n_ip (g_net s2) = 9"
proof -
  let ?s = "set_net (sample_net\<lparr>n_dhcp_state := DHCP_DISCOVER\<rparr>) sample"
  have m: "dhcp_msg (sample_msg 9 [Opt 53 [2], Opt 54 [10, 0, 2, 2]])
      (int (length (sample_msg 9 [Opt 53 [2], Opt 54 [10, 0, 2, 2]]))) 0 9 [Opt 53 [2], Opt 54 [10, 0, 2, 2]]"
    "dhcp_msg (sample_msg 9 [Opt 53 [5], Opt 1 [255, 255, 255, 0]])
      (int (length (sample_msg 9 [Opt 53 [5], Opt 1 [255, 255, 255, 0]]))) 0 9 [Opt 53 [5], Opt 1 [255, 255, 255, 0]]"
    by (rule sample_msg_ok; simp)+
  have o: "find_msg_type [Opt 53 [2], Opt 54 [10, 0, 2, 2]] = MSG_OFFER"
    "find_opt32 OPT_SERVER_ID [Opt 53 [2], Opt 54 [10, 0, 2, 2]] = 0x0A000202"
    "find_msg_type [Opt 53 [5], Opt 1 [255, 255, 255, 0]] = MSG_ACK"
    "find_opt32 OPT_SUBNET [Opt 53 [5], Opt 1 [255, 255, 255, 0]] = 0xFFFFFF00"
    by code_simp+
  have wf: "link_wf (g_net ?s)" using sample_wf by (simp add: net_wf_def link_wf_def set_net_def)
  have s: "n_dhcp_state (g_net ?s) = DHCP_DISCOVER" "n_dhcp_xid (g_net ?s) = 0" by (simp_all add: set_net_def)
  show ?thesis
    using dhcp_obtains_lease [OF sample_live wf s m(1) o(1,2) _ m(2) o(3,4) _ refl, of 5 5] by auto
qed

section \<open>DNS\<close>

text \<open>C22: For a name of labels of 1 to 63 bytes separated by dots, \<open>dns_build_query\<close> writes the query of the
  protocol (the transaction, recursion desired, one question: the labels with their lengths, type A, class IN),
  returns its length and leaves the rest of the buffer alone, if the buffer is longer.\<close>

theorem query_encodes_name:
  assumes "\<forall>l\<in>set ls. label_ok l" "length (dns_query txid ls) < n" "n \<le> length buf"
  shows "dns_build_query buf (int n) txid (dotted ls @ 0 # r) =
    Some (int (length (dns_query txid ls)), dns_query txid ls @ drop (length (dns_query txid ls)) buf)"
  using assms by (rule dns_build_query_eq)

theorem query_encodes_name_witness:
  "dns_build_query (replicate 64 9) 64 7 [97, 98, 46, 99, 0] =
     Some (22, [0, 7, 1, 0, 0, 1, 0, 0, 0, 0, 0, 0, 2, 97, 98, 1, 99, 0, 0, 1, 0, 1] @ replicate 42 9)"
proof -
  have q: "dns_query 7 [[97, 98], [99]] = [0, 7, 1, 0, 0, 1, 0, 0, 0, 0, 0, 0, 2, 97, 98, 1, 99, 0, 0, 1, 0, 1]"
    "\<forall>l\<in>set [[97, 98], [99]]. label_ok l" by code_simp+
  show ?thesis
    using query_encodes_name [OF q(2), of 7 64 "replicate 64 9" "[]"] unfolding q(1) by (simp add: drop_replicate)
qed

text \<open>C23: A response to the outstanding query (one question, names as labels or as a pointer) sets the first
  address record as the result; one without any ends the wait with an error; one of another transaction
  is ignored.\<close>

theorem response_is_decoded:
  assumes "\<forall>l\<in>set ls. label_ok l" "\<forall>x\<in>set rrs. rr_ok x" "length rrs < 65536" "flags AND 0x8000 \<noteq> 0"
    and "int (length (dns_response txid flags ns ar ls qt qc rrs)) \<le> len"
  shows "dns_rx src_ip (dns_response txid flags ns ar ls qt qc rrs @ r) len s = Some ((),
    if txid = n_dns_txid (g_net s) then
      (case first_a rrs of
         Some a \<Rightarrow> set_net (g_net s\<lparr>n_dns_result := a, n_dns_done := 1\<rparr>) s
       | None \<Rightarrow> set_dns_done (-1) s)
    else s)"
  using assms by (rule dns_rx_response)

theorem response_is_decoded_witness:
  "dns_rx 8 (dns_response 0 0x8180 0 0 [[97, 98], [99]] 1 1
       [RR (Ptr 0xC0 12) 5 1 60 [1, 100, 0], RR (Ptr 0xC0 12) 1 1 60 [10, 0, 0, 7]] @ [1, 2]) 60 sample =
     Some ((), set_net (sample_net\<lparr>n_dns_result := 0x0A000007, n_dns_done := 1\<rparr>) sample)"
proof -
  let ?rrs = "[RR (Ptr 0xC0 12) 5 1 60 [1, 100, 0], RR (Ptr 0xC0 12) 1 1 60 [10, 0, 0, 7]]"
  have h: "\<forall>l\<in>set [[97, 98], [99]]. label_ok l" "first_a ?rrs = Some 0x0A000007" by code_simp+
  have ok: "\<forall>x\<in>set ?rrs. rr_ok x" by simp
  have len: "length (dns_response 0 0x8180 0 0 [[97, 98], [99]] 1 1 ?rrs) \<le> 60"
    by (simp add: dns_response_def dns_question_def enc_rrs_def)
  show ?thesis
    using response_is_decoded [OF h(1) ok, of "0x8180" 0 0 0 1 1 60 8 "[1, 2]" sample] h(2) len by simp
qed

text \<open>C24: \<open>dns_rx\<close> is safe on every input: whatever the bytes, labels, pointers and counts, it stays inside the
  message and returns.\<close>

theorem dns_input_is_safe:
  assumes "len \<le> int (length data)"
  shows "\<exists>s'. dns_rx src_ip data len s = Some ((), s')"
  using dns_rx_returns [OF assms] by metis

theorem dns_input_is_safe_witness:
  "\<exists>s'. dns_rx 8 ([0, 0, 0x80, 0, 0, 1, 0xFF, 0xFF] @ replicate 40 0xBF) 48 sample = Some ((), s')"
  by (rule dns_input_is_safe) simp

text \<open>C25: A resolution ends: on a network on which nobody answers, with a clock that advances and a driver that
  answers, the three seconds pass and the call returns -1.\<close>

theorem resolve_times_out:
  assumes "live K \<mu>" "steady K now" "silent K" "net_wf (g_net s)" "n_dns (g_net s) \<noteq> 0" "n_ip (g_net s) \<noteq> 0"
    and "\<forall>l\<in>set ls. label_ok l" "length (dns_query 0 ls) < 256"
  shows "\<exists>s'. dns_resolve K (dotted ls @ 0 # r) s = Some ((-1, None), s') \<and> net_wf (g_net s')"
  using assms by (rule dns_resolve_silent)

theorem resolve_times_out_witness:
  "\<exists>s'. dns_resolve sample_kernel [99, 46, 97, 98, 0] sample = Some ((-1, None), s') \<and> net_wf (g_net s')"
proof -
  have l: "\<forall>l\<in>set [[99], [97, 98]]. label_ok l" by code_simp
  have q: "length (dns_query 0 [[99], [97, 98]]) < 256" by (simp add: dns_query_length enc_labels_def enc_label_def)
  show ?thesis
    using resolve_times_out [OF sample_live sample_steady sample_silent _ _ _ l q, of sample "[]"] by simp
qed

section \<open>The requests of clients\<close>

text \<open>C26: Every request gets the reply its command produces: the status, the length and the data, as many bytes of
  them as the client has room for, and nothing behind them changes.\<close>

theorem request_gets_reply:
  assumes "api_command K in_buf in_size s = Some ((status, bytes), s')" "length bytes \<le> 1500"
    and "4 \<le> in_size" "out_size \<le> length out_buf"
  shows "api_invoke K (Some in_buf) in_size out_buf out_size s =
    (let rep = le32 (of_int status) @ le32 (of_nat (length bytes)) @ bytes; k = min out_size (length rep)
     in Some ((int k, take k rep @ drop k out_buf), s'))"
  using assms by (rule api_invoke_eq)

theorem request_gets_reply_witness:
  "api_invoke sample_kernel (Some (le32 9)) 4 (replicate 10 1) 10 sample =
     Some ((8, [0, 0, 0, 0, 0, 0, 0, 0, 1, 1]), set_arp (replicate 16 zero_arp_entry) sample)"
proof -
  have c: "api_command sample_kernel (le32 9) 4 sample = Some ((0, []), set_arp (replicate 16 zero_arp_entry) sample)"
    by (simp add: api_command_def cmd_arp_flush_def ld32_def rd_def)
  have z: "le32 0 = [0, 0, 0, 0]" by (simp add: le32_def)
  show ?thesis
    using request_gets_reply [OF c, of 10 "replicate 10 1"] by (simp add: z numeral_eq_Suc)
qed

text \<open>C27: A request that is cut short is refused with -1, an unknown one with -99, and neither has any effect.\<close>

theorem bad_requests_are_refused:
  assumes "ld32 in_buf 0 = Some cmd" "4 \<le> in_size" "cmd \<notin> {1..10} \<or> in_size < min_size cmd"
  shows "api_command K in_buf in_size s = Some ((if cmd \<in> {1..10} then -1 else -99, []), s)"
proof (cases "cmd \<in> {1..10}")
  case True
  with assms(3) have "in_size < min_size cmd" by blast
  with True show ?thesis using api_command_short [OF assms(1) _ assms(2)] by simp
next
  case False
  then show ?thesis using api_command_unknown [OF assms(1), of K in_size s] by presburger
qed

theorem bad_requests_are_refused_witness:
  "api_command sample_kernel (le32 10 @ [1, 2]) 6 sample = Some ((-1, []), sample) \<and>
   api_command sample_kernel (le32 77) 4 sample = Some ((-99, []), sample)"
proof -
  have l: "ld32 (le32 10 @ [1, 2]) 0 = Some 10" "ld32 (le32 77) 0 = Some 77" by (simp_all add: ld32_def rd_def)
  have r: "(10 :: u32) \<in> {1..10}" "(77 :: u32) \<notin> {1..10}" by (simp_all add: word_le_nat_alt)
  show ?thesis
    using bad_requests_are_refused [OF l(1), of 6 sample_kernel sample]
      bad_requests_are_refused [OF l(2), of 4 sample_kernel sample] r by (simp add: min_size_def)
qed

text \<open>C28: A ping request always returns, and its answer is always that nobody replied: the waits end by the clock
  alone, since the daemon does not look at the device while it waits.\<close>

theorem ping_never_succeeds:
  assumes "live K \<mu>" "steady K now" "net_wf (g_net s)" "12 \<le> in_size" "12 \<le> length in_buf"
  shows "\<exists>s'. cmd_ping K in_buf in_size s = Some ((-1, replicate 8 0), s') \<and> keeps s s'"
  using assms by (rule cmd_ping_returns)

theorem ping_never_succeeds_witness:
  "\<exists>s'. cmd_ping sample_kernel (le32 2 @ le32 0x0A000201 @ [1, 0, 100, 0]) 12 sample =
     Some ((-1, replicate 8 0), s') \<and> keeps sample s'"
  by (rule ping_never_succeeds [OF sample_live sample_steady]) simp_all

text \<open>C29: A client that asks for more than 1472 bytes of a longer datagram makes the daemon write past the reply
  structure.\<close>

theorem receive_request_overflows:
  assumes "net_wf (g_net s)" "1472 < max_len" "ports_of s port = Some (d, a, q)" "1472 < length d"
  shows "api_command K (req_recv port max_len) 8 s = None"
  using assms by (rule api_recv_overflow)

theorem receive_request_overflows_witness:
  "api_command sample_kernel (req_recv 7 1500) 8 sample_mail = None"
  using receive_request_overflows [OF _ _ sample_mail_simps(2)] by simp

text \<open>C30: Every reply has the layout of its request: the structure the request is answered with, 34 bytes for the
  state of the interface, 8 for a ping, 1480 for a datagram, 4 for a name, 10 for a hardware address, none for
  the rest; and no data at all for a request that is cut short. So every reply fits the 1500 bytes of its area.\<close>

theorem replies_have_their_layout:
  assumes "net_wf (g_net s)" "ld32 in_buf 0 = Some cmd" "4 \<le> in_size"
    and "api_command K in_buf in_size s = Some ((status, bytes), s')"
  shows "length bytes = (if in_size < min_size cmd then 0 else reply_size cmd) \<and> length bytes \<le> REP_DATA_SIZE"
  using api_command_layout [OF assms] by (simp add: reply_size_def)

theorem replies_have_their_layout_witness:
  "\<exists>status bytes s'. api_command sample_kernel (le32 1) 4 sample = Some ((status, bytes), s') \<and> length bytes = 34"
proof -
  have l: "ld32 (le32 1) 0 = Some 1" by (simp add: ld32_def rd_def)
  have r: "api_command sample_kernel (le32 1) 4 sample = Some ((0, info_bytes sample_net), sample)"
    using cmd_get_info_eq [of sample] by (simp add: api_command_def l)
  show ?thesis using replies_have_their_layout [OF _ l _ r] r by (simp add: min_size_def reply_size_def)
qed

section \<open>A client and the daemon\<close>

text \<open>C31: The test client does not see the state of the interface that the daemon sends: it declares the structure of the
  reply unpacked, so every number it prints behind the hardware address is put together from the halves of two fields,
  and it says that there is no DHCP lease whether there is one or not.\<close>

theorem client_misreads_info:
  assumes "served K daemon screen DK" "net_wf (g_net (daemon (up_os s)))"
  shows "\<exists>s'. test_get_info K fd s = Some (0, s') \<and> daemon (up_os s') = daemon (up_os s) \<and>
    screen (up_os s') = screen (up_os s) @ bytes_of (newline @ ''[1] GET_INFO'' @ newline) @
      info_text (misread (g_net (daemon (up_os s))))"
proof -
  have "length (n_mac (g_net (daemon (up_os s)))) = 6" using assms(2) by (simp add: net_wf_def link_wf_def)
  then show ?thesis by (rule served.test_get_info_misreads [OF assms(1)])
qed

theorem client_misreads_info_witness:
  "\<exists>s'. test_get_info (node_calls sample_kernel) 3 \<lparr>up_errno = 0, up_os = (sample, [])\<rparr> = Some (0, s') \<and>
    snd (up_os s') = bytes_of (newline @ ''[1] GET_INFO'' @ newline) @
      info_text \<lparr>in_mac = [2, 0, 0, 0, 0, 1], in_ip = 0xFF000A00, in_netmask = 0x0201FFFF, in_gateway = 0x08080A00,
        in_dns = 0x05DC0808, in_mtu = 0, in_link_up = 0, in_dhcp_bound = 0\<rparr>"
proof -
  have m: "misread sample_net = \<lparr>in_mac = [2, 0, 0, 0, 0, 1], in_ip = 0xFF000A00, in_netmask = 0x0201FFFF,
      in_gateway = 0x08080A00, in_dns = 0x05DC0808, in_mtu = 0, in_link_up = 0, in_dhcp_bound = 0\<rparr>"
    by (simp add: misread_def halves_def) (simp add: sample_net_def zero_net_def)
  show ?thesis
    using client_misreads_info [OF node_served, of "\<lparr>up_errno = 0, up_os = (sample, [])\<rparr>" sample_kernel 3]
    unfolding m [symmetric] by auto
qed

text \<open>C32: The client runs to its end against a daemon that is cut off from the network, with the daemon's state intact, and
  prints the state it misreads and that the name has no result.\<close>

theorem client_runs_without_network:
  assumes "served K daemon screen DK" "live DK \<mu>" "steady DK now" "silent DK" "net_wf (g_net (daemon (up_os s)))"
    and "n_dns (g_net (daemon (up_os s))) \<noteq> 0" "n_ip (g_net (daemon (up_os s))) \<noteq> 0"
  shows "\<exists>s'. client_main K s = Some (0, s') \<and> net_wf (g_net (daemon (up_os s'))) \<and>
    screen (up_os s') = screen (up_os s) @ client_text (g_net (daemon (up_os s)))"
  using assms by (rule served.client_runs)

theorem client_runs_without_network_witness:
  "\<exists>s'. client_main (node_calls sample_kernel) \<lparr>up_errno = 0, up_os = (sample, [])\<rparr> = Some (0, s') \<and>
    net_wf (g_net (fst (up_os s'))) \<and> snd (up_os s') = client_text sample_net"
  using client_runs_without_network [OF node_served sample_live sample_steady sample_silent,
      of "\<lparr>up_errno = 0, up_os = (sample, [])\<rparr>"] by simp

section \<open>Printing\<close>

text \<open>C33: \<open>snprintf\<close> is told the size of its buffer and keeps to it: it stores as much of the text of the format as fits in
  front of a terminator, leaves the bytes behind alone, and returns the length of the whole text, for every format
  of literal characters and conversions with arguments of their types, the least signed integers excepted, whose
  negation overflows.\<close>

theorem snprintf_stores_what_fits:
  assumes "list_all piece_ok ps" "0 < sz" "sz \<le> length str" "int (length (render ps)) \<le> INT_MAX"
  shows "snprintf (Some str) sz (format ps) (args ps) =
    Some (int (length (render ps)), Some (overwrite 0 (take (sz - 1) (render ps) @ [0]) str))"
  using assms by (rule snprintf_eq)

theorem snprintf_stores_what_fits_witness:
  "snprintf (Some [1, 1, 1, 1, 1, 1]) 5 [110, 61, 37, 108, 100, 33, 0] [ALong (- 42)] =
     Some (6, Some [110, 61, 45, 52, 0, 1])"
proof -
  let ?ps = "[Lit 110, Lit 61, Dec L (- 42), Lit 33]"
  have f: "format ?ps = [110, 61, 37, 108, 100, 33, 0]" "args ?ps = [ALong (- 42)]"
    "render ?ps = [110, 61, 45, 52, 50, 33]" by code_simp+
  show ?thesis
    using snprintf_stores_what_fits [of ?ps 5 "[1, 1, 1, 1, 1, 1]"] unfolding f
    by (simp add: INT_MAX_def overwrite_def)
qed

text \<open>C34: \<open>printf\<close> writes the text of its format to the standard output, in pieces one behind the other, and changes
  nothing else, for the conversions it knows; a \<open>%\<close> with any other character, as in a field width, appears as it is.\<close>

theorem printf_writes_text:
  assumes "list_all piece_ok ps" "list_all printf_knows ps"
  shows "\<exists>out. printf K (format ps) (args ps @ ap) s = Some (0, console K out s) \<and> concat out = render ps \<and>
    same_statics s (console K out s)"
  using printf_pieces [OF assms refl refl, of K ap s] console_statics by blast

theorem printf_writes_text_witness:
  "\<exists>out. printf sample_kernel [120, 61, 37, 48, 50, 120, 37, 117, 0] [AInt 7] sample =
       Some (0, console sample_kernel out sample) \<and> concat out = [120, 61, 37, 48, 50, 120, 55]"
proof -
  let ?ps = "[Lit 120, Lit 61, Unknown 48, Lit 50, Lit 120, Uns Plain 7]"
  have f: "format ?ps = [120, 61, 37, 48, 50, 120, 37, 117, 0]" "args ?ps = [AInt 7]"
    "render ?ps = [120, 61, 37, 48, 50, 120, 55]" by code_simp+
  show ?thesis using printf_writes_text [of ?ps sample_kernel "[]" sample] unfolding f by auto
qed

section \<open>The C library the daemon carries\<close>

text \<open>C35: A line is edited while it is typed: whatever keys come, and however long the waits in between, the buffer holds in
  the end, with its terminator, what is left of the printable characters in front of the line feed when every
  backspace takes the one before it back and what does not fit is dropped; nothing behind the buffer is written.\<close>

theorem line_is_edited:
  assumes "keyboard K fd kb \<mu>" "finite_input K \<nu>"
    and "sys_open K ''$/dev/input/kbd0'' O_RDONLY 0 s = (fd, s1)" "0 \<le> fd"
    and "kb (os s1) = ks @ 10 # rest" "10 \<notin> set ks"
    and "0 < maxlen" "maxlen \<le> length buf" "maxlen \<le> 0x7FFFFFFF" "line = typed_line (maxlen - 1) ks"
  shows "\<exists>buf' s'. input_line_to_buffer K (Some buf) maxlen s = Some ((int (length line), Some buf'), s') \<and>
    same_statics s s' \<and> take (Suc (length line)) buf' = line @ [0] \<and> drop maxlen buf' = drop maxlen buf"
  unfolding assms(10) by (rule input_line_to_buffer_reads [OF assms(1-9)]) blast

theorem line_is_edited_witness:
  "\<exists>buf' s'. input_line_to_buffer key_kernel (Some (replicate 9 7)) 8 (key_machine [104, 88, 8, 200, 105, 13, 10]) =
     Some ((2, Some buf'), s') \<and> take 3 buf' = [104, 105, 0] \<and> drop 8 buf' = [7]"
proof -
  have l: "[104, 105] = typed_line (8 - 1) [104, 88, 8, 200, 105, 13]" by code_simp
  have o: "sys_open key_kernel ''$/dev/input/kbd0'' O_RDONLY 0 (key_machine [104, 88, 8, 200, 105, 13, 10]) =
      (3, key_machine [104, 88, 8, 200, 105, 13, 10])"
    by (simp add: sys_open_def key_kernel_def key_machine_def)
  have k: "os (key_machine [104, 88, 8, 200, 105, 13, 10]) = [104, 88, 8, 200, 105, 13] @ 10 # []"
    by (simp add: key_machine_def)
  have n: "length [104, 105 :: u8] = 2" "Suc 2 = 3" "drop 8 (replicate 9 (7 :: u8)) = [7]" by simp_all
  have p: "(10 :: u8) \<notin> set [104, 88, 8, 200, 105, 13]" "(8 :: nat) \<le> length (replicate 9 (7 :: u8))" by simp_all
  show ?thesis
    using line_is_edited [OF key_kernel_keyboard o _ k p(1) _ p(2) _ l] unfolding n by simp blast
qed

text \<open>C36: Calling \<open>strtok\<close> again and again, from the position it keeps, until it returns NULL yields pointers to the tokens of the string, one after the other
  and each a string of its own in the end, and leaves the bytes in front of the string unchanged.\<close>

theorem strtok_splits:
  assumes "cstr ds delim" "cstr s (drop l obj)" "length s < n"
  shows "\<exists>ps obj'. strtok_all n delim (obj, Some l) = Some (ps, obj') \<and> length obj' = length obj \<and>
    take l obj' = take l obj \<and> list_all2 (\<lambda>i t. l \<le> i \<and> cstr t (drop i obj')) ps (tokens ds s)"
  using strtok_all_tokens [OF assms] by blast

theorem strtok_splits_witness:
  "\<exists>ps obj'. strtok_all 9 [46, 0] ([5, 46, 97, 46, 46, 98, 99, 0], Some 1) = Some (ps, obj') \<and>
     list_all2 (\<lambda>i t. 1 \<le> i \<and> cstr t (drop i obj')) ps [[97], [98, 99]]"
proof -
  have t: "tokens [46] [46, 97, 46, 46, 98, 99] = [[97], [98, 99]]" by code_simp
  show ?thesis
    using strtok_splits [of "[46]" "[46, 0]" "[46, 97, 46, 46, 98, 99]" 1 "[5, 46, 97, 46, 46, 98, 99, 0]" 9]
    by (auto simp: cstr_def t)
qed

section \<open>The heap\<close>

text \<open>C37: Every allocation of 1 to 2 to the 62nd bytes returns: with NULL and nothing changed for the callers, or with a payload of at least the
  size asked for, and little more, that meets none in use. The bytes of those are what they were.\<close>

theorem malloc_allocates:
  assumes "heap_ok s us" "sbrk_ok K" "0 < sz" "sz \<le> 2 ^ 62"
  shows "\<exists>p s'. malloc K sz s = Some (p, s') \<and> same_bytes us s s' \<and>
    (if p = 0 then heap_ok s' us
     else us p = None \<and> (\<exists>n. sz \<le> n \<and> n < sz + 72 \<and> heap_ok s' (us(p \<mapsto> n)) \<and>
       (\<forall>q m. us q = Some m \<longrightarrow> p + n \<le> q \<or> q + m \<le> p)))"
proof -
  obtain p s' where r: "malloc K sz s = Some (p, s')" "same_bytes us s s'"
    "if p = 0 then heap_ok s' us else us p = None \<and> (\<exists>n. sz \<le> n \<and> n < sz + 72 \<and> heap_ok s' (us(p \<mapsto> n)))"
    using malloc_ok [OF assms] by blast
  have "p + n \<le> q \<or> q + m \<le> p" if "heap_ok s' (us(p \<mapsto> n))" "us p = None" "us q = Some m" for n q m
  proof -
    have "p \<noteq> q" using that(2,3) by auto
    then show ?thesis using heap_ok_apart(3) [OF that(1), of p n q m] that(3) by simp
  qed
  with r(3) have "if p = 0 then heap_ok s' us
    else us p = None \<and> (\<exists>n. sz \<le> n \<and> n < sz + 72 \<and> heap_ok s' (us(p \<mapsto> n)) \<and>
      (\<forall>q m. us q = Some m \<longrightarrow> p + n \<le> q \<or> q + m \<le> p))" by metis
  with r(1,2) show ?thesis by blast
qed

theorem malloc_allocates_witness:
  "\<exists>n. malloc bump_sbrk 100 heap0 = Some (4120, heap1) \<and> 100 \<le> n \<and> heap_ok heap1 [4120 \<mapsto> n]"
  using malloc_allocates [OF heap0_ok bump_sbrk_ok, of 100] by (auto simp: heap1_eq)

text \<open>C38: What is given back is no longer in use and all else stays; giving it back once more has no effect; and any
  allocation that fits into it succeeds then, whatever the kernel answers.\<close>

theorem free_releases:
  assumes "heap_ok s us" "us p = Some n" "sbrk_ok K"
  shows "\<exists>s'. free p s = Some ((), s') \<and> heap_ok s' (us(p := None)) \<and> same_bytes (us(p := None)) s s' \<and>
    free p s' = Some ((), s') \<and>
    (\<forall>sz. 0 < sz \<and> uheap_align sz \<le> n \<and> sz \<le> 2 ^ 62 \<longrightarrow> (\<exists>q s''. malloc K sz s' = Some (q, s'') \<and> q \<noteq> 0))"
  using free_ok [OF assms(1,2)] free_malloc [OF assms] by blast

theorem free_releases_witness:
  "\<exists>s'. free 4120 heap1 = Some ((), s') \<and> heap_ok s' (\<lambda>_. None) \<and>
     (\<exists>q s''. malloc bump_sbrk 90 s' = Some (q, s'') \<and> q \<noteq> 0)"
proof (rule heap1_ok)
  fix n assume n: "100 \<le> n" "heap_ok heap1 [4120 \<mapsto> n]"
  have e: "[4120 \<mapsto> n](4120 := None) = (\<lambda>_. None)" by auto
  have "uheap_align 90 \<le> n" using n(1) by (simp add: uheap_align_eq)
  moreover obtain s' where s': "free 4120 heap1 = Some ((), s')" "heap_ok s' ([4120 \<mapsto> n](4120 := None))"
    "\<forall>sz. 0 < sz \<and> uheap_align sz \<le> n \<and> sz \<le> 2 ^ 62 \<longrightarrow> (\<exists>q s''. malloc bump_sbrk sz s' = Some (q, s'') \<and> q \<noteq> 0)"
    using free_releases [OF n(2) _ bump_sbrk_ok, of 4120 n] by auto
  ultimately show ?thesis unfolding e by (intro exI [of _ s']) simp
qed

text \<open>C39: \<open>realloc\<close> keeps the first bytes, as many as fit, wherever the block ends up, and the other blocks; when no
  memory is left it returns NULL and the old block stays. Behind a block that must grow a header's length of memory
  has to be mapped, since the code looks there for a free neighbour.\<close>

theorem realloc_keeps_bytes:
  assumes "heap_ok s us" "us p = Some n" "sbrk_ok K" "0 < sz" "sz \<le> 2 ^ 61"
    and "uheap_align sz \<le> n \<or> mapped s (p + n) 24"
  shows "\<exists>q s'. realloc K p sz s = Some (q, s') \<and> same_bytes (us(p := None)) s s' \<and>
    (if q = 0 then heap_ok s' us \<and> same_bytes us s s'
     else (q = p \<or> us q = None) \<and> (\<exists>m. sz \<le> m \<and> heap_ok s' (us(p := None, q \<mapsto> m))) \<and>
       (\<forall>i. i < n \<and> i < sz \<longrightarrow> u_ram s' (q + i) = u_ram s (p + i)))"
  using assms by (rule realloc_ok)

theorem realloc_keeps_bytes_witness:
  "\<exists>q s'. realloc bump_sbrk 4120 20 heap1 = Some (q, s') \<and> (q = 0 \<or> u_ram s' q = u_ram heap1 4120)"
proof (rule heap1_ok)
  fix n assume n: "100 \<le> n" "heap_ok heap1 [4120 \<mapsto> n]"
  have "uheap_align 20 \<le> n" using n(1) by (simp add: uheap_align_eq)
  then obtain q s' where "realloc bump_sbrk 4120 20 heap1 = Some (q, s')"
    "q \<noteq> 0 \<Longrightarrow> \<forall>i. i < n \<and> i < 20 \<longrightarrow> u_ram s' (q + i) = u_ram heap1 (4120 + i)"
    using realloc_keeps_bytes [OF n(2) _ bump_sbrk_ok, of 4120 n 20] by auto
  moreover have "0 < n" using n(1) by simp
  ultimately show ?thesis
    by (intro exI [of _ q] exI [of _ s']) (metis add.right_neutral zero_less_numeral)
qed

text \<open>C40: A client may allocate any number of blocks and give them back in any order: no call fails to return, the
  pointers it got are all different, and in the end the heap holds what it held before.\<close>

theorem heap_round_trip:
  assumes "sbrk_ok K" "heap_ok s us" "\<forall>n\<in>set ns. 0 < n \<and> n \<le> 2 ^ 62"
  shows "\<exists>ps s'. alloc_all malloc_in ns (K, s) = Some (ps, s') \<and> length ps = length ns \<and> distinct (given ps) \<and>
    dom us \<inter> set (given ps) = {} \<and>
    (\<forall>qs. distinct qs \<and> set qs = set (given ps) \<longrightarrow>
      (\<exists>t. release_all free_in qs s' = Some t \<and> heap_in t us))"
  by (rule uheap.alloc_release) (use assms in \<open>simp_all add: heap_in_def\<close>)

theorem heap_round_trip_witness:
  "\<exists>ps s'. alloc_all malloc_in [5, 300, 17] (bump_sbrk, heap0) = Some (ps, s') \<and>
     (\<exists>t. release_all free_in (rev (given ps)) s' = Some t \<and> heap_in t (\<lambda>_. None))"
proof -
  obtain ps s' where r: "alloc_all malloc_in [5, 300, 17] (bump_sbrk, heap0) = Some (ps, s')" "distinct (given ps)"
    "\<forall>qs. distinct qs \<and> set qs = set (given ps) \<longrightarrow> (\<exists>t. release_all free_in qs s' = Some t \<and> heap_in t (\<lambda>_. None))"
    using heap_round_trip [OF bump_sbrk_ok heap0_ok, of "[5, 300, 17]"] by auto
  have "distinct (rev (given ps)) \<and> set (rev (given ps)) = set (given ps)" using r(2) by simp
  with r(3) have "\<exists>t. release_all free_in (rev (given ps)) s' = Some t \<and> heap_in t (\<lambda>_. None)" by blast
  with r(1) show ?thesis by blast
qed

end
